(* ===== verification/Prelude.thy ===== *)
theory Prelude
  imports Main "HOL-Library.Word"
begin

text \<open>
  Shared vocabulary of the development.

  \<^item> Rust byte slices, \<^verbatim>\<open>Bytes\<close>, \<^verbatim>\<open>Vec<u8>\<close>, \<^verbatim>\<open>String\<close> and \<^verbatim>\<open>&str\<close> are lists of \<^typ>\<open>char\<close>: an
    Isabelle character is exactly one byte. A \<^verbatim>\<open>String\<close> holds its UTF-8 encoding.
  \<^item> \<^verbatim>\<open>std::time::Instant\<close> and \<^verbatim>\<open>Duration\<close> are natural numbers of nanoseconds. The clock is never
    read implicitly: every operation that calls \<^verbatim>\<open>Instant::now()\<close> takes the reading as an argument.
  \<^item> \<^verbatim>\<open>u64\<close> and \<^verbatim>\<open>u32\<close> counters are machine words, so that \<^verbatim>\<open>+ 1\<close> wraps as it does in the release build;
    \<^verbatim>\<open>usize\<close> lengths and loop counters, bounded by memory, are natural numbers.
  \<^item> A panic (or an abort) is a value: a computation that may panic returns \<^verbatim>\<open>panic + 'a\<close>.
\<close>

named_theorems wf_intros "introduction rules that establish a component's invariant"
named_theorems view_simps "equations that read a component's state through its abstraction"

type_synonym bytes = "char list"
type_synonym addr = "char list"
type_synonym u64 = "64 word"
type_synonym u32 = "32 word"
type_synonym uuid = "128 word"
type_synonym instant = nat
type_synonym duration = nat

section \<open>Panics as values\<close>

datatype panic =
    InstantOverflow   \<comment> \<open>\<^verbatim>\<open>Instant + Duration\<close> not representable\<close>
  | CapacityOverflow  \<comment> \<open>\<^verbatim>\<open>Vec::with_capacity\<close> beyond what the allocator can give\<close>
  | InvalidAddress    \<comment> \<open>\<^verbatim>\<open>expect("invalid address")\<close>\<close>
  | InvalidUuid       \<comment> \<open>\<^verbatim>\<open>expect("invalid UUID in config")\<close>\<close>
  | EmptyRange        \<comment> \<open>a random number from an empty range\<close>
  | DivideByZero      \<comment> \<open>an integer division by zero\<close>
  | ZeroInterval      \<comment> \<open>\<^verbatim>\<open>tokio::time::interval\<close> with a zero period\<close>

type_synonym 'a run = "panic + 'a"

fun and_then :: "'e + 'a \<Rightarrow> ('a \<Rightarrow> 'e + 'b) \<Rightarrow> 'e + 'b" where
  "and_then (Inl e) f = Inl e"
| "and_then (Inr a) f = f a"

lemma and_then_Inr_conv: "and_then m f = Inr b \<longleftrightarrow> (\<exists>a. m = Inr a \<and> f a = Inr b)"
  by (cases m) auto

lemma and_then_Inl_conv:
  "and_then m f = Inl e \<longleftrightarrow> m = Inl e \<or> (\<exists>a. m = Inr a \<and> f a = Inl e)"
  by (cases m) auto

section \<open>Time\<close>

definition nanos_per_milli :: nat where "nanos_per_milli = 1000000"
definition nanos_per_sec :: nat where "nanos_per_sec = 1000000000"

definition from_millis :: "u64 \<Rightarrow> duration" where
  "from_millis ms = unat ms * nanos_per_milli"

definition from_secs :: "u64 \<Rightarrow> duration" where
  "from_secs s = unat s * nanos_per_sec"

text \<open>\<^verbatim>\<open>d.as_millis() as u64\<close>: the \<^verbatim>\<open>u128\<close> count is truncated to 64 bits.\<close>
definition as_millis_u64 :: "duration \<Rightarrow> u64" where
  "as_millis_u64 d = word_of_nat (d div nanos_per_milli)"

definition as_secs :: "duration \<Rightarrow> nat" where
  "as_secs d = d div nanos_per_sec"

text \<open>
  \<^verbatim>\<open>Instant + Duration\<close> panics when the sum is not representable; on 64-bit Unix an \<^verbatim>\<open>Instant\<close> holds a
  signed 64-bit number of seconds.
\<close>
definition instant_limit :: nat where
  "instant_limit = 2 ^ 63 * nanos_per_sec"

definition instant_add :: "instant \<Rightarrow> duration \<Rightarrow> instant run" where
  "instant_add t d = (if t + d < instant_limit then Inr (t + d) else Inl InstantOverflow)"

lemma instant_add_Inr [simp]:
  "instant_add t d = Inr u \<longleftrightarrow> t + d < instant_limit \<and> u = t + d"
  by (auto simp: instant_add_def)

lemma instant_add_Inl [simp]:
  "instant_add t d = Inl e \<longleftrightarrow> instant_limit \<le> t + d \<and> e = InstantOverflow"
  by (auto simp: instant_add_def)

lemma from_millis_bound: "from_millis ms < 2 ^ 64 * nanos_per_milli"
  using unsigned_less [of ms, where ?'a = nat] by (simp add: from_millis_def nanos_per_milli_def)

text \<open>A millisecond TTL never overflows the clock, whatever the request says.\<close>
lemma instant_add_millis:
  assumes "now < 2 ^ 62 * nanos_per_sec"
  shows "instant_add now (from_millis ms) = Inr (now + from_millis ms)"
  using from_millis_bound [of ms] assms
  by (simp add: instant_limit_def nanos_per_sec_def nanos_per_milli_def)

lemma as_millis_from_millis [simp]: "as_millis_u64 (from_millis ms) = ms"
  by (simp add: as_millis_u64_def from_millis_def nanos_per_milli_def)

lemma from_as_millis:
  assumes "d < 2 ^ 64 * nanos_per_milli"
  shows "from_millis (as_millis_u64 d) = d div nanos_per_milli * nanos_per_milli"
proof -
  have "d div nanos_per_milli < 2 ^ 64" using assms by (simp add: less_mult_imp_div_less)
  then show ?thesis by (simp add: from_millis_def as_millis_u64_def unsigned_of_nat take_bit_nat_eq_self)
qed

section \<open>Words\<close>

lemma unat_u64_max: "unat (- 1 :: u64) = 2 ^ 64 - 1"
  by (simp add: unsigned_minus_1_eq_mask mask_eq_exp_minus_1)

text \<open>A counter below its maximum grows when it is incremented.\<close>
lemma word_less_inc:
  fixes n :: u64
  assumes "n \<noteq> - 1"
  shows "n < n + 1"
proof -
  have "unat n \<noteq> unat (- 1 :: u64)" using assms by (simp only: word_unat_eq_iff) simp
  then have "unat n + 1 < 2 ^ 64"
    using unsigned_less [of n, where ?'a = nat] unat_u64_max by simp
  then show ?thesis by (simp add: word_less_nat_alt unat_word_ariths)
qed

lemma word_inc_nonzero:
  fixes a b :: "'a::len word"
  assumes "a < b"
  shows "a + 1 \<noteq> 0"
proof
  assume "a + 1 = 0"
  then have "a = - 1" by (simp add: eq_neg_iff_add_eq_0)
  then show False using assms word_order.extremum [of b] by simp
qed

section \<open>Lists and options\<close>

text \<open>\<^verbatim>\<open>Iterator::find\<close> is \<^const>\<open>List.find\<close>; \<^verbatim>\<open>iter().any\<close> is \<^const>\<open>list_ex\<close>.\<close>

lemma find_Some_in_set: "List.find P xs = Some x \<Longrightarrow> x \<in> set xs \<and> P x"
  by (auto simp: find_Some_iff)

lemma find_None_conv: "List.find P xs = None \<longleftrightarrow> (\<forall>x\<in>set xs. \<not> P x)"
  by (auto simp: find_None_iff)

lemma find_append: "List.find P (xs @ ys) = (case List.find P xs of None \<Rightarrow> List.find P ys | Some x \<Rightarrow> Some x)"
  by (induction xs) auto

lemma find_filter_other:
  assumes "\<And>x. P x \<Longrightarrow> Q x"
  shows "List.find P (filter Q xs) = List.find P xs"
  using assms by (induction xs) auto

text \<open>The first occurrence of every element, in order: what a loop with a \<^verbatim>\<open>seen\<close> set visits.\<close>
fun first_occs :: "'a list \<Rightarrow> 'a list \<Rightarrow> 'a list" where
  "first_occs seen [] = []"
| "first_occs seen (x # xs) =
     (if x \<in> set seen then first_occs seen xs else x # first_occs (x # seen) xs)"

lemma set_first_occs: "set (first_occs seen xs) = set xs - set seen"
  by (induction xs arbitrary: seen) auto

lemma distinct_first_occs: "distinct (first_occs seen xs)"
  by (induction xs arbitrary: seen) (auto simp: set_first_occs)

lemma first_occs_subset: "set xs \<subseteq> set seen \<Longrightarrow> first_occs seen xs = []"
  by (induction xs arbitrary: seen) auto

lemma first_occs_append:
  "first_occs seen (xs @ ys) = first_occs seen xs @ first_occs (rev (first_occs seen xs) @ seen) ys"
  by (induction xs arbitrary: seen) auto

lemma first_occs_Nil_conv: "first_occs seen xs = [] \<longleftrightarrow> set xs \<subseteq> set seen"
  by (metis Diff_eq_empty_iff set_empty set_first_occs)

section \<open>Maps laid over one another\<close>

text \<open>Maps laid over one another: where all that have a key agree on what matters of it, so does the result.\<close>
lemma fold_override_Some:
  assumes "x \<in> set xs" "f x k \<noteq> None" "\<And>x y. x \<in> set xs \<Longrightarrow> f x k = Some y \<Longrightarrow> P y"
  shows "\<exists>y. fold (\<lambda>x m. m ++ f x) xs m k = Some y \<and> P y"
  using assms
proof (induction xs arbitrary: x m)
  case (Cons z zs)
  show ?case
  proof (cases "\<exists>w\<in>set zs. f w k \<noteq> None")
    case True
    then obtain w where "w \<in> set zs" "f w k \<noteq> None" by blast
    then show ?thesis using Cons.IH [of w "m ++ f z"] Cons.prems(3) by simp blast
  next
    case False
    then have "fold (\<lambda>x m. m ++ f x) zs n k = n k" for n
      by (induction zs arbitrary: n) (auto simp: map_add_def)
    moreover have "\<exists>y. f z k = Some y \<and> P y" using False Cons.prems by auto
    ultimately show ?thesis by (auto simp: map_add_def)
  qed
qed simp

lemma fold_override_None:
  assumes "\<And>x. x \<in> set xs \<Longrightarrow> f x k = None"
  shows "fold (\<lambda>x m. m ++ f x) xs m k = m k"
  using assms by (induction xs arbitrary: m) (auto simp: map_add_def)

end
