(* ===== verification/Std_Text.thy ===== *)
theory Std_Text
  imports Prelude
begin

text \<open>
  The text functions of the Rust standard library that the program calls: decimal formatting
  (\<^verbatim>\<open>to_string\<close>, \<^verbatim>\<open>{}\<close>), \<^verbatim>\<open>str::parse\<close> for \<^verbatim>\<open>i64\<close> and \<^verbatim>\<open>u64\<close> with its error kinds, \<^verbatim>\<open>str::from_utf8\<close> with the
  position and length that its error reports, and \<^verbatim>\<open>to_uppercase\<close>, as far as its result is compared with
  ASCII keywords.
\<close>

section \<open>Decimal numbers\<close>

definition digit_char :: "nat \<Rightarrow> char" where
  "digit_char d = char_of (48 + d)"

fun dec_nat :: "nat \<Rightarrow> bytes" where
  "dec_nat n = (if n < 10 then [digit_char n] else dec_nat (n div 10) @ [digit_char (n mod 10)])"

declare dec_nat.simps [simp del]

definition dec_int :: "int \<Rightarrow> bytes" where
  "dec_int i = (if i < 0 then CHR ''-'' # dec_nat (nat (- i)) else dec_nat (nat i))"

definition to_digit :: "char \<Rightarrow> nat option" where
  "to_digit c = (let b = of_char c in if 48 \<le> b \<and> b \<le> 57 then Some (b - 48) else None)"

datatype int_error = EmptyInt | InvalidDigit | PosOverflow | NegOverflow

fun int_error_display :: "int_error \<Rightarrow> bytes" where
  "int_error_display EmptyInt = ''cannot parse integer from empty string''"
| "int_error_display InvalidDigit = ''invalid digit found in string''"
| "int_error_display PosOverflow = ''number too large to fit in target type''"
| "int_error_display NegOverflow = ''number too small to fit in target type''"

text \<open>The checked digit loops: the digit is examined before the overflow of the multiplication counts.\<close>
fun parse_pos :: "int \<Rightarrow> int \<Rightarrow> bytes \<Rightarrow> int_error + int" where
  "parse_pos hi acc [] = Inr acc"
| "parse_pos hi acc (c # cs) =
     (case to_digit c of
        None \<Rightarrow> Inl InvalidDigit
      | Some d \<Rightarrow> if hi < acc * 10 then Inl PosOverflow
                  else if hi < acc * 10 + int d then Inl PosOverflow
                  else parse_pos hi (acc * 10 + int d) cs)"

fun parse_neg :: "int \<Rightarrow> int \<Rightarrow> bytes \<Rightarrow> int_error + int" where
  "parse_neg lo acc [] = Inr acc"
| "parse_neg lo acc (c # cs) =
     (case to_digit c of
        None \<Rightarrow> Inl InvalidDigit
      | Some d \<Rightarrow> if acc * 10 < lo then Inl NegOverflow
                  else if acc * 10 - int d < lo then Inl NegOverflow
                  else parse_neg lo (acc * 10 - int d) cs)"

definition parse_int :: "int \<Rightarrow> int \<Rightarrow> bytes \<Rightarrow> int_error + int" where
  "parse_int lo hi s =
     (case s of
        [] \<Rightarrow> Inl EmptyInt
      | c # rest \<Rightarrow>
          if (c = CHR ''+'' \<or> c = CHR ''-'') \<and> rest = [] then Inl InvalidDigit
          else if c = CHR ''+'' then parse_pos hi 0 rest
          else if c = CHR ''-'' \<and> lo < 0 then parse_neg lo 0 rest
          else parse_pos hi 0 s)"

definition i64_min :: int where "i64_min = - (2 ^ 63)"
definition i64_max :: int where "i64_max = 2 ^ 63 - 1"

definition parse_i64 :: "bytes \<Rightarrow> int_error + int" where
  "parse_i64 s = parse_int i64_min i64_max s"

definition parse_u64 :: "bytes \<Rightarrow> int_error + int" where
  "parse_u64 s = parse_int 0 (2 ^ 64 - 1) s"

section \<open>UTF-8\<close>

record utf8_error =
  valid_up_to :: nat
  error_len :: "nat option"

definition utf8_error_display :: "utf8_error \<Rightarrow> bytes" where
  "utf8_error_display e =
     (case error_len e of
        Some n \<Rightarrow> ''invalid utf-8 sequence of '' @ dec_nat n @ '' bytes from index '' @ dec_nat (valid_up_to e)
      | None \<Rightarrow> ''incomplete utf-8 byte sequence from index '' @ dec_nat (valid_up_to e))"

definition utf8_width :: "nat \<Rightarrow> nat" where
  "utf8_width b =
     (if b < 128 then 1
      else if 194 \<le> b \<and> b \<le> 223 then 2
      else if 224 \<le> b \<and> b \<le> 239 then 3
      else if 240 \<le> b \<and> b \<le> 244 then 4
      else 0)"

definition utf8_cont :: "char \<Rightarrow> bool" where
  "utf8_cont c = (let b = (of_char c :: nat) in 128 \<le> b \<and> b \<le> 191)"

text \<open>Which second bytes a three- or four-byte sequence may have: no overlong forms, no surrogates.\<close>
definition utf8_second :: "nat \<Rightarrow> char \<Rightarrow> bool" where
  "utf8_second f c =
     (let b = (of_char c :: nat) in
      if f = 224 then 160 \<le> b \<and> b \<le> 191
      else if f = 237 then 128 \<le> b \<and> b \<le> 159
      else if f = 240 then 144 \<le> b \<and> b \<le> 191
      else if f = 244 then 128 \<le> b \<and> b \<le> 143
      else 128 \<le> b \<and> b \<le> 191)"

text \<open>The bytes after a non-ASCII lead byte: their number, or the error's \<^verbatim>\<open>error_len\<close>.\<close>
definition utf8_tail :: "nat \<Rightarrow> bytes \<Rightarrow> nat option + nat" where
  "utf8_tail f cs =
     (if utf8_width f = 2 then
        (case cs of [] \<Rightarrow> Inl None | c1 # _ \<Rightarrow> if utf8_cont c1 then Inr 1 else Inl (Some 1))
      else if utf8_width f = 3 then
        (case cs of [] \<Rightarrow> Inl None
         | [c1] \<Rightarrow> if utf8_second f c1 then Inl None else Inl (Some 1)
         | c1 # c2 # _ \<Rightarrow>
             if \<not> utf8_second f c1 then Inl (Some 1) else if utf8_cont c2 then Inr 2 else Inl (Some 2))
      else if utf8_width f = 4 then
        (case cs of [] \<Rightarrow> Inl None
         | [c1] \<Rightarrow> if utf8_second f c1 then Inl None else Inl (Some 1)
         | [c1, c2] \<Rightarrow>
             if \<not> utf8_second f c1 then Inl (Some 1) else if utf8_cont c2 then Inl None else Inl (Some 2)
         | c1 # c2 # c3 # _ \<Rightarrow>
             if \<not> utf8_second f c1 then Inl (Some 1) else if \<not> utf8_cont c2 then Inl (Some 2)
             else if utf8_cont c3 then Inr 3 else Inl (Some 3))
      else Inl (Some 1))"

function utf8_check :: "nat \<Rightarrow> bytes \<Rightarrow> utf8_error option" where
  "utf8_check i [] = None"
| "utf8_check i (c # cs) =
     (if (of_char c :: nat) < 128 then utf8_check (i + 1) cs
      else case utf8_tail (of_char c) cs of
             Inl len \<Rightarrow> Some \<lparr>valid_up_to = i, error_len = len\<rparr>
           | Inr k \<Rightarrow> utf8_check (i + 1 + k) (drop k cs))"
  by pat_completeness auto
termination
  by (relation "measure (\<lambda>(i, cs). length cs)") auto

definition from_utf8 :: "bytes \<Rightarrow> utf8_error + bytes" where
  "from_utf8 s = (case utf8_check 0 s of None \<Rightarrow> Inr s | Some e \<Rightarrow> Inl e)"

definition utf8_valid :: "bytes \<Rightarrow> bool" where
  "utf8_valid s = (utf8_check 0 s = None)"

section \<open>Upper case\<close>

definition lead_bits :: "nat \<Rightarrow> nat" where
  "lead_bits b = (if b < 128 then b else if b < 224 then b mod 32 else if b < 240 then b mod 16 else b mod 8)"

function code_points :: "nat list \<Rightarrow> nat list" where
  "code_points [] = []"
| "code_points (b # bs) =
     foldl (\<lambda>a t. a * 64 + t mod 64) (lead_bits b) (take (utf8_width b - 1) bs)
     # code_points (drop (utf8_width b - 1) bs)"
  by pat_completeness auto
termination
  by (relation "measure length") auto

text \<open>
  The upper-case mapping of a code point when it consists of ASCII characters only; \<open>None\<close> when it
  contains any other character. Outside ASCII exactly ten code points map into ASCII.
\<close>
definition ascii_upper :: "nat \<Rightarrow> bytes option" where
  "ascii_upper c =
     (if 97 \<le> c \<and> c \<le> 122 then Some [char_of (c - 32)]
      else if c < 128 then Some [char_of c]
      else if c = 223 then Some ''SS''
      else if c = 305 then Some ''I''
      else if c = 383 then Some ''S''
      else if c = 64256 then Some ''FF''
      else if c = 64257 then Some ''FI''
      else if c = 64258 then Some ''FL''
      else if c = 64259 then Some ''FFI''
      else if c = 64260 then Some ''FFL''
      else if c = 64261 \<or> c = 64262 then Some ''ST''
      else None)"

text \<open>\<^verbatim>\<open>s.to_uppercase()\<close> where the result is ASCII text; \<open>None\<close> where it equals no ASCII keyword.\<close>
definition to_uppercase_ascii :: "bytes \<Rightarrow> bytes option" where
  "to_uppercase_ascii s = map_option concat (those (map ascii_upper (code_points (map of_char s))))"

section \<open>Round trips and ASCII text\<close>

lemma to_digit_digit_char [simp]: "d < 10 \<Longrightarrow> to_digit (digit_char d) = Some d"
  by (simp add: to_digit_def digit_char_def Let_def)

lemma dec_nat_Nil [simp]: "dec_nat n \<noteq> []"
  by (subst dec_nat.simps) simp

lemma digit_char_ascii: "d < 10 \<Longrightarrow> (of_char (digit_char d) :: nat) \<in> {48..57}"
  by (simp add: digit_char_def)

lemma dec_nat_ascii: "\<forall>c\<in>set (dec_nat n). (of_char c :: nat) \<in> {48..57}"
proof (induction n rule: dec_nat.induct)
  case (1 n)
  then show ?case
    using digit_char_ascii [of n] digit_char_ascii [of "n mod 10"]
    by (subst dec_nat.simps) auto
qed

lemma parse_pos_dec_nat:
  "int n \<le> hi \<Longrightarrow> parse_pos hi 0 (dec_nat n @ rest) = parse_pos hi (int n) rest"
proof (induction n arbitrary: rest rule: dec_nat.induct)
  case (1 n)
  show ?case
  proof (cases "n < 10")
    case True
    with 1 show ?thesis by (subst dec_nat.simps) (simp add: parse_pos.simps(2))
  next
    case False
    have split: "int (n div 10) * 10 + int (n mod 10) = int n" by (simp only: of_nat_div of_nat_mod) simp
    have "int (n div 10) * 10 \<le> hi" using 1(2) split by linarith
    then have "parse_pos hi 0 (dec_nat (n div 10) @ digit_char (n mod 10) # rest)
               = parse_pos hi (int (n div 10)) (digit_char (n mod 10) # rest)"
      using 1(1) [OF False] by simp
    also have "\<dots> = parse_pos hi (int n) rest"
      using \<open>int (n div 10) * 10 \<le> hi\<close> 1(2) split by simp
    finally show ?thesis using False by (subst dec_nat.simps) simp
  qed
qed

lemma parse_neg_dec_nat:
  "lo \<le> - int n \<Longrightarrow> parse_neg lo 0 (dec_nat n @ rest) = parse_neg lo (- int n) rest"
proof (induction n arbitrary: rest rule: dec_nat.induct)
  case (1 n)
  show ?case
  proof (cases "n < 10")
    case True
    with 1 show ?thesis by (subst dec_nat.simps) simp
  next
    case False
    have split: "int (n div 10) * 10 + int (n mod 10) = int n" by (simp only: of_nat_div of_nat_mod) simp
    have le: "lo \<le> - (int (n div 10) * 10)" using 1(2) split by linarith
    then have "parse_neg lo 0 (dec_nat (n div 10) @ digit_char (n mod 10) # rest)
               = parse_neg lo (- int (n div 10)) (digit_char (n mod 10) # rest)"
      using 1(1) [OF False] by simp
    also have "\<dots> = parse_neg lo (- int n) rest"
    proof -
      have "- int (n div 10) * 10 - int (n mod 10) = - int n" using split by linarith
      then show ?thesis using le 1(2) by simp
    qed
    finally show ?thesis using False by (subst dec_nat.simps) simp
  qed
qed

lemma dec_nat_hd:
  assumes "dec_nat n = c # cs"
  shows "c \<noteq> CHR ''+'' \<and> c \<noteq> CHR ''-'' \<and> c \<noteq> CHR 0x0D"
  using dec_nat_ascii [of n] assms by (auto simp: Let_def)

lemma parse_int_dec_nat: "int n \<le> hi \<Longrightarrow> parse_int lo hi (dec_nat n) = Inr (int n)"
  using parse_pos_dec_nat [of n hi "[]"] dec_nat_hd [of n]
  by (cases "dec_nat n") (auto simp: parse_int_def)

lemma parse_i64_dec_int:
  assumes "i64_min \<le> n" "n \<le> i64_max"
  shows "parse_i64 (dec_int n) = Inr n"
proof (cases "n < 0")
  case True
  then have "parse_neg i64_min 0 (dec_nat (nat (- n))) = Inr n"
    using parse_neg_dec_nat [of i64_min "nat (- n)" "[]"] assms by simp
  with True show ?thesis by (simp add: parse_i64_def parse_int_def dec_int_def i64_min_def)
next
  case False
  then show ?thesis
    using parse_int_dec_nat [of "nat n" i64_max i64_min] assms by (simp add: parse_i64_def dec_int_def)
qed

lemma parse_u64_dec_nat: "n < 2 ^ 64 \<Longrightarrow> parse_u64 (dec_nat n) = Inr (int n)"
  using parse_int_dec_nat [of n "2 ^ 64 - 1" 0] by (simp add: parse_u64_def)

lemma parse_pos_range: "0 \<le> acc \<Longrightarrow> acc \<le> hi \<Longrightarrow> parse_pos hi acc s = Inr n \<Longrightarrow> acc \<le> n \<and> n \<le> hi"
  by (induction hi acc s rule: parse_pos.induct) (fastforce split: option.splits if_splits)+

lemma parse_neg_range: "acc \<le> 0 \<Longrightarrow> lo \<le> acc \<Longrightarrow> parse_neg lo acc s = Inr n \<Longrightarrow> lo \<le> n \<and> n \<le> acc"
  by (induction lo acc s rule: parse_neg.induct) (fastforce split: option.splits if_splits)+

lemma parse_int_range:
  assumes "parse_int lo hi s = Inr n" "lo \<le> 0" "0 \<le> hi"
  shows "lo \<le> n \<and> n \<le> hi"
proof -
  from assms(1) obtain t where "parse_pos hi 0 t = Inr n \<or> parse_neg lo 0 t = Inr n"
    by (auto simp: parse_int_def simp del: parse_pos.simps parse_neg.simps split: list.splits if_splits)
  then show ?thesis
    using parse_pos_range [of 0 hi t n] parse_neg_range [of 0 lo t n] assms(2,3) by auto
qed

lemma parse_i64_range: "parse_i64 s = Inr n \<Longrightarrow> i64_min \<le> n \<and> n \<le> i64_max"
  unfolding parse_i64_def by (rule parse_int_range) (simp_all add: i64_min_def i64_max_def)

lemma utf8_check_ascii: "\<forall>c\<in>set s. (of_char c :: nat) < 128 \<Longrightarrow> utf8_check i s = None"
  by (induction s arbitrary: i) auto

lemma utf8_valid_ascii: "\<forall>c\<in>set s. (of_char c :: nat) < 128 \<Longrightarrow> utf8_valid s"
  by (simp add: utf8_valid_def utf8_check_ascii)

lemma from_utf8_valid: "from_utf8 s = Inr t \<longleftrightarrow> utf8_valid s \<and> t = s"
  by (auto simp: from_utf8_def utf8_valid_def split: option.splits)

lemma utf8_valid_dec_int [simp]: "utf8_valid (dec_int n)"
proof (rule utf8_valid_ascii)
  show "\<forall>c\<in>set (dec_int n). (of_char c :: nat) < 128"
    using dec_nat_ascii [of "nat n"] dec_nat_ascii [of "nat (- n)"] by (auto simp: dec_int_def)
qed

lemma from_utf8_dec_int [simp]: "from_utf8 (dec_int n) = Inr (dec_int n)"
  by (simp add: from_utf8_valid)

lemma dec_int_no_cr: "CHR 0x0D \<notin> set (dec_int n)"
  using dec_nat_ascii [of "nat n"] dec_nat_ascii [of "nat (- n)"] by (auto simp: dec_int_def Let_def)

lemma dec_nat_as_int: "dec_nat n = dec_int (int n)"
  by (simp add: dec_int_def)

lemma code_points_ascii: "\<forall>b\<in>set bs. b < 128 \<Longrightarrow> code_points bs = bs"
  by (induction bs) (auto simp: utf8_width_def lead_bits_def)

definition upper_char :: "char \<Rightarrow> char" where
  "upper_char c = (let b = (of_char c :: nat) in if 97 \<le> b \<and> b \<le> 122 then char_of (b - 32) else c)"

lemma those_map_Some: "\<forall>x\<in>set xs. f x = Some (g x) \<Longrightarrow> those (map f xs) = Some (map g xs)"
  by (induction xs) auto

lemma to_uppercase_ascii_text:
  assumes "\<forall>c\<in>set s. (of_char c :: nat) < 128"
  shows "to_uppercase_ascii s = Some (map upper_char s)"
proof -
  have "those (map ascii_upper (map of_char s)) = those (map (\<lambda>c. ascii_upper (of_char c)) s)"
    by (simp add: comp_def)
  also have "\<dots> = Some (map (\<lambda>c. [upper_char c]) s)"
    using assms by (intro those_map_Some) (auto simp: ascii_upper_def upper_char_def Let_def)
  finally show ?thesis
    using assms by (simp add: to_uppercase_ascii_def code_points_ascii)
qed

section \<open>Splitting and trimming\<close>

text \<open>\<^verbatim>\<open>s.split(c)\<close> for an ASCII character.\<close>
fun split_on :: "char \<Rightarrow> bytes \<Rightarrow> bytes list" where
  "split_on c [] = [[]]"
| "split_on c (x # xs) =
     (if x = c then [] # split_on c xs
      else (case split_on c xs of [] \<Rightarrow> [[x]] | y # ys \<Rightarrow> (x # y) # ys))"

text \<open>The UTF-8 encodings of the characters with the Unicode property \<^verbatim>\<open>White_Space\<close>.\<close>
definition white_space :: "bytes list" where
  "white_space =
     map (\<lambda>c. [char_of (c :: nat)]) [9, 10, 11, 12, 13, 32]
     @ [[CHR 0xC2, CHR 0x85], [CHR 0xC2, CHR 0xA0], [CHR 0xE1, CHR 0x9A, CHR 0x80]]
     @ map (\<lambda>c. [CHR 0xE2, CHR 0x80, char_of (c :: nat)]) ([128..<139] @ [168, 169, 175])
     @ [[CHR 0xE2, CHR 0x81, CHR 0x9F], [CHR 0xE3, CHR 0x80, CHR 0x80]]"

lemma white_space_nonempty: "w \<in> set white_space \<Longrightarrow> 0 < length w"
  by (auto simp: white_space_def)

lemma white_space_shorter: "w \<in> set white_space \<Longrightarrow> length w \<le> length s \<Longrightarrow> length s - length w < length s"
  using white_space_nonempty [of w] by linarith

function trim_start :: "bytes \<Rightarrow> bytes" where
  "trim_start s =
     (case List.find (\<lambda>w. length w \<le> length s \<and> take (length w) s = w) white_space of
        Some w \<Rightarrow> trim_start (drop (length w) s)
      | None \<Rightarrow> s)"
  by pat_completeness auto
termination
  by (relation "measure length") (auto dest!: find_Some_in_set intro: white_space_shorter)

function trim_end :: "bytes \<Rightarrow> bytes" where
  "trim_end s =
     (case List.find (\<lambda>w. length w \<le> length s \<and> drop (length s - length w) s = w) white_space of
        Some w \<Rightarrow> trim_end (take (length s - length w) s)
      | None \<Rightarrow> s)"
  by pat_completeness auto
termination
  by (relation "measure length") (auto dest!: find_Some_in_set intro: white_space_shorter)

declare trim_start.simps [simp del] trim_end.simps [simp del]

definition trim :: "bytes \<Rightarrow> bytes" where
  "trim s = trim_end (trim_start s)"

text \<open>Visible ASCII is left alone.\<close>
definition graphic :: "char \<Rightarrow> bool" where
  "graphic c \<longleftrightarrow> 33 \<le> (of_char c :: nat) \<and> (of_char c :: nat) < 127"

lemma white_space_not_graphic: "w \<in> set white_space \<Longrightarrow> \<not> graphic (hd w) \<and> \<not> graphic (last w)"
  by (auto simp: white_space_def graphic_def)

lemma trim_graphic:
  assumes "list_all graphic s"
  shows "trim s = s"
proof -
  have "List.find (\<lambda>w. length w \<le> length s \<and> take (length w) s = w) white_space = None"
  proof (clarsimp simp: find_None_iff)
    fix w
    assume w: "w \<in> set white_space" "take (length w) s = w"
    then have "w \<noteq> []" using white_space_nonempty by auto
    then have "hd w \<in> set s" using w(2) by (metis hd_in_set in_set_takeD)
    then show False using assms white_space_not_graphic [OF w(1)] by (auto simp: list_all_iff)
  qed
  moreover have "List.find (\<lambda>w. length w \<le> length s \<and> drop (length s - length w) s = w) white_space = None"
  proof (clarsimp simp: find_None_iff)
    fix w
    assume w: "w \<in> set white_space" "drop (length s - length w) s = w"
    then have "w \<noteq> []" using white_space_nonempty by auto
    then have "last w \<in> set s" using w(2) by (metis in_set_dropD last_in_set)
    then show False using assms white_space_not_graphic [OF w(1)] by (auto simp: list_all_iff)
  qed
  ultimately show ?thesis by (simp add: trim_def trim_start.simps trim_end.simps)
qed

lemma trim_blank: "trim '' '' = []"
proof -
  have "List.find (\<lambda>w. length w \<le> length '' '' \<and> take (length w) '' '' = w) white_space = Some '' ''" by (simp add: white_space_def char_of_def bit_0)
  then have "trim_start '' '' = trim_start []" by (subst trim_start.simps) simp
  then show ?thesis using trim_graphic [of "[]"] by (simp add: trim_def)
qed

lemma split_on_nonempty [simp]: "split_on c s \<noteq> []"
  by (induction s) (auto split: list.split)

lemma split_on_append: "c \<notin> set s \<Longrightarrow> split_on c (s @ c # rest) = s # split_on c rest"
  by (induction s) auto

lemma split_on_single: "c \<notin> set s \<Longrightarrow> split_on c s = [s]"
  by (induction s) auto

end
