(* ===== verification/Std_Map.thy ===== *)
theory Std_Map
  imports Prelude "HOL-Library.AList"
begin

text \<open>
  The map containers of the program.

  \<^verbatim>\<open>HashMap\<close>, \<^verbatim>\<open>DashMap\<close> and \<^verbatim>\<open>RwLock<HashMap>\<close> are association lists with distinct keys; the list order
  stands for the unspecified iteration order, so no property of the development may depend on it.
  \<^verbatim>\<open>BTreeMap\<close> is an association list kept strictly sorted by key. Both implement one interface, the
  locale \<open>finite_map\<close>, and the facts that their clients share are proved there once.
\<close>

section \<open>HashMap and DashMap\<close>

type_synonym ('k, 'v) hmap = "('k \<times> 'v) list"

definition hm_invar :: "('k, 'v) hmap \<Rightarrow> bool" where
  "hm_invar m \<longleftrightarrow> distinct (map fst m)"

definition hm_get :: "('k, 'v) hmap \<Rightarrow> 'k \<Rightarrow> 'v option" where
  "hm_get m k = map_of m k"

definition hm_insert :: "'k \<Rightarrow> 'v \<Rightarrow> ('k, 'v) hmap \<Rightarrow> ('k, 'v) hmap" where
  "hm_insert k v m = AList.update k v m"

definition hm_remove :: "'k \<Rightarrow> ('k, 'v) hmap \<Rightarrow> ('k, 'v) hmap" where
  "hm_remove k m = filter (\<lambda>(k', _). k' \<noteq> k) m"

text \<open>\<^verbatim>\<open>retain\<close>: keep the entries that satisfy the predicate.\<close>
definition hm_retain :: "('k \<Rightarrow> 'v \<Rightarrow> bool) \<Rightarrow> ('k, 'v) hmap \<Rightarrow> ('k, 'v) hmap" where
  "hm_retain P m = filter (\<lambda>(k, v). P k v) m"

text \<open>\<^verbatim>\<open>if let Some(entry) = m.get_mut(k) { *entry = f(entry) }\<close>.\<close>
definition hm_modify :: "'k \<Rightarrow> ('v \<Rightarrow> 'v) \<Rightarrow> ('k, 'v) hmap \<Rightarrow> ('k, 'v) hmap" where
  "hm_modify k f m = (case hm_get m k of None \<Rightarrow> m | Some v \<Rightarrow> hm_insert k (f v) m)"

section \<open>BTreeMap\<close>

type_synonym ('k, 'v) btree = "('k \<times> 'v) list"

definition bt_invar :: "('k::linorder, 'v) btree \<Rightarrow> bool" where
  "bt_invar m \<longleftrightarrow> sorted_wrt (<) (map fst m)"

fun bt_insert :: "'k::linorder \<Rightarrow> 'v \<Rightarrow> ('k, 'v) btree \<Rightarrow> ('k, 'v) btree" where
  "bt_insert k v [] = [(k, v)]"
| "bt_insert k v (p # m) =
     (if fst p < k then p # bt_insert k v m
      else if fst p = k then (k, v) # m
      else (k, v) # p # m)"

text \<open>\<^verbatim>\<open>m.range(k..)\<close>: the entries from key \<open>k\<close> on, in key order.\<close>
definition bt_range :: "('k::linorder, 'v) btree \<Rightarrow> 'k \<Rightarrow> ('k, 'v) btree" where
  "bt_range m k = filter (\<lambda>(k', _). k \<le> k') m"

section \<open>The interface\<close>

locale finite_map =
  fixes get :: "('k \<times> 'v) list \<Rightarrow> 'k \<Rightarrow> 'v option"
    and insert :: "'k \<Rightarrow> 'v \<Rightarrow> ('k \<times> 'v) list \<Rightarrow> ('k \<times> 'v) list"
    and remove :: "'k \<Rightarrow> ('k \<times> 'v) list \<Rightarrow> ('k \<times> 'v) list"
    and retain :: "('k \<Rightarrow> 'v \<Rightarrow> bool) \<Rightarrow> ('k \<times> 'v) list \<Rightarrow> ('k \<times> 'v) list"
    and invar :: "('k \<times> 'v) list \<Rightarrow> bool"
  assumes get_entries: "invar m \<Longrightarrow> get m k = Some v \<longleftrightarrow> (k, v) \<in> set m"
    and get_insert: "invar m \<Longrightarrow> get (insert k v m) = (get m)(k \<mapsto> v)"
    and get_remove: "invar m \<Longrightarrow> get (remove k m) = (get m)(k := None)"
    and get_retain: "invar m \<Longrightarrow> get (retain P m) k = Option.bind (get m k) (\<lambda>v. if P k v then Some v else None)"
    and invar_empty: "invar []"
    and invar_insert: "invar m \<Longrightarrow> invar (insert k v m)"
    and invar_remove: "invar m \<Longrightarrow> invar (remove k m)"
    and invar_retain: "invar m \<Longrightarrow> invar (retain P m)"
    and distinct_entries: "invar m \<Longrightarrow> distinct (map fst m)"
begin

lemma get_empty: "get [] k = None"
  using get_entries [OF invar_empty, of k] by (cases "get [] k") auto

lemma dom_get: "invar m \<Longrightarrow> dom (get m) = fst ` set m"
  by (force simp: get_entries)

lemma length_card: "invar m \<Longrightarrow> length m = card (dom (get m))"
  using distinct_card [OF distinct_entries] by (simp add: dom_get)

lemma entries_insert:
  assumes "invar m"
  shows "set (insert k v m) = {p \<in> set m. fst p \<noteq> k} \<union> {(k, v)}"
proof (rule set_eqI)
  fix p
  have "p \<in> set (insert k v m) \<longleftrightarrow> get (insert k v m) (fst p) = Some (snd p)"
    using get_entries [OF invar_insert [OF assms, of k v], of "fst p" "snd p"] by simp
  also have "\<dots> \<longleftrightarrow> p \<in> {p \<in> set m. fst p \<noteq> k} \<union> {(k, v)}"
    using get_entries [OF assms, of "fst p" "snd p"] by (cases p) (auto simp: get_insert [OF assms])
  finally show "p \<in> set (insert k v m) \<longleftrightarrow> p \<in> {p \<in> set m. fst p \<noteq> k} \<union> {(k, v)}" .
qed

lemma remove_idem: "invar m \<Longrightarrow> get (remove k (remove k m)) = get (remove k m)"
  by (simp add: get_remove invar_remove)

lemma remove_insert: "invar m \<Longrightarrow> get m k = None \<Longrightarrow> get (remove k (insert k v m)) = get m"
  by (simp add: get_remove get_insert invar_insert fun_upd_idem)

end

section \<open>The two implementations\<close>

lemma hm_invar_Nil [simp, wf_intros]: "hm_invar []"
  by (simp add: hm_invar_def)

lemma map_of_filter_distinct:
  "distinct (map fst m) \<Longrightarrow>
   map_of (filter (\<lambda>(k, v). P k v) m) k = Option.bind (map_of m k) (\<lambda>v. if P k v then Some v else None)"
proof (induction m)
  case Nil
  then show ?case by simp
next
  case (Cons p m)
  then have "fst p \<notin> dom (map_of m)" by (simp add: dom_map_of_conv_image_fst)
  then show ?case using Cons by (cases p) (auto simp: domIff)
qed

lemma distinct_map_fst_filter: "distinct (map fst m) \<Longrightarrow> distinct (map fst (filter P m))"
  by (induction m) auto

interpretation hm: finite_map hm_get hm_insert hm_remove hm_retain hm_invar
proof
  show "hm_get (hm_insert k v m) = (hm_get m)(k \<mapsto> v)" if "hm_invar m"
    for m :: "('k \<times> 'v) list" and k v
    by (simp add: hm_get_def hm_insert_def update_conv' fun_eq_iff)
  show "hm_get (hm_remove k m) = (hm_get m)(k := None)" if "hm_invar m" for m :: "('k \<times> 'v) list" and k
    using map_of_filter_distinct [of m "\<lambda>k' _. k' \<noteq> k"] that
    by (auto simp: hm_get_def hm_remove_def hm_invar_def fun_eq_iff split: Option.bind_split)
qed (auto simp: hm_invar_def hm_get_def hm_insert_def hm_remove_def hm_retain_def distinct_update
       map_of_filter_distinct distinct_map_fst_filter)

lemma bt_insert_keys: "fst ` set (bt_insert k v m) = insert k (fst ` set m)"
  by (induction m) auto

lemma bt_invar_insert [wf_intros]: "bt_invar m \<Longrightarrow> bt_invar (bt_insert k v m)"
proof (induction m)
  case (Cons p m)
  then have "\<forall>q\<in>set (bt_insert k v m). fst p < k \<longrightarrow> fst p < fst q"
    using bt_insert_keys [of k v m] by (force simp: bt_invar_def)
  with Cons show ?case by (auto simp: bt_invar_def)
qed (simp add: bt_invar_def)

lemma bt_get_insert: "bt_invar m \<Longrightarrow> map_of (bt_insert k v m) = (map_of m)(k \<mapsto> v)"
  by (induction m) (auto simp: bt_invar_def fun_eq_iff)

lemma bt_invar_distinct: "bt_invar m \<Longrightarrow> distinct (map fst m)"
  by (auto simp: bt_invar_def strict_sorted_iff)

lemma bt_invar_filter [wf_intros]: "bt_invar m \<Longrightarrow> bt_invar (filter P m)"
  by (induction m) (auto simp: bt_invar_def)

interpretation bt: finite_map map_of bt_insert hm_remove hm_retain bt_invar
proof
  show "map_of (hm_remove k m) = (map_of m)(k := None)" if "bt_invar m"
    for m :: "('k::linorder \<times> 'v) list" and k
    using map_of_filter_distinct [OF bt_invar_distinct [OF that], of "\<lambda>k' _. k' \<noteq> k"]
    by (auto simp: hm_remove_def fun_eq_iff split: Option.bind_split)
qed (auto simp: bt_get_insert bt_invar_insert bt_invar_filter hm_remove_def hm_retain_def
       map_of_filter_distinct bt_invar_distinct intro: bt_invar_distinct, auto simp: bt_invar_def)

lemmas hm_get_simps [simp] = hm.get_insert hm.get_remove hm.get_empty
lemmas hm_invar_intros [wf_intros, simp, intro] = hm.invar_insert hm.invar_remove hm.invar_retain

lemma hm_get_modify [simp]: "hm_invar m \<Longrightarrow> hm_get (hm_modify k f m) = (hm_get m)(k := map_option f (hm_get m k))"
  by (auto simp: hm_modify_def split: option.split)

lemma hm_invar_modify [wf_intros, simp, intro]: "hm_invar m \<Longrightarrow> hm_invar (hm_modify k f m)"
  by (auto simp: hm_modify_def split: option.split)

lemma bt_range_set: "set (bt_range m k) = {p \<in> set m. k \<le> fst p}"
  by (auto simp: bt_range_def)

end
