(* ===== verification/Common_Types.thy ===== *)
theory Common_Types
  imports Std_Text Std_Map
begin

text \<open>
  The types of \<^verbatim>\<open>crates/common/src/lib.rs\<close>, the messages of \<^verbatim>\<open>proto/cache.proto\<close> and \<^verbatim>\<open>proto/gossip.proto\<close>, and
  the third-party functions the program calls, collected in the record \<open>externs\<close>: the hash function of
  \<^verbatim>\<open>xxhash_rust\<close>, printing and parsing of \<^verbatim>\<open>uuid::Uuid\<close>, and \<^verbatim>\<open>tonic\<close>'s test whether an address makes a valid
  URI. A definition that uses one of them takes the record as an argument, and what is known of them is
  stated as a hypothesis where it is needed.
\<close>

record externs =
  xxh3_64 :: "bytes \<Rightarrow> u64"
  uuid_display :: "uuid \<Rightarrow> bytes"
  uuid_parse :: "bytes \<Rightarrow> uuid option"
  uri_ok :: "addr \<Rightarrow> bool"

section \<open>Nodes\<close>

datatype node_id = NodeId uuid

definition from_uuid :: "uuid \<Rightarrow> node_id" where
  "from_uuid u = NodeId u"

definition parse_node_id :: "externs \<Rightarrow> bytes \<Rightarrow> node_id option" where
  "parse_node_id ext s = map_option NodeId (uuid_parse ext s)"

fun display_node_id :: "externs \<Rightarrow> node_id \<Rightarrow> bytes" where
  "display_node_id ext (NodeId u) = uuid_display ext u"

record node_info =
  ni_id :: node_id
  ni_addr :: addr

text \<open>Documented behaviour of \<^verbatim>\<open>uuid\<close>: parsing what was printed gives the identifier back.\<close>
definition uuid_roundtrip :: "externs \<Rightarrow> bool" where
  "uuid_roundtrip ext \<longleftrightarrow> (\<forall>u. uuid_parse ext (uuid_display ext u) = Some u)"

lemma parse_display_node_id: "uuid_roundtrip ext \<Longrightarrow> parse_node_id ext (display_node_id ext n) = Some n"
  by (cases n) (simp add: uuid_roundtrip_def parse_node_id_def)

section \<open>RPC status and messages\<close>

datatype status_code = Unavailable | Internal | Unimplemented | Transport

datatype status = Status status_code bytes

record set_request =
  sr_key :: bytes
  sr_value :: bytes
  sr_ttl_ms :: "u64 option"

record set_response =
  sresp_success :: bool

record get_response =
  gr_value :: "bytes option"
  gr_found :: bool

record delete_response =
  dr_deleted :: bool

record heartbeat_response =
  hr_ok :: bool

record replicate_request =
  rr_key :: bytes
  rr_value :: bytes
  rr_ttl_ms :: "u64 option"
  rr_expires_at_ms :: "u64 option"

record replicate_response =
  rresp_success :: bool

record transfer_chunk =
  tc_key :: bytes
  tc_value :: bytes
  tc_expires_at_ms :: "u64 option"

datatype proto_status = ProtoAlive | ProtoSuspect | ProtoDead | ProtoJoining

text \<open>\<^verbatim>\<open>ProtoMemberStatus as i32\<close> and \<^verbatim>\<open>ProtoMemberStatus::try_from\<close>, from the enum's numbers.\<close>
fun proto_status_i32 :: "proto_status \<Rightarrow> int" where
  "proto_status_i32 ProtoAlive = 0"
| "proto_status_i32 ProtoSuspect = 1"
| "proto_status_i32 ProtoDead = 2"
| "proto_status_i32 ProtoJoining = 3"

definition proto_status_try_from :: "int \<Rightarrow> proto_status option" where
  "proto_status_try_from n =
     (if n = 0 then Some ProtoAlive else if n = 1 then Some ProtoSuspect
      else if n = 2 then Some ProtoDead else if n = 3 then Some ProtoJoining else None)"

lemma proto_status_roundtrip [simp]: "proto_status_try_from (proto_status_i32 s) = Some s"
  by (cases s) (simp_all add: proto_status_try_from_def)

record proto_member =
  pm_node_id :: bytes
  pm_addr :: addr
  pm_status :: int
  pm_incarnation :: u64
  pm_last_seen_ms :: u64

record gossip_message =
  gm_members :: "proto_member list"
  gm_sender_id :: bytes

section \<open>An instance of the third-party functions\<close>

text \<open>
  A concrete \<open>externs\<close> that satisfies the documented round trip: identifiers are printed in decimal, the hash
  is the length. It shows that the hypotheses can hold and lets concrete runs be evaluated.
\<close>
definition demo_ext :: externs where
  "demo_ext = \<lparr>xxh3_64 = (\<lambda>bs. word_of_nat (length bs)), uuid_display = (\<lambda>u. dec_nat (unat u)),
     uuid_parse = (\<lambda>s. case parse_int 0 (2 ^ 128 - 1) s of Inr n \<Rightarrow> Some (word_of_int n) | Inl _ \<Rightarrow> None),
     uri_ok = (\<lambda>u. u \<noteq> ''http://'')\<rparr>"

lemma demo_ext_roundtrip: "uuid_roundtrip demo_ext"
proof -
  have "int (unat u) \<le> 2 ^ 128 - 1" for u :: uuid
    using unsigned_less [of u, where ?'a = int] by simp
  then have "parse_int 0 (2 ^ 128 - 1) (dec_nat (unat u)) = Inr (int (unat u))" for u :: uuid
    by (rule parse_int_dec_nat)
  then show ?thesis by (simp add: uuid_roundtrip_def demo_ext_def)
qed

end
