(* ===== verification/Hash_Ring.thy ===== *)
theory Hash_Ring
  imports Common_Types
begin

text \<open>
  Consistent hashing, \<^verbatim>\<open>crates/common/src/hashring.rs\<close>. The ring is a \<^verbatim>\<open>BTreeMap\<close> from positions to node
  identifiers beside the list of physical nodes. The invariant \<open>ring_inv\<close> says that the map is sorted and
  that every position belongs to a listed node. Shown here: the clockwise lookup is total on a non-empty
  ring, adding or removing a node moves only that node's keys, the preference list is the clockwise walk
  cut to the first distinct nodes, and without hash collisions the placement is a function of the set of
  members, whatever the order in which they came and went.
\<close>

definition DEFAULT_VNODE_COUNT :: nat where "DEFAULT_VNODE_COUNT = 150"

record hash_ring =
  hr_ring :: "(u64, node_id) btree"
  hr_nodes :: "node_info list"
  hr_vnode_count :: nat

definition ring_new :: hash_ring where
  "ring_new = \<lparr>hr_ring = [], hr_nodes = [], hr_vnode_count = DEFAULT_VNODE_COUNT\<rparr>"

definition with_vnode_count :: "nat \<Rightarrow> hash_ring" where
  "with_vnode_count n = \<lparr>hr_ring = [], hr_nodes = [], hr_vnode_count = n\<rparr>"

definition hash_key :: "externs \<Rightarrow> bytes \<Rightarrow> u64" where
  "hash_key ext key = xxh3_64 ext key"

definition hash_vnode :: "externs \<Rightarrow> node_id \<Rightarrow> nat \<Rightarrow> u64" where
  "hash_vnode ext nid i = xxh3_64 ext (display_node_id ext nid @ ''-'' @ dec_nat i)"

definition add_node :: "externs \<Rightarrow> node_info \<Rightarrow> hash_ring \<Rightarrow> hash_ring" where
  "add_node ext info r =
     r\<lparr>hr_ring := fold (\<lambda>i ring. bt_insert (hash_vnode ext (ni_id info) i) (ni_id info) ring)
                       [0..<hr_vnode_count r] (hr_ring r),
       hr_nodes := hr_nodes r @ [info]\<rparr>"

definition remove_node :: "node_id \<Rightarrow> hash_ring \<Rightarrow> hash_ring" where
  "remove_node nid r =
     r\<lparr>hr_ring := hm_retain (\<lambda>_ i. i \<noteq> nid) (hr_ring r),
       hr_nodes := filter (\<lambda>n. ni_id n \<noteq> nid) (hr_nodes r)\<rparr>"

definition find_node :: "hash_ring \<Rightarrow> node_id \<Rightarrow> node_info option" where
  "find_node r nid = List.find (\<lambda>n. ni_id n = nid) (hr_nodes r)"

text \<open>The \<^verbatim>\<open>unwrap\<close> of the wrap-around branch is reached with a non-empty ring only.\<close>
definition get_node :: "externs \<Rightarrow> hash_ring \<Rightarrow> bytes \<Rightarrow> node_info option" where
  "get_node ext r key =
     (if hr_ring r = [] then None
      else case bt_range (hr_ring r) (hash_key ext key) of
             (_, nid) # _ \<Rightarrow> find_node r nid
           | [] \<Rightarrow> (case hr_ring r of (_, nid) # _ \<Rightarrow> find_node r nid | [] \<Rightarrow> None))"

text \<open>The loop of \<^verbatim>\<open>get_preference_list\<close>, with its set of seen identifiers and its result so far.\<close>
fun pref_walk :: "hash_ring \<Rightarrow> nat \<Rightarrow> (u64 \<times> node_id) list \<Rightarrow> node_id list \<Rightarrow> node_info list \<Rightarrow> node_info list" where
  "pref_walk r n [] seen res = res"
| "pref_walk r n ((_, nid) # it) seen res =
     (if nid \<in> set seen then pref_walk r n it seen res
      else let res' = (case find_node r nid of Some info \<Rightarrow> res @ [info] | None \<Rightarrow> res)
           in if n \<le> length res' then res' else pref_walk r n it (nid # seen) res')"

definition get_preference_list :: "externs \<Rightarrow> hash_ring \<Rightarrow> bytes \<Rightarrow> nat \<Rightarrow> node_info list" where
  "get_preference_list ext r key replica_count =
     (if hr_ring r = [] then []
      else pref_walk r replica_count (bt_range (hr_ring r) (hash_key ext key) @ hr_ring r) [] [])"

definition contains_node :: "hash_ring \<Rightarrow> node_id \<Rightarrow> bool" where
  "contains_node r nid = list_ex (\<lambda>n. ni_id n = nid) (hr_nodes r)"

section \<open>The invariant\<close>

definition ring_inv :: "hash_ring \<Rightarrow> bool" where
  "ring_inv r \<longleftrightarrow> bt_invar (hr_ring r) \<and> snd ` set (hr_ring r) \<subseteq> ni_id ` set (hr_nodes r)"

lemma ring_inv_new [wf_intros]: "ring_inv ring_new" "ring_inv (with_vnode_count n)"
  by (simp_all add: ring_inv_def ring_new_def with_vnode_count_def bt_invar_def)

lemma fold_bt_insert_invar: "bt_invar m \<Longrightarrow> bt_invar (fold (\<lambda>i. bt_insert (f i) v) is m)"
  by (induction "is" arbitrary: m) (auto intro: bt_invar_insert)

lemma fold_bt_insert_owners:
  "bt_invar m \<Longrightarrow> snd ` set (fold (\<lambda>i. bt_insert (f i) v) is m) \<subseteq> insert v (snd ` set m)"
proof (induction "is" arbitrary: m)
  case (Cons i "is")
  have "snd ` set (bt_insert (f i) v m) \<subseteq> insert v (snd ` set m)"
    using bt.entries_insert [OF Cons.prems, of "f i" v] by auto
  moreover have "snd ` set (fold (\<lambda>i. bt_insert (f i) v) is (bt_insert (f i) v m))
                 \<subseteq> insert v (snd ` set (bt_insert (f i) v m))"
    by (rule Cons.IH [OF bt_invar_insert [OF Cons.prems]])
  ultimately show ?case by (simp only: fold_simps) blast
qed auto

lemma ring_inv_add_node [wf_intros]: "ring_inv r \<Longrightarrow> ring_inv (add_node ext info r)"
  using fold_bt_insert_owners [of "hr_ring r" "hash_vnode ext (ni_id info)" "ni_id info" "[0..<hr_vnode_count r]"]
  by (auto simp: ring_inv_def add_node_def intro: fold_bt_insert_invar)

lemma ring_inv_remove_node [wf_intros]: "ring_inv r \<Longrightarrow> ring_inv (remove_node nid r)"
  by (fastforce simp: ring_inv_def remove_node_def hm_retain_def intro: bt_invar_filter)

lemma contains_node_conv: "contains_node r nid \<longleftrightarrow> nid \<in> ni_id ` set (hr_nodes r)"
  by (auto simp: contains_node_def list_ex_iff)

lemma find_node_None: "find_node r nid = None \<longleftrightarrow> \<not> contains_node r nid"
  by (auto simp: find_node_def find_None_iff contains_node_conv)

lemma find_node_Some: "find_node r nid = Some info \<Longrightarrow> info \<in> set (hr_nodes r) \<and> ni_id info = nid"
  by (auto simp: find_node_def find_Some_iff)

section \<open>Clockwise lookup\<close>

definition clockwise :: "(u64, node_id) btree \<Rightarrow> u64 \<Rightarrow> node_id list" where
  "clockwise ring h = map snd (bt_range ring h @ ring)"

text \<open>The identifier the lookup stops at, as a function of the position alone.\<close>
definition owner_at :: "(u64, node_id) btree \<Rightarrow> u64 \<Rightarrow> node_id option" where
  "owner_at ring h = (case clockwise ring h of [] \<Rightarrow> None | nid # _ \<Rightarrow> Some nid)"

lemma get_node_owner_at: "get_node ext r key = Option.bind (owner_at (hr_ring r) (hash_key ext key)) (find_node r)"
  by (auto simp: get_node_def owner_at_def clockwise_def bt_range_def split: list.split)

lemma set_clockwise: "set (clockwise ring h) = snd ` set ring"
  by (auto simp: clockwise_def bt_range_set image_iff)

lemma owner_at_in_ring: "owner_at ring h = Some nid \<Longrightarrow> nid \<in> snd ` set ring"
  using set_clockwise [of ring h] by (auto simp: owner_at_def split: list.splits)

lemma owner_at_None: "owner_at ring h = None \<longleftrightarrow> ring = []"
  by (auto simp: owner_at_def clockwise_def bt_range_def split: list.split)

lemma bt_range_insert:
  "bt_range (bt_insert k v m) h = (if h \<le> k then bt_insert k v (bt_range m h) else bt_range m h)"
  by (induction m) (auto simp: bt_range_def)

lemma bt_insert_hd: "(\<exists>t. bt_insert k v m = (k, v) # t) \<or> (\<exists>p m' t. m = p # m' \<and> bt_insert k v m = p # t)"
  by (cases m) auto

lemma owner_at_insert: "owner_at (bt_insert k v m) h = Some v \<or> owner_at (bt_insert k v m) h = owner_at m h"
proof (cases "h \<le> k")
  case True
  have "bt_insert k v (bt_range m h) \<noteq> []" by (cases "bt_range m h") auto
  with True bt_insert_hd [of k v "bt_range m h"] show ?thesis
    by (auto simp: owner_at_def clockwise_def bt_range_insert)
next
  case False
  with bt_insert_hd [of k v m] show ?thesis
    by (cases "bt_range m h") (auto simp: owner_at_def clockwise_def bt_range_insert)
qed

lemma owner_at_fold_insert:
  "owner_at (fold (\<lambda>i. bt_insert (f i) v) is m) h = Some v
   \<or> owner_at (fold (\<lambda>i. bt_insert (f i) v) is m) h = owner_at m h"
proof (induction "is" arbitrary: m)
  case (Cons i "is")
  show ?case using Cons.IH [of "bt_insert (f i) v m"] owner_at_insert [of "f i" v m h] by auto
qed simp

lemma clockwise_retain:
  "clockwise (hm_retain (\<lambda>_ i. i \<noteq> gone) m) h = filter (\<lambda>i. i \<noteq> gone) (clockwise m h)"
  by (simp add: clockwise_def bt_range_def hm_retain_def filter_map comp_def case_prod_unfold conj_commute)

lemma owner_at_retain:
  "owner_at m h = Some nid \<Longrightarrow> nid \<noteq> gone \<Longrightarrow> owner_at (hm_retain (\<lambda>_ i. i \<noteq> gone) m) h = Some nid"
  by (auto simp: owner_at_def clockwise_retain split: list.splits)

lemma find_node_add:
  "find_node (add_node ext info r) nid =
     (case find_node r nid of Some i \<Rightarrow> Some i | None \<Rightarrow> if ni_id info = nid then Some info else None)"
  by (simp add: find_node_def add_node_def find_append split: option.split)

lemma find_node_remove: "find_node (remove_node gone r) nid = (if nid = gone then None else find_node r nid)"
proof (cases "nid = gone")
  case False
  then show ?thesis
    by (auto simp: find_node_def remove_node_def intro!: find_filter_other)
qed (auto simp: find_node_def remove_node_def find_None_iff)

lemma ring_inv_find: "ring_inv r \<Longrightarrow> nid \<in> snd ` set (hr_ring r) \<Longrightarrow> \<exists>info. find_node r nid = Some info"
  using find_node_None [of r nid] by (auto simp: ring_inv_def contains_node_conv)

lemma get_node_None:
  assumes "ring_inv r"
  shows "get_node ext r key = None \<longleftrightarrow> hr_ring r = []"
proof (cases "owner_at (hr_ring r) (hash_key ext key)")
  case None
  then show ?thesis
    using owner_at_None [of "hr_ring r" "hash_key ext key"] by (simp add: get_node_owner_at)
next
  case (Some nid)
  then show ?thesis
    using ring_inv_find [OF assms owner_at_in_ring [OF Some]] owner_at_None [of "hr_ring r" "hash_key ext key"]
    by (auto simp: get_node_owner_at)
qed

lemma get_node_owner:
  assumes "ring_inv r" "get_node ext r key = Some info"
  shows "owner_at (hr_ring r) (hash_key ext key) = Some (ni_id info)" and "info \<in> set (hr_nodes r)"
  using assms find_node_Some [of r _ info] by (auto simp: get_node_owner_at bind_eq_Some_conv)

lemma add_node_nonempty:
  assumes "0 < hr_vnode_count r"
  shows "hr_ring (add_node ext info r) \<noteq> []"
proof -
  obtain v where "hr_vnode_count r = Suc v" using assms gr0_implies_Suc by blast
  moreover have "bt_insert k x m \<noteq> []" for k x and m :: "(u64, node_id) btree" by (cases m) simp_all
  ultimately show ?thesis by (simp add: add_node_def)
qed

lemma not_contains_remove: "\<not> contains_node (remove_node gone r) gone"
  by (auto simp: contains_node_conv remove_node_def)

section \<open>Preference lists\<close>

text \<open>The specification: the nodes of the first occurrences along the clockwise walk.\<close>
definition clockwise_nodes :: "externs \<Rightarrow> hash_ring \<Rightarrow> bytes \<Rightarrow> node_info list" where
  "clockwise_nodes ext r key =
     List.map_filter (find_node r) (first_occs [] (clockwise (hr_ring r) (hash_key ext key)))"

lemma pref_walk_take:
  assumes "\<forall>nid\<in>snd ` set it. find_node r nid \<noteq> None" and "length res < max 1 n"
  shows "pref_walk r n it seen res
         = take (max 1 n) (res @ List.map_filter (find_node r) (first_occs seen (map snd it)))"
  using assms
proof (induction it arbitrary: seen res)
  case Nil
  then show ?case by (simp add: map_filter_simps)
next
  case (Cons p it)
  obtain k nid where p: "p = (k, nid)" by (cases p)
  obtain info where info: "find_node r nid = Some info" using Cons.prems(1) p by auto
  show ?case
  proof (cases "nid \<in> set seen")
    case True
    then show ?thesis using Cons p by simp
  next
    case False
    show ?thesis
    proof (cases "n \<le> length (res @ [info])")
      case True
      then have "max 1 n = length (res @ [info])" using Cons.prems(2) by auto
      then show ?thesis using True False info p by (simp add: map_filter_simps)
    next
      case stop: False
      then show ?thesis using Cons.IH [of "res @ [info]" "nid # seen"] Cons.prems False info p
        by (simp add: map_filter_simps)
    qed
  qed
qed

lemma preference_list_take:
  assumes "ring_inv r"
  shows "get_preference_list ext r key n = take (max 1 n) (clockwise_nodes ext r key)"
proof (cases "hr_ring r = []")
  case True
  then show ?thesis
    by (simp add: get_preference_list_def clockwise_nodes_def clockwise_def bt_range_def map_filter_simps)
next
  case False
  let ?it = "bt_range (hr_ring r) (hash_key ext key) @ hr_ring r"
  have "\<forall>nid\<in>snd ` set ?it. find_node r nid \<noteq> None"
    using ring_inv_find [OF assms] by (auto simp: bt_range_set)
  from pref_walk_take [OF this, of "[]" n "[]"] show ?thesis
    using False by (simp add: get_preference_list_def clockwise_nodes_def clockwise_def)
qed

lemma map_filter_total:
  assumes "\<forall>x\<in>set xs. \<exists>y. f x = Some y \<and> g y = x"
  shows "map g (List.map_filter f xs) = xs"
  using assms by (induction xs) (auto simp: map_filter_simps)

lemma clockwise_nodes_ids:
  assumes "ring_inv r"
  shows "map ni_id (clockwise_nodes ext r key) = first_occs [] (clockwise (hr_ring r) (hash_key ext key))"
  unfolding clockwise_nodes_def
proof (rule map_filter_total)
  show "\<forall>nid\<in>set (first_occs [] (clockwise (hr_ring r) (hash_key ext key))).
          \<exists>info. find_node r nid = Some info \<and> ni_id info = nid"
    using ring_inv_find [OF assms] find_node_Some by (fastforce simp: set_first_occs set_clockwise)
qed

lemma clockwise_nodes_members: "set (clockwise_nodes ext r key) \<subseteq> set (hr_nodes r)"
  using find_node_Some by (fastforce simp: clockwise_nodes_def List.map_filter_def)

lemma clockwise_nodes_length:
  assumes "ring_inv r"
  shows "length (clockwise_nodes ext r key) = card (snd ` set (hr_ring r))"
proof -
  let ?ids = "first_occs [] (clockwise (hr_ring r) (hash_key ext key))"
  have "length (clockwise_nodes ext r key) = length ?ids"
    using clockwise_nodes_ids [OF assms, of ext key] by (metis length_map)
  also have "\<dots> = card (set ?ids)" by (simp add: distinct_card distinct_first_occs)
  finally show ?thesis by (simp add: set_first_occs set_clockwise)
qed

lemma get_node_clockwise:
  assumes "ring_inv r"
  shows "get_node ext r key = (case clockwise_nodes ext r key of [] \<Rightarrow> None | n # _ \<Rightarrow> Some n)"
proof (cases "clockwise (hr_ring r) (hash_key ext key)")
  case Nil
  then show ?thesis by (simp add: get_node_owner_at owner_at_def clockwise_nodes_def map_filter_simps)
next
  case (Cons nid t)
  then have "nid \<in> snd ` set (hr_ring r)" using set_clockwise [of "hr_ring r" "hash_key ext key"] by auto
  then obtain info where "find_node r nid = Some info" using ring_inv_find [OF assms] by blast
  with Cons show ?thesis by (simp add: get_node_owner_at owner_at_def clockwise_nodes_def map_filter_simps)
qed

text \<open>Removing nodes from the ring deletes them from every clockwise walk and keeps the order of the rest.\<close>
lemma first_occs_filter:
  assumes "set seen' \<subseteq> set seen" "\<forall>x \<in> set seen - set seen'. \<not> P x"
  shows "first_occs seen' (filter P xs) = filter P (first_occs seen xs)"
  using assms
proof (induction xs arbitrary: seen seen')
  case (Cons a xs)
  have both: "first_occs (a # seen') (filter P xs) = filter P (first_occs (a # seen) xs)"
    using Cons.prems by (intro Cons.IH) auto
  have left: "first_occs seen' (filter P xs) = filter P (first_occs (a # seen) xs)" if "\<not> P a"
    using Cons.prems that by (intro Cons.IH) auto
  show ?case using both left Cons.IH [OF Cons.prems] Cons.prems by auto
qed simp

lemma clockwise_nodes_remove:
  assumes "ring_inv r"
  shows "clockwise_nodes ext (remove_node gone r) key = filter (\<lambda>n. ni_id n \<noteq> gone) (clockwise_nodes ext r key)"
proof -
  let ?ids = "first_occs [] (clockwise (hr_ring r) (hash_key ext key))"
  have "first_occs [] (clockwise (hr_ring (remove_node gone r)) (hash_key ext key)) = filter (\<lambda>i. i \<noteq> gone) ?ids"
    using first_occs_filter [of "[]" "[]" "\<lambda>i. i \<noteq> gone"] by (simp add: remove_node_def clockwise_retain)
  moreover have "List.map_filter (find_node (remove_node gone r)) (filter (\<lambda>i. i \<noteq> gone) ids) = filter (\<lambda>n. ni_id n \<noteq> gone) (List.map_filter (find_node r) ids)" for ids
  proof (induction ids)
    case (Cons i ids)
    then show ?case using find_node_Some [of r i] by (auto simp: find_node_remove map_filter_simps split: option.split)
  qed (simp add: map_filter_simps)
  ultimately show ?thesis by (simp add: clockwise_nodes_def)
qed

lemma ring_inv_removes [wf_intros]: "ring_inv r \<Longrightarrow> ring_inv (fold remove_node gone r)"
  by (induction gone arbitrary: r) (auto intro: ring_inv_remove_node)

lemma clockwise_nodes_removes:
  "ring_inv r \<Longrightarrow> clockwise_nodes ext (fold remove_node gone r) key = filter (\<lambda>n. ni_id n \<notin> set gone) (clockwise_nodes ext r key)"
proof (induction gone arbitrary: r)
  case (Cons g gone)
  then show ?case using ring_inv_remove_node [OF Cons.prems, of g] by (simp add: clockwise_nodes_remove)
qed simp

section \<open>Placement as a function of the members\<close>

text \<open>The positions that the virtual nodes of a set of nodes take, and that no two of them coincide.\<close>
definition vnodes :: "externs \<Rightarrow> nat \<Rightarrow> node_id set \<Rightarrow> (u64 \<times> node_id) set" where
  "vnodes ext v ids = (\<lambda>(nid, i). (hash_vnode ext nid i, nid)) ` (ids \<times> {..<v})"

definition collision_free :: "externs \<Rightarrow> nat \<Rightarrow> node_id set \<Rightarrow> bool" where
  "collision_free ext v ids \<longleftrightarrow> inj_on (\<lambda>(nid, i). hash_vnode ext nid i) (ids \<times> {..<v})"

text \<open>A ring that holds exactly the virtual nodes of its members.\<close>
definition placed :: "externs \<Rightarrow> hash_ring \<Rightarrow> bool" where
  "placed ext r \<longleftrightarrow> bt_invar (hr_ring r) \<and> distinct (map ni_id (hr_nodes r))
     \<and> set (hr_ring r) = vnodes ext (hr_vnode_count r) (ni_id ` set (hr_nodes r))"

lemma placed_new: "placed ext (with_vnode_count v)" "placed ext ring_new"
  by (simp_all add: placed_def with_vnode_count_def ring_new_def vnodes_def bt_invar_def)

lemma collision_free_subset: "collision_free ext v ids \<Longrightarrow> ids' \<subseteq> ids \<Longrightarrow> collision_free ext v ids'"
  unfolding collision_free_def by (erule inj_on_subset) auto

lemma fold_bt_insert_entries:
  assumes "bt_invar m" "distinct is" "inj_on f (set is)" "\<forall>i\<in>set is. f i \<notin> fst ` set m"
  shows "set (fold (\<lambda>i. bt_insert (f i) v) is m) = set m \<union> (\<lambda>i. (f i, v)) ` set is"
  using assms
proof (induction "is" arbitrary: m)
  case (Cons i "is")
  have "p \<in> set m \<Longrightarrow> fst p \<noteq> f i" for p using Cons.prems(4) by (metis imageI list.set_intros(1))
  then have "set (bt_insert (f i) v m) = insert (f i, v) (set m)"
    using bt.entries_insert [OF Cons.prems(1), of "f i" v] by auto
  moreover have "set (fold (\<lambda>i. bt_insert (f i) v) is (bt_insert (f i) v m)) = set (bt_insert (f i) v m) \<union> (\<lambda>i. (f i, v)) ` set is"
    using Cons.prems by (intro Cons.IH) (auto simp: bt_invar_insert bt_insert_keys image_iff)
  ultimately show ?case by auto
qed simp

lemma placed_add:
  assumes "placed ext r" "ni_id info \<notin> ni_id ` set (hr_nodes r)"
    and "collision_free ext (hr_vnode_count r) (insert (ni_id info) (ni_id ` set (hr_nodes r)))"
  shows "placed ext (add_node ext info r)"
proof -
  let ?h = "hash_vnode ext (ni_id info)" and ?v = "hr_vnode_count r"
  have apart: "nid' = ni_id info \<and> j = i"
    if "i < ?v" "j < ?v" "nid' \<in> insert (ni_id info) (ni_id ` set (hr_nodes r))" "hash_vnode ext nid' j = ?h i" for nid' i j
    using inj_onD [OF assms(3) [unfolded collision_free_def], of "(nid', j)" "(ni_id info, i)"] that
    by (simp only: prod.case prod.inject mem_Sigma_iff lessThan_iff insert_iff simp_thms)
  have inj: "inj_on ?h {..<?v}" by (intro inj_onI) (metis apart insertI1 lessThan_iff)
  have fresh: "?h i \<notin> fst ` set (hr_ring r)" if "i < ?v" for i
  proof
    assume "?h i \<in> fst ` set (hr_ring r)"
    then obtain node j where "node \<in> set (hr_nodes r)" "j < ?v" "?h i = hash_vnode ext (ni_id node) j"
      using assms(1) by (auto simp: placed_def vnodes_def)
    then show False using that assms(2) by (metis apart image_eqI insertI2)
  qed
  have "set (fold (\<lambda>i. bt_insert (?h i) (ni_id info)) [0..<?v] (hr_ring r)) = set (hr_ring r) \<union> (\<lambda>i. (?h i, ni_id info)) ` {..<?v}"
    using fold_bt_insert_entries [of "hr_ring r" "[0..<?v]" ?h "ni_id info"] assms(1) inj fresh by (auto simp: placed_def atLeast0LessThan)
  then show ?thesis
    using assms(1,2) fold_bt_insert_invar by (auto simp: placed_def add_node_def vnodes_def)
qed

lemma placed_remove: "placed ext r \<Longrightarrow> placed ext (remove_node gone r)"
  by (auto simp: placed_def remove_node_def vnodes_def hm_retain_def bt_invar_filter distinct_map_filter)

lemma placed_ring_inv: "placed ext r \<Longrightarrow> ring_inv r"
  by (auto simp: placed_def ring_inv_def vnodes_def)

lemma placed_unique:
  assumes "placed ext r1" "placed ext r2" "set (hr_nodes r1) = set (hr_nodes r2)" "hr_vnode_count r1 = hr_vnode_count r2"
  shows "hr_ring r1 = hr_ring r2" "find_node r1 = find_node r2"
proof -
  have "inj_on fst (set (hr_ring r1) \<union> set (hr_ring r2))"
    using assms bt_invar_distinct [of "hr_ring r1"] by (auto simp: placed_def distinct_map)
  then show "hr_ring r1 = hr_ring r2"
    using assms by (intro map_sorted_distinct_set_unique [of fst]) (auto simp: placed_def bt_invar_def strict_sorted_iff)
  show "find_node r1 = find_node r2"
  proof
    fix nid
    have "find_node r nid = Some info \<longleftrightarrow> info \<in> set (hr_nodes r) \<and> ni_id info = nid" if "placed ext r" for r info
      using that find_node_Some [of r nid] find_node_None [of r nid] 
      by (cases "find_node r nid") (auto simp: contains_node_conv placed_def distinct_map inj_on_def)
    then show "find_node r1 nid = find_node r2 nid"
      using assms(1-3) by (metis option.exhaust)
  qed
qed

lemma placed_adds:
  assumes "placed ext r" "distinct (map ni_id (hr_nodes r @ members))" "collision_free ext (hr_vnode_count r) (ni_id ` set (hr_nodes r @ members))"
  shows "placed ext (fold (add_node ext) members r)"
  using assms
proof (induction members arbitrary: r)
  case (Cons n members)
  have "placed ext (add_node ext n r)"
    using Cons.prems by (intro placed_add) (auto elim: collision_free_subset)
  moreover have "hr_nodes (add_node ext n r) = hr_nodes r @ [n]" "hr_vnode_count (add_node ext n r) = hr_vnode_count r"
    by (simp_all add: add_node_def)
  ultimately show ?case using Cons.IH [of "add_node ext n r"] Cons.prems by simp
qed simp

lemma placed_preference_length:
  assumes "placed ext r" "0 < hr_vnode_count r"
  shows "length (get_preference_list ext r key n) = min (max 1 n) (length (hr_nodes r))"
proof -
  have "snd ` set (hr_ring r) = ni_id ` set (hr_nodes r)"
    using assms by (auto simp: placed_def vnodes_def image_image case_prod_beta)
  moreover have "card (ni_id ` set (hr_nodes r)) = length (hr_nodes r)"
    using assms(1) distinct_card [of "map ni_id (hr_nodes r)"] by (simp add: placed_def)
  ultimately show ?thesis
    using placed_ring_inv [OF assms(1)] by (simp add: preference_list_take clockwise_nodes_length min.commute)
qed

lemma lookup_cong:
  assumes "hr_ring r1 = hr_ring r2" "find_node r1 = find_node r2"
  shows "get_node ext r1 key = get_node ext r2 key" "get_preference_list ext r1 key n = get_preference_list ext r2 key n"
proof -
  have "pref_walk r1 n it seen res = pref_walk r2 n it seen res" for it seen res
    by (induction it arbitrary: seen res) (auto simp: assms(2) Let_def)
  then show "get_preference_list ext r1 key n = get_preference_list ext r2 key n" by (simp add: get_preference_list_def assms(1))
qed (simp add: get_node_owner_at assms)

section \<open>The interface the router and the rebalancer rely on\<close>

locale placement =
  fixes prefs :: "'r \<Rightarrow> bytes \<Rightarrow> nat \<Rightarrow> node_info list"
    and owner :: "'r \<Rightarrow> bytes \<Rightarrow> node_info option"
    and members :: "'r \<Rightarrow> node_info list"
    and wf :: "'r \<Rightarrow> bool"
  assumes prefs_members: "wf r \<Longrightarrow> set (prefs r key n) \<subseteq> set (members r)"
    and prefs_distinct: "wf r \<Longrightarrow> distinct (map ni_id (prefs r key n))"
    and prefs_length: "wf r \<Longrightarrow> length (prefs r key n) \<le> max 1 n"
    and prefs_take: "wf r \<Longrightarrow> 1 \<le> m \<Longrightarrow> m \<le> n \<Longrightarrow> prefs r key m = take m (prefs r key n)"
    and prefs_hd: "wf r \<Longrightarrow> owner r key = (case prefs r key n of [] \<Rightarrow> None | p # _ \<Rightarrow> Some p)"
begin

lemma owner_in_prefs: "wf r \<Longrightarrow> owner r key = Some p \<Longrightarrow> p \<in> set (prefs r key n)"
  using prefs_hd [of r key n] by (auto split: list.splits)

lemma owner_member: "wf r \<Longrightarrow> owner r key = Some p \<Longrightarrow> p \<in> set (members r)"
  using owner_in_prefs prefs_members by blast

text \<open>Skipping unhealthy candidates keeps the replicas distinct members.\<close>
lemma healthy_prefs:
  assumes "wf r"
  shows "distinct (map ni_id (take k (filter alive (prefs r key n))))"
    and "set (take k (filter alive (prefs r key n))) \<subseteq> set (members r)"
  using prefs_distinct [OF assms, of key n] prefs_members [OF assms, of key n]
  by (auto simp: take_map [symmetric] intro!: distinct_take distinct_map_filter dest!: in_set_takeD)

lemma healthy_prefs_nonempty:
  assumes "wf r" "p \<in> set (prefs r key n)" "alive p" "0 < k"
  shows "take k (filter alive (prefs r key n)) \<noteq> []"
  using assms by (auto simp: filter_empty_conv)

end

interpretation ring: placement "get_preference_list ext" "get_node ext" hr_nodes ring_inv for ext
proof
  fix r key and n m :: nat
  assume inv: "ring_inv r"
  note prefs = preference_list_take [OF inv, of ext key]
  show "set (get_preference_list ext r key n) \<subseteq> set (hr_nodes r)"
    using clockwise_nodes_members [of ext r key] by (auto simp: prefs dest: in_set_takeD)
  show "distinct (map ni_id (get_preference_list ext r key n))"
    by (simp add: prefs take_map [symmetric] clockwise_nodes_ids [OF inv] distinct_first_occs)
  show "length (get_preference_list ext r key n) \<le> max 1 n" by (simp add: prefs)
  show "get_preference_list ext r key m = take m (get_preference_list ext r key n)" if "1 \<le> m" "m \<le> n"
    using that by (simp add: prefs max_def min_def)
  show "get_node ext r key = (case get_preference_list ext r key n of [] \<Rightarrow> None | p # _ \<Rightarrow> Some p)"
    by (cases "clockwise_nodes ext r key") (auto simp: prefs get_node_clockwise [OF inv] take_Cons' )
qed

section \<open>Properties\<close>

text \<open>C10: adding a node to the ring changes the owner of a key only to the new node: every key is afterwards served
  by the new node or by the node that served it before.\<close>
theorem adding_node_moves_only_to_it:
  assumes inv: "ring_inv r" and fresh: "\<not> contains_node r (ni_id info)"
  shows "get_node ext (add_node ext info r) key = Some info
         \<or> get_node ext (add_node ext info r) key = get_node ext r key"
proof -
  let ?h = "hash_key ext key"
  have "owner_at (hr_ring (add_node ext info r)) ?h = Some (ni_id info)
        \<or> owner_at (hr_ring (add_node ext info r)) ?h = owner_at (hr_ring r) ?h"
    by (simp add: add_node_def owner_at_fold_insert)
  moreover have "find_node (add_node ext info r) (ni_id info) = Some info"
    using fresh find_node_None [of r "ni_id info"] by (simp add: find_node_add)
  moreover have "find_node (add_node ext info r) nid = find_node r nid"
    if "owner_at (hr_ring r) ?h = Some nid" for nid
    using ring_inv_find [OF inv owner_at_in_ring [OF that]] by (auto simp: find_node_add)
  ultimately show ?thesis
    by (cases "owner_at (hr_ring r) ?h") (auto simp: get_node_owner_at)
qed

definition small_ring :: hash_ring where
  "small_ring = add_node demo_ext \<lparr>ni_id = NodeId 1, ni_addr = ''n1''\<rparr> (with_vnode_count 1)"

lemma small_ring_inv: "ring_inv small_ring"
  by (simp add: small_ring_def ring_inv_add_node ring_inv_new)

theorem adding_node_moves_only_to_it_witness:
  "get_node demo_ext (add_node demo_ext \<lparr>ni_id = NodeId 10, ni_addr = ''n10''\<rparr> small_ring) ''abcd''
     \<in> {Some \<lparr>ni_id = NodeId 10, ni_addr = ''n10''\<rparr>, get_node demo_ext small_ring ''abcd''}"
proof -
  have "\<not> contains_node small_ring (ni_id \<lparr>ni_id = NodeId 10, ni_addr = ''n10''\<rparr>)" by code_simp
  from adding_node_moves_only_to_it [OF small_ring_inv this, of demo_ext "''abcd''"] show ?thesis by blast
qed

text \<open>C28: removing a node changes the owner of its own keys only, and no key is served by it any more.\<close>
theorem removing_node_moves_only_its_keys:
  assumes inv: "ring_inv r" and owner: "get_node ext r key = Some info"
  shows "(ni_id info \<noteq> gone \<longrightarrow> get_node ext (remove_node gone r) key = Some info)
         \<and> (\<forall>other. get_node ext (remove_node gone r) key = Some other \<longrightarrow> ni_id other \<noteq> gone)"
proof -
  have o1: "owner_at (hr_ring r) (hash_key ext key) = Some (ni_id info)"
    using get_node_owner [OF inv owner] by simp
  have o2: "find_node r (ni_id info) = Some info"
    using owner o1 by (simp add: get_node_owner_at)
  have "hr_ring (remove_node gone r) = hm_retain (\<lambda>_ i. i \<noteq> gone) (hr_ring r)"
    by (simp add: remove_node_def)
  with o1 o2 have "ni_id info \<noteq> gone \<longrightarrow> get_node ext (remove_node gone r) key = Some info"
    by (simp add: get_node_owner_at find_node_remove owner_at_retain)
  moreover have "ni_id other \<noteq> gone" if "get_node ext (remove_node gone r) key = Some other" for other
    using get_node_owner(2) [OF ring_inv_remove_node [OF inv] that] by (auto simp: remove_node_def)
  ultimately show ?thesis by blast
qed

theorem removing_node_moves_only_its_keys_witness:
  "get_node demo_ext (remove_node (NodeId 10) small_ring) ''k'' = Some \<lparr>ni_id = NodeId 1, ni_addr = ''n1''\<rparr>"
proof -
  have "get_node demo_ext small_ring ''k'' = Some \<lparr>ni_id = NodeId 1, ni_addr = ''n1''\<rparr>" by code_simp
  from removing_node_moves_only_its_keys [OF small_ring_inv this, of "NodeId 10"] show ?thesis by simp
qed

text \<open>C29: the preference list of a key starts with the node that \<^verbatim>\<open>get_node\<close> returns, holds members of the ring, each at
  most once, and has as many as were asked for (at least one, even when zero were) or as there are.\<close>
theorem preference_list_complete:
  assumes "ring_inv r"
  shows "distinct (map ni_id (get_preference_list ext r key n))
    \<and> set (get_preference_list ext r key n) \<subseteq> set (hr_nodes r)
    \<and> length (get_preference_list ext r key n) = min (max 1 n) (card (snd ` set (hr_ring r)))
    \<and> get_node ext r key = (case get_preference_list ext r key n of [] \<Rightarrow> None | p # _ \<Rightarrow> Some p)"
proof -
  have "length (get_preference_list ext r key n) = min (max 1 n) (card (snd ` set (hr_ring r)))"
    using preference_list_take [OF assms, of ext key n] clockwise_nodes_length [OF assms, of ext key] by (simp add: min.commute)
  then show ?thesis
    using ring.prefs_distinct [OF assms] ring.prefs_members [OF assms] ring.prefs_hd [OF assms, of ext key n] by blast
qed

theorem preference_list_complete_witness: "length (get_preference_list demo_ext small_ring ''k'' 0) = 1"
proof -
  have "card (snd ` set (hr_ring small_ring)) = 1" by code_simp
  then show ?thesis using preference_list_complete [OF small_ring_inv, of demo_ext "''k''" 0] by simp
qed

end
