(* ===== verification/Cache_Store.thy ===== *)
theory Cache_Store
  imports Common_Types
begin

text \<open>
  The in-memory store with TTLs, \<^verbatim>\<open>crates/node/src/cache/store.rs\<close>, and the expiry sweeper,
  \<^verbatim>\<open>crates/node/src/cache/expiry.rs\<close>. Expiry is lazy: an entry whose deadline has passed may stay in the
  map until a read or a sweep removes it. The abstraction \<open>visible\<close> hides such leftovers; reads and sweeps
  do not change it, and a run of the store refines a plain map with deadlines.
\<close>

record cache_entry =
  ce_value :: bytes
  ce_expires_at :: "instant option"

record cache_store =
  cs_data :: "(bytes, cache_entry) hmap"
  cs_epoch :: instant

definition store_new :: "instant \<Rightarrow> cache_store" where
  "store_new now = \<lparr>cs_data = [], cs_epoch = now\<rparr>"

definition instant_to_epoch_ms :: "cache_store \<Rightarrow> instant \<Rightarrow> u64" where
  "instant_to_epoch_ms st inst = (if cs_epoch st \<le> inst then as_millis_u64 (inst - cs_epoch st) else 0)"

definition epoch_ms_to_instant :: "cache_store \<Rightarrow> u64 \<Rightarrow> instant run" where
  "epoch_ms_to_instant st ms = instant_add (cs_epoch st) (from_millis ms)"

text \<open>\<^verbatim>\<open>self.data.insert(key, CacheEntry { value, expires_at })\<close>.\<close>
definition put_entry :: "bytes \<Rightarrow> bytes \<Rightarrow> instant option \<Rightarrow> cache_store \<Rightarrow> cache_store" where
  "put_entry key value expires st =
     st\<lparr>cs_data := hm_insert key \<lparr>ce_value = value, ce_expires_at = expires\<rparr> (cs_data st)\<rparr>"

definition store_set :: "instant \<Rightarrow> bytes \<Rightarrow> bytes \<Rightarrow> duration option \<Rightarrow> cache_store \<Rightarrow> cache_store run" where
  "store_set now key value ttl st =
     (case ttl of
        None \<Rightarrow> Inr (put_entry key value None st)
      | Some d \<Rightarrow> and_then (instant_add now d) (\<lambda>e. Inr (put_entry key value (Some e) st)))"

definition store_get :: "instant \<Rightarrow> bytes \<Rightarrow> cache_store \<Rightarrow> bytes option \<times> cache_store" where
  "store_get now key st =
     (case hm_get (cs_data st) key of
        None \<Rightarrow> (None, st)
      | Some entry \<Rightarrow>
          (case ce_expires_at entry of
             Some e \<Rightarrow> if e \<le> now then (None, st\<lparr>cs_data := hm_remove key (cs_data st)\<rparr>)
                       else (Some (ce_value entry), st)
           | None \<Rightarrow> (Some (ce_value entry), st)))"

text \<open>
  The same method step by step: \<^verbatim>\<open>get\<close> drops its reference to the entry before it removes the key, so other
  tasks can run between the check and the removal.
\<close>
datatype peek = Missing | Live bytes | Stale

definition get_check :: "instant \<Rightarrow> bytes \<Rightarrow> cache_store \<Rightarrow> peek" where
  "get_check now key st =
     (case hm_get (cs_data st) key of
        None \<Rightarrow> Missing
      | Some entry \<Rightarrow>
          (case ce_expires_at entry of
             Some e \<Rightarrow> if e \<le> now then Stale else Live (ce_value entry)
           | None \<Rightarrow> Live (ce_value entry)))"

definition get_remove :: "bytes \<Rightarrow> cache_store \<Rightarrow> cache_store" where
  "get_remove key st = st\<lparr>cs_data := hm_remove key (cs_data st)\<rparr>"

definition store_delete :: "bytes \<Rightarrow> cache_store \<Rightarrow> bool \<times> cache_store" where
  "store_delete key st =
     (hm_get (cs_data st) key \<noteq> None, st\<lparr>cs_data := hm_remove key (cs_data st)\<rparr>)"

definition unexpired :: "instant \<Rightarrow> cache_entry \<Rightarrow> bool" where
  "unexpired now entry = (case ce_expires_at entry of Some e \<Rightarrow> now < e | None \<Rightarrow> True)"

definition store_len :: "instant \<Rightarrow> cache_store \<Rightarrow> nat" where
  "store_len now st = length (filter (\<lambda>(_, entry). unexpired now entry) (cs_data st))"

definition store_is_empty :: "instant \<Rightarrow> cache_store \<Rightarrow> bool" where
  "store_is_empty now st = (store_len now st = 0)"

definition store_ttl :: "instant \<Rightarrow> bytes \<Rightarrow> cache_store \<Rightarrow> duration option" where
  "store_ttl now key st =
     (case hm_get (cs_data st) key of
        None \<Rightarrow> None
      | Some entry \<Rightarrow>
          (case ce_expires_at entry of
             Some e \<Rightarrow> if now < e then Some (e - now) else Some 0
           | None \<Rightarrow> None))"

definition store_exists :: "instant \<Rightarrow> bytes \<Rightarrow> cache_store \<Rightarrow> bool \<times> cache_store" where
  "store_exists now key st = (case store_get now key st of (v, st') \<Rightarrow> (v \<noteq> None, st'))"

definition store_expire :: "instant \<Rightarrow> bytes \<Rightarrow> duration \<Rightarrow> cache_store \<Rightarrow> (bool \<times> cache_store) run" where
  "store_expire now key ttl st =
     (case hm_get (cs_data st) key of
        None \<Rightarrow> Inr (False, st)
      | Some entry \<Rightarrow>
          and_then (instant_add now ttl)
            (\<lambda>e. Inr (True, st\<lparr>cs_data := hm_modify key (\<lambda>en. en\<lparr>ce_expires_at := Some e\<rparr>) (cs_data st)\<rparr>)))"

definition entries_for_transfer :: "instant \<Rightarrow> cache_store \<Rightarrow> (bytes \<times> bytes \<times> u64 option) list" where
  "entries_for_transfer now st =
     map (\<lambda>(k, entry). (k, ce_value entry, map_option (\<lambda>e. as_millis_u64 (e - now)) (ce_expires_at entry)))
         (filter (\<lambda>(_, entry). unexpired now entry) (cs_data st))"

definition set_from_transfer :: "instant \<Rightarrow> bytes \<Rightarrow> bytes \<Rightarrow> u64 option \<Rightarrow> cache_store \<Rightarrow> cache_store run" where
  "set_from_transfer now key value remaining_ms st =
     (case remaining_ms of
        None \<Rightarrow> store_set now key value None st
      | Some ms \<Rightarrow> if ms = 0 then Inr st else store_set now key value (Some (from_millis ms)) st)"

text \<open>One tick of the sweeper's loop.\<close>
definition sweep :: "instant \<Rightarrow> cache_store \<Rightarrow> cache_store" where
  "sweep now st = st\<lparr>cs_data := hm_retain (\<lambda>_ entry. unexpired now entry) (cs_data st)\<rparr>"

section \<open>Invariant and visible content\<close>

definition store_inv :: "cache_store \<Rightarrow> bool" where
  "store_inv st \<longleftrightarrow> hm_invar (cs_data st)"

type_synonym content = "bytes \<rightharpoonup> bytes \<times> instant option"

definition not_after :: "instant \<Rightarrow> instant option \<Rightarrow> bool" where
  "not_after t e \<longleftrightarrow> (case e of None \<Rightarrow> True | Some e \<Rightarrow> t < e)"

text \<open>What a map with deadlines shows at time \<open>t\<close>.\<close>
definition shown :: "content \<Rightarrow> instant \<Rightarrow> content" where
  "shown c t k = (case c k of None \<Rightarrow> None | Some (v, e) \<Rightarrow> if not_after t e then Some (v, e) else None)"

definition content_of :: "cache_store \<Rightarrow> content" where
  "content_of st k = map_option (\<lambda>en. (ce_value en, ce_expires_at en)) (hm_get (cs_data st) k)"

definition visible :: "cache_store \<Rightarrow> instant \<Rightarrow> content" where
  "visible st t = shown (content_of st) t"

lemma unexpired_not_after: "unexpired t en = not_after t (ce_expires_at en)"
  by (simp add: unexpired_def not_after_def split: option.split)

lemma not_after_mono: "not_after t e \<Longrightarrow> t' \<le> t \<Longrightarrow> not_after t' e"
  by (auto simp: not_after_def split: option.splits)

lemma shown_None: "c k = None \<Longrightarrow> shown c t k = None"
  by (simp add: shown_def)

lemma shown_upd [view_simps]:
  "shown (c(k \<mapsto> (v, e))) t = (shown c t)(k := if not_after t e then Some (v, e) else None)"
  by (auto simp: shown_def fun_eq_iff)

lemma shown_del [view_simps]: "shown (c(k := None)) t = (shown c t)(k := None)"
  by (auto simp: shown_def fun_eq_iff)

lemma content_put [view_simps]: "store_inv st \<Longrightarrow> content_of (put_entry k v e st) = (content_of st)(k \<mapsto> (v, e))"
  by (auto simp: store_inv_def content_of_def put_entry_def fun_eq_iff)

lemma content_delete [view_simps]: "store_inv st \<Longrightarrow> content_of (snd (store_delete k st)) = (content_of st)(k := None)"
  by (auto simp: store_inv_def content_of_def store_delete_def fun_eq_iff)

lemma content_sweep [view_simps]: "store_inv st \<Longrightarrow> content_of (sweep now st) = shown (content_of st) now"
  by (auto simp: store_inv_def content_of_def sweep_def hm.get_retain shown_def unexpired_not_after fun_eq_iff
        split: Option.bind_split option.split)

lemma shown_shown: "t' \<le> t \<Longrightarrow> shown (shown c t') t = shown c t"
  by (auto simp: shown_def fun_eq_iff dest: not_after_mono split: option.splits)

lemma content_get [view_simps]:
  "store_inv st \<Longrightarrow> content_of (snd (store_get now k st)) = (content_of st)(k := shown (content_of st) now k)"
  by (auto simp: store_inv_def content_of_def store_get_def shown_def not_after_def fun_eq_iff split: option.split)

lemma store_get_result: "fst (store_get now k st) = map_option fst (visible st now k)"
  by (auto simp: store_get_def visible_def shown_def content_of_def not_after_def split: option.split)

lemma store_inv_new [wf_intros, simp]: "store_inv (store_new now)"
  by (simp add: store_inv_def store_new_def)

lemma store_inv_put [wf_intros, simp]: "store_inv st \<Longrightarrow> store_inv (put_entry k v e st)"
  by (simp add: store_inv_def put_entry_def)

lemma store_inv_get [wf_intros, simp]: "store_inv st \<Longrightarrow> store_inv (snd (store_get now k st))"
  by (simp add: store_inv_def store_get_def split: option.split)

lemma store_inv_delete [wf_intros, simp]: "store_inv st \<Longrightarrow> store_inv (snd (store_delete k st))"
  by (simp add: store_inv_def store_delete_def)

lemma store_inv_sweep [wf_intros, simp]: "store_inv st \<Longrightarrow> store_inv (sweep now st)"
  by (simp add: store_inv_def sweep_def)

lemma store_set_Inr:
  "store_set now k v ttl st = Inr st' \<longleftrightarrow>
   (ttl = None \<and> st' = put_entry k v None st
    \<or> (\<exists>d. ttl = Some d \<and> now + d < instant_limit \<and> st' = put_entry k v (Some (now + d)) st))"
  by (auto simp: store_set_def and_then_Inr_conv split: option.split)

lemma store_inv_set [wf_intros]: "store_inv st \<Longrightarrow> store_set now k v ttl st = Inr st' \<Longrightarrow> store_inv st'"
  by (auto simp: store_set_Inr)

lemma store_expire_Inr:
  assumes "store_inv st" "store_expire now k d st = Inr (b, st')"
  shows "store_inv st' \<and> b = (content_of st k \<noteq> None)
    \<and> content_of st' = (case content_of st k of None \<Rightarrow> content_of st
                        | Some (v, _) \<Rightarrow> (content_of st)(k \<mapsto> (v, Some (now + d))))"
  using assms
  by (auto simp: store_expire_def and_then_Inr_conv store_inv_def content_of_def fun_eq_iff split: option.splits)

section \<open>The interface the servers and the rebalancer rely on\<close>

locale ttl_store =
  fixes look :: "'s \<Rightarrow> instant \<Rightarrow> content"
    and put :: "bytes \<Rightarrow> bytes \<Rightarrow> instant option \<Rightarrow> 's \<Rightarrow> 's"
    and read :: "instant \<Rightarrow> bytes \<Rightarrow> 's \<Rightarrow> bytes option \<times> 's"
    and del :: "bytes \<Rightarrow> 's \<Rightarrow> bool \<times> 's"
    and purge :: "instant \<Rightarrow> 's \<Rightarrow> 's"
    and inv :: "'s \<Rightarrow> bool"
  assumes look_put: "inv s \<Longrightarrow> look (put k v e s) t = (look s t)(k := if not_after t e then Some (v, e) else None)"
    and look_read: "inv s \<Longrightarrow> now \<le> t \<Longrightarrow> look (snd (read now k s)) t = look s t"
    and read_result: "inv s \<Longrightarrow> fst (read now k s) = map_option fst (look s now k)"
    and look_del: "inv s \<Longrightarrow> look (snd (del k s)) t = (look s t)(k := None)"
    and look_purge: "inv s \<Longrightarrow> now \<le> t \<Longrightarrow> look (purge now s) t = look s t"
    and look_later: "inv s \<Longrightarrow> t \<le> t' \<Longrightarrow> look s t' k = Some c \<Longrightarrow> look s t k = Some c"
    and inv_put: "inv s \<Longrightarrow> inv (put k v e s)"
    and inv_read: "inv s \<Longrightarrow> inv (snd (read now k s))"
    and inv_del: "inv s \<Longrightarrow> inv (snd (del k s))"
    and inv_purge: "inv s \<Longrightarrow> inv (purge now s)"
begin

lemma read_after_put:
  "inv s \<Longrightarrow> fst (read now k (put k v e s)) = (if not_after now e then Some v else None)"
  by (simp add: read_result look_put inv_put)

lemma read_after_put_other: "inv s \<Longrightarrow> k' \<noteq> k \<Longrightarrow> fst (read now k' (put k v e s)) = fst (read now k' s)"
  by (simp add: read_result look_put inv_put)

lemma read_after_del: "inv s \<Longrightarrow> fst (read now k (snd (del k s))) = None"
  by (simp add: read_result look_del inv_del)

lemma read_stays_gone: "inv s \<Longrightarrow> t \<le> t' \<Longrightarrow> fst (read t k s) = None \<Longrightarrow> fst (read t' k s) = None"
  using look_later [of s t t' k] by (cases "look s t' k") (auto simp: read_result)

lemma inv_purges: "inv s \<Longrightarrow> inv (fold purge ts s)"
  by (induction ts arbitrary: s) (auto intro: inv_purge)

text \<open>However often the sweeper has run, no later read can tell.\<close>
lemma purges_unobservable: "inv s \<Longrightarrow> \<forall>u\<in>set ts. u \<le> t \<Longrightarrow> look (fold purge ts s) t = look s t"
  by (induction ts arbitrary: s) (auto simp: look_purge inv_purge)

text \<open>Deleting a batch of keys: the tombstones of a rebalance.\<close>
lemma delete_batch:
  assumes "inv s"
  shows "inv (fold (\<lambda>k s. snd (del k s)) ks s)
         \<and> look (fold (\<lambda>k s. snd (del k s)) ks s) t k = (if k \<in> set ks then None else look s t k)"
  using assms
proof (induction ks arbitrary: s)
  case (Cons k' ks)
  then show ?case using Cons.IH [OF inv_del [OF Cons.prems, of k']] by (auto simp: look_del)
qed simp

end

interpretation cs: ttl_store visible put_entry store_get store_delete sweep store_inv
proof
  fix s now t t' k c
  assume inv: "store_inv s"
  show "visible (snd (store_get now k s)) t = visible s t" if "now \<le> t"
    using inv that not_after_mono [of t _ now]
    by (fastforce simp: visible_def content_get shown_def fun_eq_iff split: option.splits)
  show "visible s t k = Some c" if "t \<le> t'" "visible s t' k = Some c"
    using that not_after_mono [of t' _ t] by (auto simp: visible_def shown_def split: option.splits if_splits)
qed (auto simp: visible_def view_simps shown_shown store_get_result)

section \<open>Runs of the store refine a map with deadlines\<close>

datatype store_op =
    OpSet instant bytes bytes "duration option"
  | OpGet instant bytes
  | OpDelete instant bytes
  | OpExpire instant bytes duration
  | OpSweep instant

fun op_time :: "store_op \<Rightarrow> instant" where
  "op_time (OpSet now k v ttl) = now"
| "op_time (OpGet now k) = now"
| "op_time (OpDelete now k) = now"
| "op_time (OpExpire now k d) = now"
| "op_time (OpSweep now) = now"

fun exec_op :: "store_op \<Rightarrow> cache_store \<Rightarrow> cache_store run" where
  "exec_op (OpSet now k v ttl) st = store_set now k v ttl st"
| "exec_op (OpGet now k) st = Inr (snd (store_get now k st))"
| "exec_op (OpDelete now k) st = Inr (snd (store_delete k st))"
| "exec_op (OpExpire now k d) st = and_then (store_expire now k d st) (\<lambda>r. Inr (snd r))"
| "exec_op (OpSweep now) st = Inr (sweep now st)"

fun exec_ops :: "store_op list \<Rightarrow> cache_store \<Rightarrow> cache_store run" where
  "exec_ops [] st = Inr st"
| "exec_ops (p # ps) st = and_then (exec_op p st) (exec_ops ps)"

text \<open>The specification: reads and sweeps do nothing, and \<^verbatim>\<open>expire\<close> touches only what is still there.\<close>
fun spec_op :: "store_op \<Rightarrow> content \<Rightarrow> content" where
  "spec_op (OpSet now k v ttl) c = c(k \<mapsto> (v, map_option ((+) now) ttl))"
| "spec_op (OpGet now k) c = c"
| "spec_op (OpDelete now k) c = c(k := None)"
| "spec_op (OpExpire now k d) c =
     (case shown c now k of None \<Rightarrow> c | Some (v, _) \<Rightarrow> c(k \<mapsto> (v, Some (now + d))))"
| "spec_op (OpSweep now) c = c"

text \<open>\<^verbatim>\<open>expire\<close> never hits an entry that is past its deadline but not yet removed.\<close>
fun no_stale_expire :: "store_op list \<Rightarrow> cache_store \<Rightarrow> bool" where
  "no_stale_expire [] st = True"
| "no_stale_expire (p # ps) st =
     ((case p of OpExpire now k d \<Rightarrow> content_of st k = visible st now k | _ \<Rightarrow> True)
      \<and> (case exec_op p st of Inr st' \<Rightarrow> no_stale_expire ps st' | Inl _ \<Rightarrow> True))"

definition agrees :: "instant \<Rightarrow> cache_store \<Rightarrow> content \<Rightarrow> bool" where
  "agrees T st c \<longleftrightarrow> store_inv st \<and> (\<forall>t\<ge>T. visible st t = shown c t)"

lemma agrees_later: "agrees T st c \<Longrightarrow> T \<le> T' \<Longrightarrow> agrees T' st c"
  by (simp add: agrees_def)

lemma agrees_step:
  assumes R: "agrees now st c" and p: "op_time p = now" "exec_op p st = Inr st'" "no_stale_expire [p] st"
  shows "agrees now st' (spec_op p c)"
proof (cases p)
  case (OpSet n k v ttl)
  then show ?thesis using R p by (auto simp: agrees_def store_set_Inr cs.look_put view_simps)
next
  case (OpGet n k)
  then show ?thesis using R p by (auto simp: agrees_def cs.look_read)
next
  case (OpDelete n k)
  then show ?thesis using R p by (auto simp: agrees_def cs.look_del view_simps)
next
  case (OpSweep n)
  then show ?thesis using R p by (auto simp: agrees_def cs.look_purge)
next
  case (OpExpire n k d)
  with p obtain b where ex: "store_expire now k d st = Inr (b, st')" by (auto simp: and_then_Inr_conv)
  have inv: "store_inv st" using R by (simp add: agrees_def)
  have "content_of st k = shown c now k"
    using R p(3) p(1) OpExpire by (simp add: agrees_def)
  then show ?thesis
    using R store_expire_Inr [OF inv ex] OpExpire p(1)
    by (auto simp: agrees_def visible_def view_simps split: option.splits)
qed

lemma exec_refines:
  assumes "agrees T st c" "exec_ops ps st = Inr st'" "no_stale_expire ps st"
    and "sorted (T # map op_time ps)" "\<forall>p\<in>set ps. op_time p \<le> t"
  shows "T \<le> t \<Longrightarrow> visible st' t = shown (fold spec_op ps c) t"
  using assms
proof (induction ps arbitrary: T st c)
  case Nil
  then show ?case by (simp add: agrees_def)
next
  case (Cons p ps)
  then obtain st1 where st1: "exec_op p st = Inr st1" "exec_ops ps st1 = Inr st'"
    by (auto simp: and_then_Inr_conv)
  have "agrees (op_time p) st1 (spec_op p c)"
    using Cons.prems st1(1) by (intro agrees_step [where st = st]) (auto intro: agrees_later)
  then show ?case using Cons.IH [of "op_time p" st1 "spec_op p c"] Cons.prems st1 by simp
qed

lemma exec_ops_total:
  assumes "\<forall>p\<in>set ps. case p of OpSet now _ _ (Some d) \<Rightarrow> now + d < instant_limit
                               | OpExpire now _ d \<Rightarrow> now + d < instant_limit | _ \<Rightarrow> True"
  shows "\<exists>st'. exec_ops ps st = Inr st'"
  using assms
proof (induction ps arbitrary: st)
  case (Cons p ps)
  have "\<exists>st1. exec_op p st = Inr st1"
    using Cons.prems
    by (cases p) (auto simp: store_set_def store_expire_def instant_add_def split: option.splits)
  then show ?case using Cons by (auto simp: and_then_Inr_conv)
qed simp

section \<open>Size and transfer\<close>

lemma visible_entry:
  "store_inv st \<Longrightarrow> visible st now k = Some (v, e) \<longleftrightarrow>
     (\<exists>en. (k, en) \<in> set (cs_data st) \<and> unexpired now en \<and> v = ce_value en \<and> e = ce_expires_at en)"
  by (auto simp: visible_def shown_def content_of_def unexpired_not_after store_inv_def
        hm.get_entries [symmetric] split: option.splits)

lemma entries_for_transfer_visible:
  assumes "store_inv st"
  shows "(k, v, ms) \<in> set (entries_for_transfer now st) \<longleftrightarrow>
     (\<exists>e. visible st now k = Some (v, e) \<and> ms = map_option (\<lambda>e. as_millis_u64 (e - now)) e)"
  using visible_entry [OF assms, of now k v] by (auto simp: entries_for_transfer_def)

lemma entries_for_transfer_keys:
  assumes "store_inv st"
  shows "distinct (map fst (entries_for_transfer now st))"
proof -
  have "map fst (entries_for_transfer now st) = map fst (filter (\<lambda>(_, en). unexpired now en) (cs_data st))"
    by (simp add: entries_for_transfer_def case_prod_unfold)
  then show ?thesis using assms by (simp add: store_inv_def hm_invar_def distinct_map_fst_filter)
qed

text \<open>The deadline a transferred entry gets: never later than the original, less than a millisecond short.\<close>
lemma transferred_deadline:
  assumes "now < e" "(e - now) div nanos_per_milli < 2 ^ 64"
  shows "from_millis (as_millis_u64 (e - now)) \<le> e - now"
    and "e - now < from_millis (as_millis_u64 (e - now)) + nanos_per_milli"
proof -
  have "unat (as_millis_u64 (e - now)) = (e - now) div nanos_per_milli"
    using assms(2) by (simp add: as_millis_u64_def unat_of_nat take_bit_nat_eq_self_iff)
  then have eq: "from_millis (as_millis_u64 (e - now)) = (e - now) div nanos_per_milli * nanos_per_milli"
    by (simp add: from_millis_def)
  then show "from_millis (as_millis_u64 (e - now)) \<le> e - now"
    by (simp add: div_times_less_eq_dividend)
  show "e - now < from_millis (as_millis_u64 (e - now)) + nanos_per_milli"
    using eq dividend_less_div_times [of nanos_per_milli "e - now"] by (simp add: nanos_per_milli_def add.commute)
qed

section \<open>Properties\<close>



text \<open>A run of the store panics only for a deadline that the clock cannot represent.\<close>
theorem store_runs_do_not_panic:
  assumes "\<forall>p\<in>set ps. case p of OpSet now _ _ (Some d) \<Rightarrow> now + d < instant_limit
                               | OpExpire now _ d \<Rightarrow> now + d < instant_limit | _ \<Rightarrow> True"
  shows "\<exists>st'. exec_ops ps st = Inr st' \<and> (store_inv st \<longrightarrow> store_inv st')"
proof -
  obtain st' where st': "exec_ops ps st = Inr st'" using exec_ops_total [OF assms] by blast
  have "store_inv st'" if "store_inv st"
    using st' that
  proof (induction ps arbitrary: st)
    case (Cons p ps)
    then obtain st1 where st1: "exec_op p st = Inr st1" "exec_ops ps st1 = Inr st'" by (auto simp: and_then_Inr_conv)
    have "store_inv st1"
      using st1(1) Cons.prems(2)
      by (cases p) (auto simp: and_then_Inr_conv intro: store_inv_set dest: store_expire_Inr [OF Cons.prems(2)])
    then show ?case using Cons.IH st1(2) by blast
  qed simp
  then show ?thesis using st' by blast
qed

theorem store_runs_do_not_panic_witness:
  "\<exists>st'. exec_ops [OpSet 1 ''k'' ''v'' (Some 9), OpExpire 2 ''k'' 5] (store_new 0) = Inr st' \<and> store_inv st'"
  using store_runs_do_not_panic [of "[OpSet 1 ''k'' ''v'' (Some 9), OpExpire 2 ''k'' 5]" "store_new 0"]
  by (auto simp: instant_limit_def nanos_per_sec_def)

text \<open>A call of \<^verbatim>\<open>expire\<close> on an entry that is past its deadline, but that no read or sweep has removed yet, answers \<^verbatim>\<open>true\<close>
  and makes the entry visible again: an expired key comes back to life.\<close>
theorem expire_revives_expired_entry:
  assumes "store_inv st" "content_of st k = Some (v, Some e)" "e \<le> now" "0 < d" "now + d < instant_limit"
  shows "visible st now k = None
    \<and> (\<exists>st'. store_expire now k d st = Inr (True, st') \<and> visible st' now k = Some (v, Some (now + d)))"
proof -
  have "\<exists>b st'. store_expire now k d st = Inr (b, st')"
    using assms(5) by (auto simp: store_expire_def instant_add_def split: option.split)
  then obtain b st' where st': "store_expire now k d st = Inr (b, st')" by blast
  then show ?thesis
    using store_expire_Inr [OF assms(1) st'] assms(2-4) by (auto simp: visible_def shown_def not_after_def)
qed

theorem expire_revives_expired_entry_witness:
  "\<exists>st'. store_expire 8 ''k'' 4 (put_entry ''k'' ''v'' (Some 5) (store_new 0)) = Inr (True, st') \<and> visible st' 8 ''k'' = Some (''v'', Some 12)"
  using expire_revives_expired_entry [of "put_entry ''k'' ''v'' (Some 5) (store_new 0)" "''k''" "''v''" 5 8 4]
  by (simp add: content_put instant_limit_def nanos_per_sec_def)

text \<open>\<^verbatim>\<open>len\<close> is the number of visible keys, leftovers not counted.\<close>
lemma len_counts_visible_entries:
  assumes "store_inv st"
  shows "store_len now st = card (dom (visible st now))"
proof -
  have inv: "store_inv (sweep now st)" using assms by simp
  have "dom (visible st now) = dom (content_of (sweep now st))"
    using assms by (simp add: visible_def view_simps)
  also have "\<dots> = dom (hm_get (cs_data (sweep now st)))"
    by (auto simp: content_of_def)
  finally have "card (dom (visible st now)) = length (cs_data (sweep now st))"
    using inv by (simp add: store_inv_def hm.length_card)
  then show ?thesis by (simp add: store_len_def sweep_def hm_retain_def)
qed

text \<open>However often and whenever the background sweeper has run, no later read can tell: the visible content at
  any time not before the sweeps is unchanged.\<close>
theorem sweeps_unobservable:
  assumes "store_inv st" "\<forall>u\<in>set ticks. u \<le> t"
  shows "store_inv (fold sweep ticks st) \<and> visible (fold sweep ticks st) t = visible st t
         \<and> fst (store_get t k (fold sweep ticks st)) = fst (store_get t k st)"
  using cs.purges_unobservable [OF assms] cs.inv_purges [OF assms(1)] by (simp add: store_get_result)

theorem sweeps_unobservable_witness:
  "fst (store_get 9 ''k'' (fold sweep [1, 3, 8] (put_entry ''k'' ''v'' (Some 10) (store_new 0)))) = Some ''v''"
  using sweeps_unobservable [of "put_entry ''k'' ''v'' (Some 10) (store_new 0)" "[1, 3, 8]" 9 "''k''"]
    cs.read_after_put [of "store_new 0" 9 "''k''" "''v''" "Some 10"]
  by (simp add: not_after_def del: fold_simps)

text \<open>An entry with a deadline that is sent at \<open>now\<close> and stored by the receiver at \<open>now'\<close> keeps its remaining time:
  its new deadline is not later than the old one shifted by the delay, and short of it by less than a
  millisecond (as long as the remaining milliseconds fit in 64 bits).\<close>
theorem transfer_keeps_remaining_time:
  assumes "store_inv st" "store_inv st2" "visible st now k = Some (v, Some e)" "(e - now) div nanos_per_milli < 2 ^ 64"
    and "(k, v, Some ms) \<in> set (entries_for_transfer now st)" "ms \<noteq> 0" "set_from_transfer now' k v (Some ms) st2 = Inr st2'"
  shows "\<exists>e'. visible st2' now' k = Some (v, Some e') \<and> e' \<le> now' + (e - now) \<and> now' + (e - now) < e' + nanos_per_milli"
proof -
  have ms: "ms = as_millis_u64 (e - now)" using assms(3,5) by (auto simp: entries_for_transfer_visible [OF assms(1)])
  have "now < e" using assms(3) by (auto simp: visible_def shown_def not_after_def split: option.splits if_splits)
  note bounds = transferred_deadline [OF this assms(4)]
  have "st2' = put_entry k v (Some (now' + from_millis ms)) st2"
    using assms(6,7) by (auto simp: set_from_transfer_def store_set_Inr)
  moreover have "0 < from_millis ms" using assms(6) by (simp add: from_millis_def nanos_per_milli_def unat_gt_0)
  ultimately have "visible st2' now' k = Some (v, Some (now' + from_millis ms))"
    using assms(2) by (simp add: cs.look_put not_after_def)
  then show ?thesis using bounds by (simp add: ms)
qed

theorem transfer_keeps_remaining_time_witness:
  "\<exists>st2' e'. set_from_transfer 100 ''k'' ''v'' (Some 5) (store_new 0) = Inr st2' \<and> visible st2' 100 ''k'' = Some (''v'', Some e')
     \<and> e' \<le> 100 + (5000007 - 3)"
proof -
  let ?st = "put_entry ''k'' ''v'' (Some 5000007) (store_new 0)"
  have vis: "visible ?st 3 ''k'' = Some (''v'', Some 5000007)" by (simp add: cs.look_put not_after_def)
  moreover have ms: "as_millis_u64 (5000007 - 3) = 5" by (simp add: as_millis_u64_def nanos_per_milli_def)
  ultimately have "(''k'', ''v'', Some 5) \<in> set (entries_for_transfer 3 ?st)"
    by (simp add: entries_for_transfer_visible)
  moreover obtain st2' where "set_from_transfer 100 ''k'' ''v'' (Some 5) (store_new 0) = Inr st2'"
    by (simp add: set_from_transfer_def store_set_def instant_add_def instant_limit_def nanos_per_sec_def from_millis_def nanos_per_milli_def)
  ultimately show ?thesis
    using transfer_keeps_remaining_time [of ?st "store_new 0" 3 "''k''" "''v''" 5000007 5 100 st2'] vis
    by (auto simp: nanos_per_milli_def)
qed

text \<open>Converting milliseconds since the store's epoch to an instant and back is the identity, and does not panic
  for a store created before the far end of the clock.\<close>
lemma epoch_roundtrip:
  assumes "cs_epoch st < 2 ^ 62 * nanos_per_sec"
  shows "\<exists>i. epoch_ms_to_instant st ms = Inr i \<and> instant_to_epoch_ms st i = ms"
  using instant_add_millis [OF assms, of ms] by (simp add: epoch_ms_to_instant_def instant_to_epoch_ms_def)

text \<open>Without interference the two steps of a read are the read.\<close>
lemma store_get_two_steps:
  "store_get now key st = (case get_check now key st of
     Missing \<Rightarrow> (None, st) | Live v \<Rightarrow> (Some v, st) | Stale \<Rightarrow> (None, get_remove key st))"
  by (simp add: store_get_def get_check_def get_remove_def split: option.split)

text \<open>A read of an expired key that is overtaken by a write destroys the written value: the read has seen the old
  entry as expired, the write replaces it and is acknowledged, and the read then removes the key, so the
  new value is gone for good although no one deleted it and its own deadline has not passed.\<close>
theorem racing_read_loses_write:
  assumes "store_inv st" "content_of st k = Some (old, Some e)" "e \<le> now" "store_set now' k v ttl st = Inr st1"
  shows "get_check now k st = Stale
    \<and> content_of st1 k = Some (v, map_option ((+) now') ttl)
    \<and> (\<forall>t. visible (get_remove k st1) t k = None)"
proof -
  have "get_check now k st = Stale" using assms(2,3) by (auto simp: get_check_def content_of_def)
  moreover have "st1 = put_entry k v (map_option ((+) now') ttl) st" using assms(4) by (auto simp: store_set_Inr)
  moreover from this have "store_inv st1" using assms(1) by simp
  then have "visible (get_remove k st1) t k = None" for t
    using cs.look_del [of st1 k t] by (simp add: get_remove_def store_delete_def)
  ultimately show ?thesis using assms(1) by (simp add: content_put)
qed

theorem racing_read_loses_write_witness:
  "\<exists>st1. store_set 8 ''k'' ''new'' None (put_entry ''k'' ''old'' (Some 5) (store_new 0)) = Inr st1
     \<and> content_of st1 ''k'' = Some (''new'', None) \<and> visible (get_remove ''k'' st1) 9 ''k'' = None"
proof -
  let ?st = "put_entry ''k'' ''old'' (Some 5) (store_new 0)"
  obtain st1 where st1: "store_set 8 ''k'' ''new'' None ?st = Inr st1" by (simp add: store_set_def)
  have "content_of ?st ''k'' = Some (''old'', Some 5)" by (simp add: content_put)
  from racing_read_loses_write [OF _ this _ st1, of 7] st1 show ?thesis by simp
qed

end
