(* ===== verification/Gossip_State.thy ===== *)
theory Gossip_State
  imports Common_Types "HOL-Library.Product_Lexorder" "HOL-Library.Option_ord"
begin

text \<open>
  The membership table, \<^verbatim>\<open>crates/node/src/gossip/state.rs\<close>. Every method takes the table's lock once, so
  a method is one transition. The view of a peer is its pair of incarnation and status; statuses are
  ordered \<^verbatim>\<open>Joining < Alive < Suspect < Dead\<close>, the precedence the merge rule uses at equal incarnations, and
  merging is the maximum in the lexicographic order. From this follow order-independence, idempotence
  and monotonicity of gossip. A node's own entry follows the refutation rule instead.
\<close>

datatype member_status = Alive | Suspect | Dead | Joining

record member_entry =
  me_info :: node_info
  me_status :: member_status
  me_incarnation :: u64
  me_last_seen :: instant

record membership_table =
  mt_members :: "(node_id, member_entry) hmap"
  mt_local_id :: node_id

definition seed_entry :: "instant \<Rightarrow> node_info \<Rightarrow> member_entry" where
  "seed_entry now n = \<lparr>me_info = n, me_status = Alive, me_incarnation = 0, me_last_seen = now\<rparr>"

definition table_new :: "instant \<Rightarrow> node_id \<Rightarrow> node_info list \<Rightarrow> membership_table" where
  "table_new now local_id seed_nodes =
     (let is_joining = seed_nodes \<noteq> [];
          self_info = (case List.find (\<lambda>n. ni_id n = local_id) seed_nodes of
                         Some n \<Rightarrow> n | None \<Rightarrow> \<lparr>ni_id = local_id, ni_addr = []\<rparr>);
          self = \<lparr>me_info = self_info, me_status = (if is_joining then Joining else Alive),
                  me_incarnation = 0, me_last_seen = now\<rparr>
      in \<lparr>mt_members = fold (\<lambda>n m. if ni_id n \<noteq> local_id then hm_insert (ni_id n) (seed_entry now n) m else m)
                            seed_nodes (hm_insert local_id self []),
          mt_local_id = local_id\<rparr>)"

definition alive_peers :: "membership_table \<Rightarrow> member_entry list" where
  "alive_peers t =
     map snd (filter (\<lambda>(i, e). i \<noteq> mt_local_id t \<and> (me_status e = Alive \<or> me_status e = Joining)) (mt_members t))"

definition routable_peers :: "membership_table \<Rightarrow> member_entry list" where
  "routable_peers t = map snd (filter (\<lambda>(i, e). i \<noteq> mt_local_id t \<and> me_status e = Alive) (mt_members t))"

definition all_members :: "membership_table \<Rightarrow> member_entry list" where
  "all_members t = map snd (mt_members t)"

definition mark_suspect :: "node_id \<Rightarrow> membership_table \<Rightarrow> bool \<times> membership_table" where
  "mark_suspect nid t =
     (case hm_get (mt_members t) nid of
        Some e \<Rightarrow> if me_status e = Alive
                  then (True, t\<lparr>mt_members := hm_insert nid (e\<lparr>me_status := Suspect\<rparr>) (mt_members t)\<rparr>)
                  else (False, t)
      | None \<Rightarrow> (False, t))"

definition mark_dead :: "node_id \<Rightarrow> membership_table \<Rightarrow> bool \<times> membership_table" where
  "mark_dead nid t =
     (case hm_get (mt_members t) nid of
        Some e \<Rightarrow> if me_status e = Alive \<or> me_status e = Suspect
                  then (True, t\<lparr>mt_members := hm_insert nid (e\<lparr>me_status := Dead\<rparr>) (mt_members t)\<rparr>)
                  else (False, t)
      | None \<Rightarrow> (False, t))"

definition mark_alive :: "node_id \<Rightarrow> u64 \<Rightarrow> membership_table \<Rightarrow> bool \<times> membership_table" where
  "mark_alive nid inc t =
     (case hm_get (mt_members t) nid of
        Some e \<Rightarrow> if me_incarnation e \<le> inc \<and> me_status e = Suspect
                  then (True, t\<lparr>mt_members := hm_insert nid (e\<lparr>me_status := Alive, me_incarnation := inc\<rparr>)
                                                           (mt_members t)\<rparr>)
                  else (False, t)
      | None \<Rightarrow> (False, t))"

definition touch :: "instant \<Rightarrow> node_id \<Rightarrow> membership_table \<Rightarrow> membership_table" where
  "touch now nid t = t\<lparr>mt_members := hm_modify nid (\<lambda>e. e\<lparr>me_last_seen := now\<rparr>) (mt_members t)\<rparr>"

definition dead_nodes :: "membership_table \<Rightarrow> node_id list" where
  "dead_nodes t = map fst (filter (\<lambda>(_, e). me_status e = Dead) (mt_members t))"

definition is_alive :: "membership_table \<Rightarrow> node_id \<Rightarrow> bool" where
  "is_alive t nid = (case hm_get (mt_members t) nid of Some e \<Rightarrow> me_status e = Alive | None \<Rightarrow> False)"

definition local_incarnation :: "membership_table \<Rightarrow> u64" where
  "local_incarnation t = (case hm_get (mt_members t) (mt_local_id t) of Some e \<Rightarrow> me_incarnation e | None \<Rightarrow> 0)"

definition local_addr :: "membership_table \<Rightarrow> addr" where
  "local_addr t = (case hm_get (mt_members t) (mt_local_id t) of Some e \<Rightarrow> ni_addr (me_info e) | None \<Rightarrow> [])"

definition mark_self_alive :: "membership_table \<Rightarrow> membership_table" where
  "mark_self_alive t =
     t\<lparr>mt_members := hm_modify (mt_local_id t)
         (\<lambda>e. e\<lparr>me_incarnation := me_incarnation e + 1, me_status := Alive\<rparr>) (mt_members t)\<rparr>"

definition is_self_joining :: "membership_table \<Rightarrow> bool" where
  "is_self_joining t =
     (case hm_get (mt_members t) (mt_local_id t) of Some e \<Rightarrow> me_status e = Joining | None \<Rightarrow> False)"

section \<open>Merging remote state\<close>

type_synonym remote_entry = "node_id \<times> addr \<times> member_status \<times> u64"

fun should_update :: "member_status \<Rightarrow> member_status \<Rightarrow> bool" where
  "should_update Alive Dead = True"
| "should_update Suspect Dead = True"
| "should_update Joining Dead = True"
| "should_update Alive Suspect = True"
| "should_update Joining Suspect = True"
| "should_update Joining Alive = True"
| "should_update _ _ = False"

definition remote_member :: "instant \<Rightarrow> remote_entry \<Rightarrow> member_entry" where
  "remote_member now r =
     (case r of (nid, addr, st, inc) \<Rightarrow>
        \<lparr>me_info = \<lparr>ni_id = nid, ni_addr = addr\<rparr>, me_status = st, me_incarnation = inc, me_last_seen = now\<rparr>)"

text \<open>
  One iteration of the loop in \<^verbatim>\<open>merge\<close>. The refutation computes \<^verbatim>\<open>remote_incarnation + 1\<close> in \<^verbatim>\<open>u64\<close>, which
  wraps in a release build.
\<close>
definition merge_entry :: "instant \<Rightarrow> remote_entry \<Rightarrow> membership_table \<Rightarrow> membership_table" where
  "merge_entry now r t =
     (case r of (nid, addr, st, inc) \<Rightarrow>
        if nid = mt_local_id t then
          (if st = Suspect \<or> st = Dead then
             (case hm_get (mt_members t) nid of
                Some l \<Rightarrow> if me_incarnation l \<le> inc
                          then t\<lparr>mt_members := hm_insert nid (l\<lparr>me_incarnation := inc + 1, me_status := Alive\<rparr>)
                                                             (mt_members t)\<rparr>
                          else t
              | None \<Rightarrow> t)
           else t)
        else
          (case hm_get (mt_members t) nid of
             Some l \<Rightarrow>
               if me_incarnation l < inc
               then t\<lparr>mt_members := hm_insert nid (remote_member now r) (mt_members t)\<rparr>
               else if inc = me_incarnation l \<and> should_update (me_status l) st
               then t\<lparr>mt_members := hm_insert nid (remote_member now r) (mt_members t)\<rparr>
               else t
           | None \<Rightarrow> t\<lparr>mt_members := hm_insert nid (remote_member now r) (mt_members t)\<rparr>))"

definition merge :: "instant \<Rightarrow> remote_entry list \<Rightarrow> membership_table \<Rightarrow> membership_table" where
  "merge now rs t = fold (merge_entry now) rs t"

section \<open>The precedence order on statuses\<close>

fun status_rank :: "member_status \<Rightarrow> nat" where
  "status_rank Joining = 0"
| "status_rank Alive = 1"
| "status_rank Suspect = 2"
| "status_rank Dead = 3"

lemma status_rank_inj: "status_rank a = status_rank b \<Longrightarrow> a = b"
  by (cases a; cases b) simp_all

instantiation member_status :: linorder
begin

definition less_eq_member_status :: "member_status \<Rightarrow> member_status \<Rightarrow> bool" where
  "less_eq_member_status a b \<longleftrightarrow> status_rank a \<le> status_rank b"

definition less_member_status :: "member_status \<Rightarrow> member_status \<Rightarrow> bool" where
  "less_member_status a b \<longleftrightarrow> status_rank a < status_rank b"

instance
  by standard (auto simp: less_eq_member_status_def less_member_status_def intro: status_rank_inj)

end

lemma should_update_less: "should_update l r \<longleftrightarrow> l < r"
  by (cases l; cases r) (simp_all add: less_member_status_def)

section \<open>Invariant and views\<close>

definition table_inv :: "membership_table \<Rightarrow> bool" where
  "table_inv t \<longleftrightarrow> hm_invar (mt_members t)
     \<and> (\<forall>nid e. hm_get (mt_members t) nid = Some e \<longrightarrow> ni_id (me_info e) = nid)
     \<and> hm_get (mt_members t) (mt_local_id t) \<noteq> None"

text \<open>A node never holds itself for suspect or dead.\<close>
definition local_ok :: "membership_table \<Rightarrow> bool" where
  "local_ok t \<longleftrightarrow>
     (case hm_get (mt_members t) (mt_local_id t) of Some e \<Rightarrow> me_status e = Alive \<or> me_status e = Joining | None \<Rightarrow> False)"

definition view :: "membership_table \<Rightarrow> node_id \<Rightarrow> (u64 \<times> member_status) option" where
  "view t nid = map_option (\<lambda>e. (me_incarnation e, me_status e)) (hm_get (mt_members t) nid)"

definition known :: "membership_table \<Rightarrow> node_id set" where
  "known t = dom (hm_get (mt_members t))"

text \<open>The shape of every update: one member's entry replaced, its identity kept.\<close>
definition put_member :: "node_id \<Rightarrow> member_entry \<Rightarrow> membership_table \<Rightarrow> membership_table" where
  "put_member nid e t = t\<lparr>mt_members := hm_insert nid e (mt_members t)\<rparr>"

lemma put_member_local [simp]: "mt_local_id (put_member nid e t) = mt_local_id t"
  by (simp add: put_member_def)

lemma put_member_get:
  "table_inv t \<Longrightarrow> hm_get (mt_members (put_member nid e t)) = (hm_get (mt_members t))(nid \<mapsto> e)"
  by (simp add: put_member_def table_inv_def)

lemma put_member_inv [wf_intros]: "table_inv t \<Longrightarrow> ni_id (me_info e) = nid \<Longrightarrow> table_inv (put_member nid e t)"
  unfolding table_inv_def [of "put_member nid e t"]
  by (auto simp: put_member_get) (auto simp: put_member_def table_inv_def)

lemma put_member_view: "table_inv t \<Longrightarrow> view (put_member nid e t) = (view t)(nid \<mapsto> (me_incarnation e, me_status e))"
  by (auto simp: view_def put_member_get)

lemma table_invD: "table_inv t \<Longrightarrow> hm_get (mt_members t) nid = Some e \<Longrightarrow> ni_id (me_info e) = nid"
  by (simp add: table_inv_def)

lemma hm_modify_put: "t\<lparr>mt_members := hm_modify nid f (mt_members t)\<rparr> =
    (case hm_get (mt_members t) nid of None \<Rightarrow> t | Some e \<Rightarrow> put_member nid (f e) t)"
  by (simp add: hm_modify_def put_member_def split: option.split)

lemma touch_put: "touch now nid t =
    (case hm_get (mt_members t) nid of None \<Rightarrow> t | Some e \<Rightarrow> put_member nid (e\<lparr>me_last_seen := now\<rparr>) t)"
  by (simp add: touch_def hm_modify_put)

lemma mark_self_alive_put: "mark_self_alive t =
    (case hm_get (mt_members t) (mt_local_id t) of None \<Rightarrow> t
     | Some e \<Rightarrow> put_member (mt_local_id t) (e\<lparr>me_incarnation := me_incarnation e + 1, me_status := Alive\<rparr>) t)"
  by (simp add: mark_self_alive_def hm_modify_put)

lemmas table_op_defs =
  mark_suspect_def mark_dead_def mark_alive_def touch_put mark_self_alive_put merge_entry_def
  put_member_def [symmetric]

lemma local_id_ops [simp]:
  "mt_local_id (snd (mark_suspect nid t)) = mt_local_id t"
  "mt_local_id (snd (mark_dead nid t)) = mt_local_id t"
  "mt_local_id (snd (mark_alive nid inc t)) = mt_local_id t"
  "mt_local_id (touch now nid t) = mt_local_id t"
  "mt_local_id (mark_self_alive t) = mt_local_id t"
  "mt_local_id (merge_entry now r t) = mt_local_id t"
  by (auto simp: table_op_defs split: option.split prod.split)

lemma table_inv_ops [wf_intros]:
  assumes "table_inv t"
  shows "table_inv (snd (mark_suspect nid t))" "table_inv (snd (mark_dead nid t))"
    "table_inv (snd (mark_alive nid inc t))" "table_inv (touch now nid t)" "table_inv (mark_self_alive t)"
    "table_inv (merge_entry now r t)"
  using assms
  by (auto simp: table_op_defs remote_member_def dest: table_invD split: option.split prod.split
        intro!: put_member_inv)

lemma table_inv_merge [wf_intros]: "table_inv t \<Longrightarrow> table_inv (merge now rs t)"
  unfolding merge_def by (induction rs arbitrary: t) (auto intro: table_inv_ops)

lemma local_id_merge [simp]: "mt_local_id (merge now rs t) = mt_local_id t"
  unfolding merge_def by (induction rs arbitrary: t) auto

lemma seeds_inv:
  assumes "hm_invar m" "\<forall>nid e. hm_get m nid = Some e \<longrightarrow> ni_id (me_info e) = nid" "hm_get m l = Some s"
  shows "let m' = fold (\<lambda>n m. if ni_id n \<noteq> l then hm_insert (ni_id n) (seed_entry now n) m else m) seeds m
         in hm_invar m' \<and> (\<forall>nid e. hm_get m' nid = Some e \<longrightarrow> ni_id (me_info e) = nid) \<and> hm_get m' l = Some s"
  using assms
proof (induction seeds arbitrary: m)
  case (Cons n seeds)
  show ?case
    using Cons.IH [of "if ni_id n \<noteq> l then hm_insert (ni_id n) (seed_entry now n) m else m"] Cons.prems
    by (auto simp: seed_entry_def)
qed simp

lemma table_new_get_local:
  "hm_get (mt_members (table_new now l seeds)) l =
     Some \<lparr>me_info = (case List.find (\<lambda>n. ni_id n = l) seeds of Some n \<Rightarrow> n | None \<Rightarrow> \<lparr>ni_id = l, ni_addr = []\<rparr>),
           me_status = (if seeds \<noteq> [] then Joining else Alive), me_incarnation = 0, me_last_seen = now\<rparr>"
  and table_inv_new [wf_intros]: "table_inv (table_new now l seeds)"
proof -
  let ?self = "\<lparr>me_info = (case List.find (\<lambda>n. ni_id n = l) seeds of Some n \<Rightarrow> n | None \<Rightarrow> \<lparr>ni_id = l, ni_addr = []\<rparr>),
           me_status = (if seeds \<noteq> [] then Joining else Alive), me_incarnation = 0, me_last_seen = now\<rparr>"
  have "ni_id (me_info ?self) = l"
    by (auto split: option.split dest: find_Some_in_set)
  then have "\<forall>nid e. hm_get (hm_insert l ?self []) nid = Some e \<longrightarrow> ni_id (me_info e) = nid"
    by auto
  note seeded = seeds_inv [OF _ this, of l ?self now seeds]
  then show "hm_get (mt_members (table_new now l seeds)) l = Some ?self"
    and "table_inv (table_new now l seeds)"
    by (simp_all add: table_new_def Let_def table_inv_def)
qed

lemma table_new_local_id [simp]: "mt_local_id (table_new now l seeds) = l"
  by (simp add: table_new_def)

lemma local_ok_new [wf_intros]: "local_ok (table_new now l seeds)"
  by (simp add: local_ok_def table_new_get_local)

lemma local_ok_view:
  "local_ok t \<longleftrightarrow> (\<exists>inc. view t (mt_local_id t) = Some (inc, Alive) \<or> view t (mt_local_id t) = Some (inc, Joining))"
  by (auto simp: local_ok_def view_def split: option.splits)

lemma is_self_joining_view: "is_self_joining t \<longleftrightarrow> (\<exists>inc. view t (mt_local_id t) = Some (inc, Joining))"
  by (auto simp: is_self_joining_def view_def split: option.splits)

section \<open>Views after every operation\<close>

lemma view_mark_suspect:
  "table_inv t \<Longrightarrow> view (snd (mark_suspect nid t)) =
     (view t)(nid := map_option (\<lambda>(i, s). (i, if s = Alive then Suspect else s)) (view t nid))"
  by (auto simp: mark_suspect_def put_member_def [symmetric] put_member_get view_def fun_eq_iff split: option.split)

lemma view_mark_dead:
  "table_inv t \<Longrightarrow> view (snd (mark_dead nid t)) =
     (view t)(nid := map_option (\<lambda>(i, s). (i, if s = Alive \<or> s = Suspect then Dead else s)) (view t nid))"
  by (auto simp: mark_dead_def put_member_def [symmetric] put_member_get view_def fun_eq_iff split: option.split)

lemma view_touch: "table_inv t \<Longrightarrow> view (touch now nid t) = view t"
  by (auto simp: touch_put put_member_view split: option.split) (auto simp: view_def fun_eq_iff)

lemma view_mark_self_alive:
  "table_inv t \<Longrightarrow> view (mark_self_alive t) =
     (view t)(mt_local_id t := map_option (\<lambda>(i, s). (i + 1, Alive)) (view t (mt_local_id t)))"
  by (auto simp: mark_self_alive_put put_member_get view_def fun_eq_iff split: option.split)

lemma view_merge_local:
  "table_inv t \<Longrightarrow> view (merge_entry now (mt_local_id t, addr, st, inc) t) =
     (view t)(mt_local_id t :=
        map_option (\<lambda>(i, s). if (st = Suspect \<or> st = Dead) \<and> i \<le> inc then (inc + 1, Alive) else (i, s))
                   (view t (mt_local_id t)))"
  by (auto simp: merge_entry_def put_member_def [symmetric] put_member_get view_def fun_eq_iff split: option.split)

lemma view_merge_peer:
  assumes "table_inv t" "nid \<noteq> mt_local_id t"
  shows "view (merge_entry now (nid, addr, st, inc) t) = (view t)(nid := max (view t nid) (Some (inc, st)))"
  using assms
  by (auto simp: merge_entry_def put_member_def [symmetric] put_member_get should_update_less remote_member_def
        view_def fun_eq_iff max_def less_eq_prod_def not_le split: option.split)

section \<open>Merging as a maximum\<close>

text \<open>
  What the gossip exchange relies on: a step folds one remote claim into the view of the member it is
  about by taking the maximum, and leaves every other member but the table's owner alone.
\<close>

locale max_merge =
  fixes view :: "'t \<Rightarrow> 'k \<Rightarrow> 'v::linorder"
    and step :: "'e \<Rightarrow> 't \<Rightarrow> 't"
    and key :: "'e \<Rightarrow> 'k"
    and val :: "'e \<Rightarrow> 'v"
    and inv :: "'t \<Rightarrow> bool"
    and own :: "'t \<Rightarrow> 'k"
  assumes view_step: "inv t \<Longrightarrow> k \<noteq> own t \<Longrightarrow>
            view (step e t) k = (if key e = k then max (view t k) (val e) else view t k)"
    and inv_step: "inv t \<Longrightarrow> inv (step e t)"
    and own_step: "own (step e t) = own t"
begin

definition claims :: "'e list \<Rightarrow> 'k \<Rightarrow> 'v set" where
  "claims es k = val ` {e \<in> set es. key e = k}"

lemma finite_claims: "finite (claims es k)"
  by (simp add: claims_def)

lemma claims_Nil: "claims [] k = {}"
  by (simp add: claims_def)

lemma claims_Cons: "claims (e # es) k = (if key e = k then insert (val e) (claims es k) else claims es k)"
  by (auto simp: claims_def)

lemma fold_inv: "inv t \<Longrightarrow> inv (fold step es t)"
  by (induction es arbitrary: t) (auto intro: inv_step)

lemma fold_own: "own (fold step es t) = own t"
  by (induction es arbitrary: t) (auto simp: own_step)

text \<open>The view after a message is the greatest claim seen.\<close>
lemma view_fold:
  "inv t \<Longrightarrow> k \<noteq> own t \<Longrightarrow> view (fold step es t) k = Max (insert (view t k) (claims es k))"
proof (induction es arbitrary: t)
  case Nil
  then show ?case by (simp add: claims_Nil)
next
  case (Cons e es)
  have "view (fold step (e # es) t) k = Max (insert (view (step e t) k) (claims es k))"
    using Cons by (simp add: inv_step own_step)
  also have "\<dots> = Max (insert (view t k) (claims (e # es) k))"
    using Cons.prems finite_claims [of es k] by (cases "claims es k = {}") (auto simp: view_step claims_Cons max.assoc max.left_commute)
  finally show ?case .
qed

lemma view_fold_mono: "inv t \<Longrightarrow> k \<noteq> own t \<Longrightarrow> view t k \<le> view (fold step es t) k"
  by (simp add: view_fold finite_claims)

lemma view_fold_claim: "inv t \<Longrightarrow> k \<noteq> own t \<Longrightarrow> e \<in> set es \<Longrightarrow> key e = k \<Longrightarrow> val e \<le> view (fold step es t) k"
  by (auto simp: view_fold finite_claims claims_def intro!: Max_ge)

lemma view_fold_order:
  "inv t \<Longrightarrow> k \<noteq> own t \<Longrightarrow> set es = set es' \<Longrightarrow> view (fold step es t) k = view (fold step es' t) k"
  by (simp add: view_fold claims_def)

lemma view_fold_twice:
  assumes "inv t" "k \<noteq> own t" "set es' \<subseteq> set es"
  shows "view (fold step es' (fold step es t)) k = view (fold step es t) k"
proof -
  have "claims es' k \<subseteq> claims es k" using assms(3) by (auto simp: claims_def)
  then have "\<forall>c\<in>claims es' k. c \<le> view (fold step es t) k"
    using assms(1,2) by (auto simp: view_fold finite_claims)
  then show ?thesis
    using assms(1,2) by (simp add: view_fold [of "fold step es t"] fold_inv fold_own finite_claims Max_insert2)
qed

end

definition entry_view :: "remote_entry \<Rightarrow> (u64 \<times> member_status) option" where
  "entry_view r = (case r of (nid, addr, st, inc) \<Rightarrow> Some (inc, st))"

interpretation gossip: max_merge view "merge_entry now" fst entry_view table_inv mt_local_id for now
proof
  fix t k and e :: remote_entry
  assume inv: "table_inv t" and peer: "k \<noteq> mt_local_id t"
  obtain nid addr st inc where e: "e = (nid, addr, st, inc)" by (cases e) auto
  show "view (merge_entry now e t) k = (if fst e = k then max (view t k) (entry_view e) else view t k)"
    using inv peer view_merge_local [OF inv, of now addr st inc] view_merge_peer [OF inv, of nid now addr st inc]
    by (cases "nid = mt_local_id t") (auto simp: e entry_view_def)
qed (auto intro: table_inv_ops)

section \<open>Refutation\<close>

lemma local_view_Some: "table_inv t \<Longrightarrow> \<exists>i s. view t (mt_local_id t) = Some (i, s)"
  by (auto simp: table_inv_def view_def)

text \<open>The local entry after one claim: a suspicion at an incarnation not below ours is outbid.\<close>
lemma refute_entry:
  assumes "table_inv t" "view t (mt_local_id t) = Some (i, s)"
  shows "view (merge_entry now (nid, addr, st, inc) t) (mt_local_id t) =
     Some (if nid = mt_local_id t \<and> (st = Suspect \<or> st = Dead) \<and> i \<le> inc then (inc + 1, Alive) else (i, s))"
  using assms view_merge_local [OF assms(1), of now addr st inc] view_merge_peer [OF assms(1), of nid now addr st inc]
  by (cases "nid = mt_local_id t") auto

lemma refute_merge:
  assumes "table_inv t" "view t (mt_local_id t) = Some (i, s)"
    and "\<forall>(nid, addr, st, inc)\<in>set rs. nid = mt_local_id t \<longrightarrow> inc \<noteq> - 1"
  shows "\<exists>i' s'. view (merge now rs t) (mt_local_id t) = Some (i', s') \<and> i \<le> i'
     \<and> (\<forall>(nid, addr, st, inc)\<in>set rs. nid = mt_local_id t \<and> (st = Suspect \<or> st = Dead) \<longrightarrow> inc < i')
     \<and> (s' = s \<or> s' = Alive)"
  using assms
proof (induction rs arbitrary: t i s)
  case Nil
  then show ?case by (simp add: merge_def)
next
  case (Cons r rs)
  obtain nid addr st inc where r: "r = (nid, addr, st, inc)" by (cases r) auto
  let ?t = "merge_entry now r t"
  define i1 s1 where "i1 = (if nid = mt_local_id t \<and> (st = Suspect \<or> st = Dead) \<and> i \<le> inc then inc + 1 else i)"
    and "s1 = (if nid = mt_local_id t \<and> (st = Suspect \<or> st = Dead) \<and> i \<le> inc then Alive else s)"
  have v1: "view ?t (mt_local_id ?t) = Some (i1, s1)"
    using refute_entry [OF Cons.prems(1,2), of now nid addr st inc] by (auto simp: r i1_def s1_def)
  have le: "i \<le> i1" and lt: "nid = mt_local_id t \<and> (st = Suspect \<or> st = Dead) \<longrightarrow> inc < i1"
    using Cons.prems(3) word_less_inc [of inc] by (auto simp: r i1_def intro: order.strict_implies_order le_less_trans)
  have step: "merge now (r # rs) t = merge now rs ?t" by (simp add: merge_def)
  from Cons.IH [OF table_inv_ops(6) [OF Cons.prems(1)] v1] Cons.prems(3)
  obtain i' s' where IH: "view (merge now rs ?t) (mt_local_id t) = Some (i', s')" "i1 \<le> i'"
    "\<forall>(nid, addr, st, inc)\<in>set rs. nid = mt_local_id t \<and> (st = Suspect \<or> st = Dead) \<longrightarrow> inc < i'"
    "s' = s1 \<or> s' = Alive"
    by auto
  have "\<forall>(nid, addr, st, inc)\<in>set (r # rs). nid = mt_local_id t \<and> (st = Suspect \<or> st = Dead) \<longrightarrow> inc < i'"
    using IH(2,3) lt r by (auto intro: less_le_trans)
  moreover have "i \<le> i'" "s' = s \<or> s' = Alive" using le IH(2,4) by (auto simp: s1_def split: if_splits)
  ultimately show ?case using IH(1) step by auto
qed

lemma local_ok_merge_entry [wf_intros]:
  assumes "table_inv t" "local_ok t"
  shows "local_ok (merge_entry now r t)"
proof -
  obtain nid addr st inc where r: "r = (nid, addr, st, inc)" by (cases r) auto
  show ?thesis
    using assms refute_entry [OF assms(1), of _ _ now nid addr st inc] by (auto simp: local_ok_view r)
qed

lemma local_ok_merge [wf_intros]: "table_inv t \<Longrightarrow> local_ok t \<Longrightarrow> local_ok (merge now rs t)"
  unfolding merge_def by (induction rs arbitrary: t) (auto intro: local_ok_merge_entry table_inv_ops)

end
