(* ===== verification/Gossip_Protocol.thy ===== *)
theory Gossip_Protocol
  imports Gossip_State
begin

text \<open>
  The gossip protocol of a node: the sending side with its failure detector,
  \<^verbatim>\<open>crates/node/src/gossip/protocol.rs\<close>, and the receiving side, \<^verbatim>\<open>crates/node/src/gossip/server.rs\<close>. The network
  is a function argument that answers a message or fails; the random choice of peers, the clock readings
  and the identifiers drawn by \<^verbatim>\<open>NodeId::new()\<close> for unreadable entries are arguments too.
\<close>

definition GOSSIP_INTERVAL :: duration where "GOSSIP_INTERVAL = 1000 * nanos_per_milli"
definition SUSPECT_TIMEOUT :: duration where "SUSPECT_TIMEOUT = 3 * nanos_per_sec"
definition DEAD_TIMEOUT :: duration where "DEAD_TIMEOUT = 5 * nanos_per_sec"

section \<open>Messages\<close>

fun status_to_proto :: "member_status \<Rightarrow> proto_status" where
  "status_to_proto Alive = ProtoAlive"
| "status_to_proto Suspect = ProtoSuspect"
| "status_to_proto Dead = ProtoDead"
| "status_to_proto Joining = ProtoJoining"

definition build_gossip_message :: "externs \<Rightarrow> instant \<Rightarrow> membership_table \<Rightarrow> gossip_message" where
  "build_gossip_message ext now t =
     \<lparr>gm_members =
        map (\<lambda>e. \<lparr>pm_node_id = display_node_id ext (ni_id (me_info e)),
                  pm_addr = ni_addr (me_info e),
                  pm_status = proto_status_i32 (status_to_proto (me_status e)),
                  pm_incarnation = me_incarnation e,
                  pm_last_seen_ms = as_millis_u64 (now - me_last_seen e)\<rparr>) (all_members t),
      gm_sender_id = display_node_id ext (mt_local_id t)\<rparr>"

definition decode_status :: "int \<Rightarrow> member_status" where
  "decode_status n =
     (case proto_status_try_from n of
        Some ProtoAlive \<Rightarrow> Alive
      | Some ProtoSuspect \<Rightarrow> Suspect
      | Some ProtoDead \<Rightarrow> Dead
      | Some ProtoJoining \<Rightarrow> Joining
      | None \<Rightarrow> Alive)"

text \<open>\<^verbatim>\<open>fresh\<close> is the identifier \<^verbatim>\<open>NodeId::new()\<close> draws when the entry's own does not parse.\<close>
definition decode_member :: "externs \<Rightarrow> node_id \<Rightarrow> proto_member \<Rightarrow> remote_entry" where
  "decode_member ext fresh m =
     ((case parse_node_id ext (pm_node_id m) of Some nid \<Rightarrow> nid | None \<Rightarrow> fresh),
      pm_addr m, decode_status (pm_status m), pm_incarnation m)"

definition decode_members :: "externs \<Rightarrow> (nat \<Rightarrow> node_id) \<Rightarrow> proto_member list \<Rightarrow> remote_entry list" where
  "decode_members ext fresh ms = map (\<lambda>(i, m). decode_member ext (fresh i) m) (enumerate 0 ms)"

definition process_gossip_response ::
  "externs \<Rightarrow> instant \<Rightarrow> (nat \<Rightarrow> node_id) \<Rightarrow> gossip_message \<Rightarrow> membership_table \<Rightarrow> membership_table" where
  "process_gossip_response ext now fresh response t = merge now (decode_members ext fresh (gm_members response)) t"

text \<open>The server side: merge, note that the sender was heard, answer with the local view.\<close>
definition gossip_exchange ::
  "externs \<Rightarrow> instant \<Rightarrow> (nat \<Rightarrow> node_id) \<Rightarrow> gossip_message \<Rightarrow> membership_table \<Rightarrow> gossip_message \<times> membership_table" where
  "gossip_exchange ext now fresh msg t =
     (let t1 = merge now (decode_members ext fresh (gm_members msg)) t;
          t2 = (case parse_node_id ext (gm_sender_id msg) of Some sid \<Rightarrow> touch now sid t1 | None \<Rightarrow> t1)
      in (build_gossip_message ext now t2, t2))"

section \<open>Gossip rounds\<close>

text \<open>
  \<^verbatim>\<open>send_gossip\<close>: the address must be a valid URI, a server must accept the connection, and the call must succeed. The
  network gives for an address the server that listens there, if any.
\<close>
type_synonym gossip_net = "addr \<rightharpoonup> (gossip_message \<Rightarrow> gossip_message option)"

definition send_gossip :: "externs \<Rightarrow> gossip_net \<Rightarrow> addr \<Rightarrow> gossip_message \<Rightarrow> gossip_message option" where
  "send_gossip ext net a msg =
     (if \<not> uri_ok ext (''http://'' @ a) then None
      else case net a of None \<Rightarrow> None | Some call \<Rightarrow> call msg)"

text \<open>
  The loop over the chosen peers. Target number \<open>i\<close> is sent to at \<open>clk (2 * i)\<close> and, if it answers, its
  answer is handled at \<open>clk (2 * i + 1)\<close>.
\<close>
fun gossip_targets ::
  "externs \<Rightarrow> (nat \<Rightarrow> nat \<Rightarrow> node_id) \<Rightarrow> (nat \<Rightarrow> instant) \<Rightarrow> (nat \<Rightarrow> addr \<Rightarrow> gossip_message \<Rightarrow> gossip_message option)
   \<Rightarrow> nat \<Rightarrow> member_entry list \<Rightarrow> membership_table \<Rightarrow> membership_table" where
  "gossip_targets ext fresh clk send i [] t = t"
| "gossip_targets ext fresh clk send i (target # targets) t =
     (let msg = build_gossip_message ext (clk (2 * i)) t;
          t' = (case send i (ni_addr (me_info target)) msg of
                  Some response \<Rightarrow>
                    process_gossip_response ext (clk (2 * i + 1)) (fresh i) response
                      (touch (clk (2 * i + 1)) (ni_id (me_info target)) t)
                | None \<Rightarrow> t)
      in gossip_targets ext fresh clk send (i + 1) targets t')"

definition gossip_round ::
  "externs \<Rightarrow> (nat \<Rightarrow> nat \<Rightarrow> node_id) \<Rightarrow> (nat \<Rightarrow> instant) \<Rightarrow> (nat \<Rightarrow> addr \<Rightarrow> gossip_message \<Rightarrow> gossip_message option)
   \<Rightarrow> (member_entry list \<Rightarrow> member_entry list) \<Rightarrow> membership_table \<Rightarrow> membership_table" where
  "gossip_round ext fresh clk send pick t =
     (let peers = alive_peers t
      in if peers = [] then t else gossip_targets ext fresh clk send 0 (pick peers) t)"

section \<open>Failure detection\<close>

definition check_member :: "instant \<Rightarrow> node_id \<Rightarrow> member_entry \<Rightarrow> membership_table \<Rightarrow> membership_table" where
  "check_member now local_id m t =
     (if ni_id (me_info m) = local_id then t
      else let elapsed = now - me_last_seen m in
        (case me_status m of
           Alive \<Rightarrow> if SUSPECT_TIMEOUT < elapsed then snd (mark_suspect (ni_id (me_info m)) t) else t
         | Joining \<Rightarrow> if SUSPECT_TIMEOUT < elapsed then snd (mark_suspect (ni_id (me_info m)) t) else t
         | Suspect \<Rightarrow> if DEAD_TIMEOUT < elapsed then snd (mark_dead (ni_id (me_info m)) t) else t
         | Dead \<Rightarrow> t))"

text \<open>The snapshot is taken once; every member of it is then checked.\<close>
definition check_timeouts :: "instant \<Rightarrow> node_id \<Rightarrow> membership_table \<Rightarrow> membership_table" where
  "check_timeouts now local_id t = fold (check_member now local_id) (all_members t) t"

text \<open>One iteration of the main loop of \<^verbatim>\<open>run\<close>.\<close>
definition gossip_tick ::
  "externs \<Rightarrow> (nat \<Rightarrow> nat \<Rightarrow> node_id) \<Rightarrow> (nat \<Rightarrow> instant) \<Rightarrow> (nat \<Rightarrow> addr \<Rightarrow> gossip_message \<Rightarrow> gossip_message option)
   \<Rightarrow> (member_entry list \<Rightarrow> member_entry list) \<Rightarrow> instant \<Rightarrow> node_id \<Rightarrow> membership_table \<Rightarrow> membership_table" where
  "gossip_tick ext fresh clk send pick now local_id t =
     check_timeouts now local_id (gossip_round ext fresh clk send pick t)"

section \<open>What a message carries\<close>

definition entry_of :: "member_entry \<Rightarrow> remote_entry" where
  "entry_of e = (ni_id (me_info e), ni_addr (me_info e), me_status e, me_incarnation e)"

lemma fst_entry_of [simp]: "fst (entry_of e) = ni_id (me_info e)"
  by (simp add: entry_of_def)

lemma entry_view_entry_of [simp]: "entry_view (entry_of e) = Some (me_incarnation e, me_status e)"
  by (simp add: entry_of_def entry_view_def)

lemma decode_status_encode [simp]: "decode_status (proto_status_i32 (status_to_proto s)) = s"
  by (cases s) (simp_all add: decode_status_def proto_status_try_from_def)

lemma decode_build:
  assumes "uuid_roundtrip ext"
  shows "decode_members ext fresh (gm_members (build_gossip_message ext now t)) = map entry_of (all_members t)"
proof (rule nth_equalityI)
  fix i
  assume "i < length (decode_members ext fresh (gm_members (build_gossip_message ext now t)))"
  then have "i < length (all_members t)" by (simp add: decode_members_def build_gossip_message_def)
  then show "decode_members ext fresh (gm_members (build_gossip_message ext now t)) ! i = map entry_of (all_members t) ! i"
    using parse_display_node_id [OF assms]
    by (simp add: decode_members_def build_gossip_message_def nth_enumerate_eq decode_member_def entry_of_def)
qed (simp add: decode_members_def build_gossip_message_def)

lemma all_members_claims:
  assumes "table_inv t"
  shows "gossip.claims (map entry_of (all_members t)) k = (case view t k of None \<Rightarrow> {} | Some c \<Rightarrow> {Some c})"
proof -
  have members: "set (all_members t) = {e. hm_get (mt_members t) (ni_id (me_info e)) = Some e}"
  proof -
    have inv: "hm_invar (mt_members t)" using assms by (simp add: table_inv_def)
    have "e \<in> set (all_members t) \<longleftrightarrow> (\<exists>nid. hm_get (mt_members t) nid = Some e)" for e
      unfolding hm.get_entries [OF inv] all_members_def by force
    then show ?thesis using table_invD [OF assms] by auto
  qed
  have about: "{e \<in> set (all_members t). ni_id (me_info e) = k} = {e. hm_get (mt_members t) k = Some e}"
    unfolding members using table_invD [OF assms, of k] by (intro set_eqI) (simp, blast)
  have "gossip.claims (map entry_of ms) k = (\<lambda>e. Some (me_incarnation e, me_status e)) ` {e \<in> set ms. ni_id (me_info e) = k}" for ms
    by (induction ms) (auto simp: gossip.claims_Nil gossip.claims_Cons)
  then show ?thesis by (auto simp: about view_def split: option.split)
qed

text \<open>Merging another node's whole table: the maximum of the two views, member by member.\<close>
lemma view_merge_table:
  assumes "table_inv t" "table_inv u" "k \<noteq> mt_local_id t"
  shows "view (merge now (map entry_of (all_members u)) t) k = max (view t k) (view u k)"
  using gossip.view_fold [OF assms(1,3), of now "map entry_of (all_members u)"] all_members_claims [OF assms(2), of k]
  by (auto simp: merge_def max_def less_eq_option_def split: option.splits)

lemma gossip_exchange_inv [wf_intros]: "table_inv t \<Longrightarrow> table_inv (snd (gossip_exchange ext now fresh msg t))"
  by (auto simp: gossip_exchange_def Let_def intro: table_inv_ops table_inv_merge split: option.split)

lemma gossip_exchange_view:
  "table_inv t \<Longrightarrow> view (snd (gossip_exchange ext now fresh msg t)) = view (merge now (decode_members ext fresh (gm_members msg)) t)"
  by (auto simp: gossip_exchange_def Let_def view_touch table_inv_merge split: option.split)

section \<open>What the failure detector does to a member\<close>

definition timed_out :: "instant \<Rightarrow> node_id \<Rightarrow> member_entry \<Rightarrow> member_entry" where
  "timed_out now l e =
     (if ni_id (me_info e) = l then e
      else if me_status e = Alive \<and> SUSPECT_TIMEOUT < now - me_last_seen e then e\<lparr>me_status := Suspect\<rparr>
      else if me_status e = Suspect \<and> DEAD_TIMEOUT < now - me_last_seen e then e\<lparr>me_status := Dead\<rparr>
      else e)"

lemma check_member_get:
  assumes inv: "table_inv t" and m: "hm_get (mt_members t) (ni_id (me_info m)) = Some m"
  shows "hm_get (mt_members (check_member now l m t)) = (hm_get (mt_members t))(ni_id (me_info m) \<mapsto> timed_out now l m)"
    and "table_inv (check_member now l m t)" and "mt_local_id (check_member now l m t) = mt_local_id t"
proof -
  have same: "(hm_get (mt_members t))(ni_id (me_info m) \<mapsto> m) = hm_get (mt_members t)"
    using m by (simp add: fun_upd_idem)
  show "hm_get (mt_members (check_member now l m t)) = (hm_get (mt_members t))(ni_id (me_info m) \<mapsto> timed_out now l m)"
    using m same
    by (cases "me_status m")
      (auto simp: check_member_def timed_out_def mark_suspect_def mark_dead_def put_member_def [symmetric]
         put_member_get [OF inv] Let_def)
  show "table_inv (check_member now l m t)" and "mt_local_id (check_member now l m t) = mt_local_id t"
    using inv by (auto simp: check_member_def Let_def intro: table_inv_ops split: member_status.split)
qed

lemma check_members_get:
  assumes "table_inv t" "distinct (map (ni_id \<circ> me_info) ms)"
    and "\<forall>m\<in>set ms. hm_get (mt_members t) (ni_id (me_info m)) = Some m"
  shows "hm_get (mt_members (fold (check_member now l) ms t)) nid
         = map_option (\<lambda>e. if e \<in> set ms then timed_out now l e else e) (hm_get (mt_members t) nid)
         \<and> table_inv (fold (check_member now l) ms t)
         \<and> mt_local_id (fold (check_member now l) ms t) = mt_local_id t"
  using assms
proof (induction ms arbitrary: t)
  case Nil
  then show ?case by (simp add: option.map_ident)
next
  case (Cons m ms)
  let ?t = "check_member now l m t"
  have m: "hm_get (mt_members t) (ni_id (me_info m)) = Some m" using Cons.prems(3) by simp
  note step = check_member_get [OF Cons.prems(1) m, of now l]
  have other: "\<forall>e\<in>set ms. ni_id (me_info e) \<noteq> ni_id (me_info m)" using Cons.prems(2) by (simp add: image_iff) metis
  then have rest: "\<forall>e\<in>set ms. hm_get (mt_members ?t) (ni_id (me_info e)) = Some e"
    using Cons.prems(3) step(1) by simp
  note IH = Cons.IH [OF step(2) _ rest]
  have "timed_out now l m \<notin> set ms"
    using other by (auto simp: timed_out_def)
  moreover have "hm_get (mt_members t) nid = Some e \<Longrightarrow> nid \<noteq> ni_id (me_info m) \<Longrightarrow> e \<noteq> m" for e
    using table_invD [OF Cons.prems(1)] by auto
  ultimately show ?case
    using IH Cons.prems(2) m by (cases "nid = ni_id (me_info m)"; cases "hm_get (mt_members t) nid") (auto simp: step)
qed

lemma all_members_get:
  assumes "table_inv t"
  shows "distinct (map (ni_id \<circ> me_info) (all_members t))"
    and "\<forall>m\<in>set (all_members t). hm_get (mt_members t) (ni_id (me_info m)) = Some m"
    and "hm_get (mt_members t) nid = Some e \<Longrightarrow> e \<in> set (all_members t)"
proof -
  have inv: "hm_invar (mt_members t)" using assms by (simp add: table_inv_def)
  have ids: "ni_id (me_info (snd p)) = fst p" if "p \<in> set (mt_members t)" for p
    using that table_invD [OF assms, of "fst p" "snd p"] by (simp add: hm.get_entries [OF inv])
  then have "map (ni_id \<circ> me_info) (all_members t) = map fst (mt_members t)"
    by (simp add: all_members_def)
  then show "distinct (map (ni_id \<circ> me_info) (all_members t))" using inv by (simp add: hm_invar_def)
  show "\<forall>m\<in>set (all_members t). hm_get (mt_members t) (ni_id (me_info m)) = Some m"
    using ids by (auto simp: all_members_def hm.get_entries [OF inv])
  show "hm_get (mt_members t) nid = Some e \<Longrightarrow> e \<in> set (all_members t)"
    by (force simp: all_members_def hm.get_entries [OF inv])
qed

lemma check_timeouts_get:
  assumes "table_inv t"
  shows "hm_get (mt_members (check_timeouts now l t)) nid = map_option (timed_out now l) (hm_get (mt_members t) nid)"
    and "table_inv (check_timeouts now l t)" and "mt_local_id (check_timeouts now l t) = mt_local_id t"
proof -
  note checked = check_members_get [OF assms all_members_get(1,2) [OF assms], of now l nid]
  show "hm_get (mt_members (check_timeouts now l t)) nid = map_option (timed_out now l) (hm_get (mt_members t) nid)"
    using checked all_members_get(3) [OF assms, of nid]
    by (cases "hm_get (mt_members t) nid") (simp_all add: check_timeouts_def)
  show "table_inv (check_timeouts now l t)" and "mt_local_id (check_timeouts now l t) = mt_local_id t"
    using checked by (simp_all add: check_timeouts_def)
qed

lemma check_timeouts_local: "table_inv t \<Longrightarrow> l = mt_local_id t \<Longrightarrow> view (check_timeouts now l t) l = view t l"
  using table_invD [of t l]
  by (cases "hm_get (mt_members t) l") (auto simp: view_def check_timeouts_get timed_out_def)

lemma check_timeouts_mono: "table_inv t \<Longrightarrow> view t nid \<le> view (check_timeouts now l t) nid"
  by (cases "hm_get (mt_members t) nid")
    (auto simp: view_def check_timeouts_get timed_out_def less_eq_member_status_def less_eq_prod_def)

section \<open>The life of a membership table\<close>

text \<open>
  Everything that can happen to a node's table: remote state is merged (from an exchange it started or
  answered), a peer is heard, the failure detector runs, and a rebalance completes.
\<close>

inductive gossip_step :: "membership_table \<Rightarrow> membership_table \<Rightarrow> bool" where
  merged: "gossip_step t (merge now rs t)"
| heard: "gossip_step t (touch now nid t)"
| checked: "gossip_step t (check_timeouts now (mt_local_id t) t)"
| rebalanced: "gossip_step t (mark_self_alive t)"

inductive table_reachable :: "node_id \<Rightarrow> node_info list \<Rightarrow> membership_table \<Rightarrow> bool" for l seeds where
  started: "table_reachable l seeds (table_new now l seeds)"
| stepped: "table_reachable l seeds t \<Longrightarrow> gossip_step t t' \<Longrightarrow> table_reachable l seeds t'"

inductive_cases gossip_stepE: "gossip_step t t'"

lemma gossip_step_local_id: "gossip_step t t' \<Longrightarrow> table_inv t \<Longrightarrow> mt_local_id t' = mt_local_id t"
  by (auto elim!: gossip_stepE simp: check_timeouts_get)

lemma gossip_step_inv: "gossip_step t t' \<Longrightarrow> table_inv t \<Longrightarrow> table_inv t'"
  by (auto elim!: gossip_stepE simp: check_timeouts_get intro: table_inv_merge table_inv_ops)

lemma gossip_step_local_ok:
  assumes "gossip_step t t'" "table_inv t" "local_ok t"
  shows "local_ok t'"
  using assms(1)
proof (cases rule: gossip_step.cases)
  case (merged now rs)
  then show ?thesis using assms by (simp add: local_ok_merge)
next
  case (heard now nid)
  then show ?thesis using assms by (simp add: local_ok_view view_touch)
next
  case (checked now)
  then show ?thesis using assms by (simp add: local_ok_view check_timeouts_local check_timeouts_get)
next
  case rebalanced
  then show ?thesis using assms by (auto simp: local_ok_view view_mark_self_alive)
qed

text \<open>No step forgets a member, and the view of a peer only grows.\<close>
lemma gossip_step_mono:
  assumes "gossip_step t t'" "table_inv t" "nid \<noteq> mt_local_id t"
  shows "view t nid \<le> view t' nid"
  using assms(1)
proof (cases rule: gossip_step.cases)
  case (merged now rs)
  then show ?thesis using gossip.view_fold_mono [OF assms(2,3)] by (simp add: merge_def)
next
  case (heard now nid)
  then show ?thesis using assms by (simp add: view_touch)
next
  case (checked now)
  then show ?thesis using check_timeouts_mono [OF assms(2)] by simp
next
  case rebalanced
  then show ?thesis using assms by (simp add: view_mark_self_alive)
qed

lemma table_reachable_inv:
  "table_reachable l seeds t \<Longrightarrow> table_inv t \<and> local_ok t \<and> mt_local_id t = l"
  by (induction rule: table_reachable.induct)
    (auto intro: table_inv_new local_ok_new gossip_step_inv gossip_step_local_ok simp: gossip_step_local_id)

section \<open>The code's operations are runs of the step relation\<close>

lemma exchange_steps: "table_reachable l seeds t \<Longrightarrow> table_reachable l seeds (snd (gossip_exchange ext now fresh msg t))"
  by (auto simp: gossip_exchange_def Let_def intro: table_reachable.stepped gossip_step.intros split: option.split)

lemma targets_steps:
  "table_reachable l seeds t \<Longrightarrow> table_reachable l seeds (gossip_targets ext fresh clk send i ts t)"
proof (induction ts arbitrary: i t)
  case (Cons target ts)
  have "table_reachable l seeds (process_gossip_response ext now' fr msg (touch now nid t))" for now now' fr nid msg
    unfolding process_gossip_response_def
    by (rule table_reachable.stepped [OF table_reachable.stepped [OF Cons.prems gossip_step.heard] gossip_step.merged])
  then show ?case using Cons by (auto simp: Let_def split: option.split)
qed simp

lemma tick_steps:
  assumes "table_reachable l seeds t"
  shows "table_reachable l seeds (gossip_tick ext fresh clk send pick now l t)"
proof -
  have round: "table_reachable l seeds (gossip_round ext fresh clk send pick t)"
    using assms by (simp add: gossip_round_def Let_def targets_steps)
  then have "mt_local_id (gossip_round ext fresh clk send pick t) = l" using table_reachable_inv by blast
  then show ?thesis using table_reachable.stepped [OF round gossip_step.checked [of _ now]] by (simp add: gossip_tick_def)
qed

section \<open>Properties\<close>

text \<open>C15: what a node knows of its peers after merging gossip does not depend on the order of the entries, on
  repetitions, or on when they arrived: it is the greatest claim made, by incarnation first and by status
  (Joining, Alive, Suspect, Dead) second.\<close>
theorem merge_order_independent:
  assumes "table_inv t" "k \<noteq> mt_local_id t" "set rs = set rs'"
  shows "view (merge now rs t) k = view (merge now' rs' t) k
    \<and> view (merge now' rs' (merge now rs t)) k = view (merge now rs t) k
    \<and> view (merge now rs t) k = Max (insert (view t k) {Some (inc, st) |addr st inc. (k, addr, st, inc) \<in> set rs})"
proof -
  have claims: "gossip.claims es k = {Some (inc, st) |addr st inc. (k, addr, st, inc) \<in> set es}" for es
    by (force simp: gossip.claims_def entry_view_def)
  have "view (merge now rs t) k = Max (insert (view t k) {Some (inc, st) |addr st inc. (k, addr, st, inc) \<in> set rs})" for rs now
    using gossip.view_fold [OF assms(1,2), of now rs] by (simp add: merge_def claims)
  moreover have "view (merge now' rs' (merge now rs t)) k = view (merge now rs t) k"
  proof -
    have inv: "table_inv (merge now rs t)" using assms(1) by (rule table_inv_merge)
    have "gossip.claims rs' k = gossip.claims rs k" using assms(3) by (simp add: claims)
    then have "view (merge now' rs' (merge now rs t)) k = Max (insert (view (merge now rs t) k) (gossip.claims rs k))"
      using gossip.view_fold [OF inv, of k now' rs'] assms(2) by (simp add: merge_def [symmetric])
    moreover have "\<forall>c\<in>gossip.claims rs k. c \<le> view (merge now rs t) k"
      using gossip.view_fold [OF assms(1,2), of now rs] gossip.finite_claims [of rs k] by (simp add: merge_def)
    ultimately show ?thesis using gossip.finite_claims [of rs k] by (simp add: Max_insert2)
  qed
  ultimately show ?thesis using assms(3) by simp
qed

theorem merge_order_independent_witness:
  "view (merge 1 [(NodeId 2, ''a'', Suspect, 3), (NodeId 2, ''a'', Alive, 4)] (table_new 0 (NodeId 1) [])) (NodeId 2)
   = view (merge 9 [(NodeId 2, ''a'', Alive, 4), (NodeId 2, ''a'', Suspect, 3)] (table_new 0 (NodeId 1) [])) (NodeId 2)"
proof -
  have "mt_local_id (table_new 0 (NodeId 1) []) = NodeId 1" by (simp add: table_new_def)
  then show ?thesis
    using merge_order_independent [OF table_inv_new, of "NodeId 2" 0 "NodeId 1" "[]"
        "[(NodeId 2, ''a'', Suspect, 3), (NodeId 2, ''a'', Alive, 4)]" "[(NodeId 2, ''a'', Alive, 4), (NodeId 2, ''a'', Suspect, 3)]" 1 9]
    by (simp add: insert_commute)
qed

text \<open>One push-pull exchange makes two nodes agree on every third node: the initiator sends its table, the
  responder merges it and answers, the initiator merges the answer, and both then hold the greater of the
  two views (for \<^verbatim>\<open>uuid\<close> printing and parsing that round-trip).\<close>
theorem exchange_converges:
  assumes "uuid_roundtrip ext" "table_inv a" "table_inv b" "k \<noteq> mt_local_id a" "k \<noteq> mt_local_id b"
    and "gossip_exchange ext now1 fresh (build_gossip_message ext now0 a) b = (response, b')"
  shows "view b' k = max (view a k) (view b k)
    \<and> view (process_gossip_response ext now2 fresh' response (touch now2 (mt_local_id b) a)) k = max (view a k) (view b k)"
proof -
  have resp: "response = build_gossip_message ext now1 b'" and b': "b' = snd (gossip_exchange ext now1 fresh (build_gossip_message ext now0 a) b)"
    using assms(6) by (auto simp: gossip_exchange_def Let_def)
  have inv: "table_inv b'" unfolding b' using assms(3) by (rule gossip_exchange_inv)
  have vb: "view b' k = max (view a k) (view b k)"
    unfolding b' gossip_exchange_view [OF assms(3)] decode_build [OF assms(1)]
    using view_merge_table [OF assms(3,2,5)] by (simp add: max.commute)
  let ?a = "touch now2 (mt_local_id b) a"
  have "table_inv ?a" "view ?a = view a" using assms(2) by (simp_all add: table_inv_ops view_touch)
  then have "view (process_gossip_response ext now2 fresh' response ?a) k = max (view a k) (view b' k)"
    unfolding process_gossip_response_def resp decode_build [OF assms(1)] using view_merge_table [of ?a b' k] inv assms(4) by simp
  then show ?thesis using vb by simp
qed

theorem exchange_converges_witness:
  "view (snd (gossip_exchange demo_ext 2 (\<lambda>_. NodeId 9) (build_gossip_message demo_ext 1 (table_new 0 (NodeId 1) [\<lparr>ni_id = NodeId 3, ni_addr = ''c''\<rparr>]))
          (table_new 0 (NodeId 2) []))) (NodeId 3) = Some (0, Alive)"
proof -
  let ?a = "table_new 0 (NodeId 1) [\<lparr>ni_id = NodeId 3, ni_addr = ''c''\<rparr>]" and ?b = "table_new 0 (NodeId 2) []"
  have "view ?a (NodeId 3) = Some (0, Alive)" "view ?b (NodeId 3) = None" "mt_local_id ?a = NodeId 1" "mt_local_id ?b = NodeId 2"
    by code_simp+
  then show ?thesis
    using exchange_converges [OF demo_ext_roundtrip table_inv_new table_inv_new, of "NodeId 3" 0 "NodeId 1" "[\<lparr>ni_id = NodeId 3, ni_addr = ''c''\<rparr>]"
        0 "NodeId 2" "[]" 2 "\<lambda>_. NodeId 9" 1]
    by (cases "gossip_exchange demo_ext 2 (\<lambda>_. NodeId 9) (build_gossip_message demo_ext 1 ?a) ?b") simp
qed



text \<open>The refutation computes the new incarnation in 64 bits: an accusation at the largest incarnation makes the node
  fall back to incarnation zero, and the accuser's view of it cannot change any more.\<close>
theorem refutation_wraps_around:
  assumes "table_inv t" "table_inv u" "mt_local_id t \<noteq> mt_local_id u" "st = Suspect \<or> st = Dead"
    and "view u (mt_local_id t) = Some (- 1, st)"
  shows "view (merge now1 [(mt_local_id t, addr, st, - 1)] t) (mt_local_id t) = Some (0, Alive)
    \<and> view (merge now2 [(mt_local_id t, addr, Alive, 0)] u) (mt_local_id t) = Some (- 1, st)"
proof -
  obtain i s where v: "view t (mt_local_id t) = Some (i, s)" using local_view_Some [OF assms(1)] by blast
  have "view (merge now1 [(mt_local_id t, addr, st, - 1)] t) (mt_local_id t) = Some (0, Alive)"
    using refute_entry [OF assms(1) v, of now1 "mt_local_id t" addr st "- 1"] assms(4) word_order.extremum [of i] by (simp add: merge_def)
  moreover have "max (Some (- 1 :: u64, st)) (Some (0, Alive)) = Some (- 1, st)"
    by (simp add: max_def less_eq_prod_def)
  ultimately show ?thesis
    using view_merge_peer [OF assms(2), of "mt_local_id t" now2 addr Alive 0] assms(3,5) by (simp add: merge_def)
qed

theorem refutation_wraps_around_witness:
  "view (merge 1 [(NodeId 1, ''a'', Dead, - 1)] (table_new 0 (NodeId 1) [])) (NodeId 1) = Some (0, Alive)"
proof -
  let ?u = "merge 1 [(NodeId 1, ''a'', Dead, - 1)] (table_new 0 (NodeId 2) [])"
  have "view ?u (NodeId 1) = Some (- 1, Dead)" "mt_local_id (table_new 0 (NodeId 1) []) = NodeId 1" "mt_local_id ?u = NodeId 2" by code_simp+
  then show ?thesis
    using refutation_wraps_around [OF table_inv_new table_inv_merge [OF table_inv_new], of 0 "NodeId 1" "[]" 1 "[(NodeId 1, ''a'', Dead, - 1)]" 0 "NodeId 2" "[]" Dead 1 "''a''"]
    by simp
qed

text \<open>C21: in every state a node's membership table can reach, through its own gossip ticks, exchanges it answers, and
  the completion of a rebalance, the node lists itself, as Alive or Joining, never as Suspect or Dead.\<close>
theorem never_suspects_itself:
  assumes "table_reachable l seeds t"
  shows "table_reachable l seeds (gossip_tick ext fresh clk send pick now l t)
    \<and> table_reachable l seeds (snd (gossip_exchange ext now fresh' msg t))
    \<and> (\<exists>e. hm_get (mt_members t) l = Some e \<and> ni_id (me_info e) = l \<and> (me_status e = Alive \<or> me_status e = Joining))
    \<and> l \<notin> set (dead_nodes t)"
proof -
  have inv: "table_inv t" "local_ok t" "mt_local_id t = l" using table_reachable_inv [OF assms] by auto
  then obtain e where e: "hm_get (mt_members t) l = Some e" "me_status e = Alive \<or> me_status e = Joining"
    by (auto simp: local_ok_def split: option.splits)
  have "hm_invar (mt_members t)" using inv(1) by (simp add: table_inv_def)
  then have "l \<notin> set (dead_nodes t)"
    using e by (auto simp: dead_nodes_def hm.get_entries [symmetric])
  then show ?thesis using e table_invD [OF inv(1) e(1)] tick_steps [OF assms] exchange_steps [OF assms] by blast
qed

theorem never_suspects_itself_witness: "NodeId 1 \<notin> set (dead_nodes (table_new 0 (NodeId 1) []))"
  using never_suspects_itself [OF table_reachable.started [of "NodeId 1" "[]" 0], of demo_ext "\<lambda>_ _. NodeId 0" "\<lambda>_. 0" "\<lambda>_ _ _. None" id 0 "\<lambda>_. NodeId 0" "\<lparr>gm_members = [], gm_sender_id = []\<rparr>"]
  by simp

text \<open>C26: along any run a node's view of a peer only grows: the peer is never forgotten, its incarnation never goes
  back, and a peer seen Dead comes back only with a higher incarnation.\<close>
theorem peer_view_only_grows:
  assumes "gossip_step\<^sup>*\<^sup>* t t'" "table_inv t" "nid \<noteq> mt_local_id t" "view t nid = Some (inc, st)"
  shows "\<exists>inc' st'. view t' nid = Some (inc', st') \<and> inc \<le> inc' \<and> (st = Dead \<and> st' \<noteq> Dead \<longrightarrow> inc < inc')"
proof -
  have "table_inv t' \<and> mt_local_id t' = mt_local_id t \<and> view t nid \<le> view t' nid"
    using assms(1)
  proof (induction rule: rtranclp_induct)
    case base
    then show ?case using assms(2) by simp
  next
    case (step t1 t2)
    then show ?case
      using gossip_step_inv [OF step(2)] gossip_step_local_id [OF step(2)] gossip_step_mono [OF step(2), of nid] assms(3)
      by (auto intro: order.trans)
  qed
  then have le: "Some (inc, st) \<le> view t' nid" using assms(4) by simp
  then obtain inc' st' where v: "view t' nid = Some (inc', st')" by (cases "view t' nid") auto
  have "st' = Dead" if "Dead \<le> st'" using that by (cases st') (simp_all add: less_eq_member_status_def)
  then show ?thesis using le v by (auto simp: less_eq_prod_def)
qed

theorem peer_view_only_grows_witness:
  "\<exists>inc' st'. view (touch 5 (NodeId 2) (table_new 0 (NodeId 1) [\<lparr>ni_id = NodeId 2, ni_addr = ''b''\<rparr>])) (NodeId 2) = Some (inc', st')"
proof -
  let ?t = "table_new 0 (NodeId 1) [\<lparr>ni_id = NodeId 2, ni_addr = ''b''\<rparr>]"
  have "view ?t (NodeId 2) = Some (0, Alive)" "mt_local_id ?t = NodeId 1" by code_simp+
  moreover have "gossip_step\<^sup>*\<^sup>* ?t (touch 5 (NodeId 2) ?t)" by (blast intro: gossip_step.heard)
  ultimately show ?thesis
    using peer_view_only_grows [of ?t "touch 5 (NodeId 2) ?t" "NodeId 2" 0 Alive] table_inv_new by auto
qed

text \<open>The failure detector suspects an alive peer exactly when it has not been heard for more than three seconds,
  declares a suspect dead exactly after more than five, one stage per pass, and leaves every other entry,
  Joining ones included, and the node's own alone.\<close>
theorem failure_detector_stages:
  assumes "table_inv t" "hm_get (mt_members t) nid = Some e" "l = mt_local_id t" "nid \<noteq> l"
  shows "view (check_timeouts now l t) nid =
    Some (me_incarnation e,
          if me_status e = Alive \<and> 3 * nanos_per_sec < now - me_last_seen e then Suspect
          else if me_status e = Suspect \<and> 5 * nanos_per_sec < now - me_last_seen e then Dead
          else me_status e)
    \<and> view (check_timeouts now l t) l = view t l
    \<and> (me_status e = Alive \<and> 5 * nanos_per_sec < now - me_last_seen e \<longrightarrow>
         view (check_timeouts now l (check_timeouts now l t)) nid = Some (me_incarnation e, Dead))"
proof -
  have id: "ni_id (me_info e) = nid" using table_invD [OF assms(1,2)] .
  have one: "hm_get (mt_members (check_timeouts now l t)) nid = Some (timed_out now l e)"
    using check_timeouts_get(1) [OF assms(1), of now l nid] assms(2) by simp
  have two: "hm_get (mt_members (check_timeouts now l (check_timeouts now l t))) nid = Some (timed_out now l (timed_out now l e))"
    using check_timeouts_get(1) [OF check_timeouts_get(2) [OF assms(1)], of now l now l nid] one by simp
  have "view (check_timeouts now l t) l = view t l" using check_timeouts_local [OF assms(1,3)] .
  moreover have "SUSPECT_TIMEOUT < d" if "5 * nanos_per_sec < d" for d
    using that by (simp add: SUSPECT_TIMEOUT_def nanos_per_sec_def)
  ultimately show ?thesis
    using one two id assms(4) by (auto simp: view_def timed_out_def SUSPECT_TIMEOUT_def DEAD_TIMEOUT_def)
qed

theorem failure_detector_stages_witness:
  "view (check_timeouts (4 * nanos_per_sec) (NodeId 1) (table_new 0 (NodeId 1) [\<lparr>ni_id = NodeId 2, ni_addr = ''b''\<rparr>])) (NodeId 2) = Some (0, Suspect)"
proof -
  let ?t = "table_new 0 (NodeId 1) [\<lparr>ni_id = NodeId 2, ni_addr = ''b''\<rparr>]"
  have "hm_get (mt_members ?t) (NodeId 2) = Some (seed_entry 0 \<lparr>ni_id = NodeId 2, ni_addr = ''b''\<rparr>)" "mt_local_id ?t = NodeId 1"
    by code_simp+
  then show ?thesis
    using failure_detector_stages [OF table_inv_new, of 0 "NodeId 1" "[\<lparr>ni_id = NodeId 2, ni_addr = ''b''\<rparr>]" "NodeId 2" "seed_entry 0 \<lparr>ni_id = NodeId 2, ni_addr = ''b''\<rparr>" "NodeId 1" "4 * nanos_per_sec"]
    by (simp add: seed_entry_def nanos_per_sec_def)
qed

text \<open>A peer that is Joining is never suspected, however long it has been silent: the detector asks for it, but
  \<^verbatim>\<open>mark_suspect\<close> acts on Alive entries only.\<close>
lemma joining_peer_never_suspected:
  assumes "table_inv t" "view t nid = Some (inc, Joining)"
  shows "view (check_timeouts now l t) nid = Some (inc, Joining)"
  using assms by (cases "hm_get (mt_members t) nid") (auto simp: view_def check_timeouts_get(1) timed_out_def)

end
