(* ===== verification/Node_Service.thy ===== *)
theory Node_Service
  imports Cache_Store Gossip_Protocol
begin

text \<open>
  The gRPC service of a node, \<^verbatim>\<open>crates/node/src/grpc/service.rs\<close>. The state is what \<^verbatim>\<open>main\<close> shares between the
  node's tasks: the store, the membership table and the set of tombstones. While the node is joining,
  writes are refused and deletes are remembered. A method answers with a status or a response; the panic
  of an unrepresentable deadline is the outer sum.
\<close>

record node_state =
  ns_store :: cache_store
  ns_table :: membership_table
  ns_tombstones :: "bytes list"

type_synonym 'a reply = "status + 'a"

text \<open>\<^verbatim>\<open>DashSet::insert\<close>.\<close>
definition tomb_insert :: "bytes \<Rightarrow> bytes list \<Rightarrow> bytes list" where
  "tomb_insert k ks = (if k \<in> set ks then ks else ks @ [k])"

text \<open>
  The seed list of \<^verbatim>\<open>main\<close>: split at commas, drop empty pieces, then trim; every seed gets a fresh identifier
  (\<open>fresh i\<close> is what \<^verbatim>\<open>NodeId::new()\<close> draws for seed \<open>i\<close>).
\<close>
definition seed_addrs :: "bytes \<Rightarrow> addr list" where
  "seed_addrs arg = map trim (filter (\<lambda>s. s \<noteq> []) (split_on (CHR '','') arg))"

definition seed_nodes :: "(nat \<Rightarrow> node_id) \<Rightarrow> bytes \<Rightarrow> node_info list" where
  "seed_nodes fresh arg = map (\<lambda>(i, a). \<lparr>ni_id = fresh i, ni_addr = a\<rparr>) (enumerate 0 (seed_addrs arg))"

text \<open>The shared state of a node that has just started with these seeds.\<close>
definition node_new :: "instant \<Rightarrow> node_id \<Rightarrow> node_info list \<Rightarrow> node_state" where
  "node_new now nid seeds = \<lparr>ns_store = store_new now, ns_table = table_new now nid seeds, ns_tombstones = []\<rparr>"

definition node_set :: "instant \<Rightarrow> set_request \<Rightarrow> node_state \<Rightarrow> (set_response reply \<times> node_state) run" where
  "node_set now req s =
     (if is_self_joining (ns_table s) then Inr (Inl (Status Unavailable ''node is joining''), s)
      else and_then (store_set now (sr_key req) (sr_value req) (map_option from_millis (sr_ttl_ms req)) (ns_store s))
             (\<lambda>st. Inr (Inr \<lparr>sresp_success = True\<rparr>, s\<lparr>ns_store := st\<rparr>)))"

definition node_get :: "instant \<Rightarrow> bytes \<Rightarrow> node_state \<Rightarrow> get_response reply \<times> node_state" where
  "node_get now key s =
     (case store_get now key (ns_store s) of
        (Some v, st) \<Rightarrow> (Inr \<lparr>gr_value = Some v, gr_found = True\<rparr>, s\<lparr>ns_store := st\<rparr>)
      | (None, st) \<Rightarrow> (Inr \<lparr>gr_value = None, gr_found = False\<rparr>, s\<lparr>ns_store := st\<rparr>))"

definition node_delete :: "bytes \<Rightarrow> node_state \<Rightarrow> delete_response reply \<times> node_state" where
  "node_delete key s =
     (if is_self_joining (ns_table s)
      then (Inl (Status Unavailable ''node is joining''),
            s\<lparr>ns_tombstones := tomb_insert key (ns_tombstones s), ns_store := snd (store_delete key (ns_store s))\<rparr>)
      else (case store_delete key (ns_store s) of
              (deleted, st) \<Rightarrow> (Inr \<lparr>dr_deleted = deleted\<rparr>, s\<lparr>ns_store := st\<rparr>)))"

definition node_heartbeat :: "node_state \<Rightarrow> heartbeat_response reply \<times> node_state" where
  "node_heartbeat s = (Inr \<lparr>hr_ok = True\<rparr>, s)"

definition replicate_write :: "instant \<Rightarrow> replicate_request \<Rightarrow> node_state \<Rightarrow> (replicate_response reply \<times> node_state) run" where
  "replicate_write now req s =
     and_then (store_set now (rr_key req) (rr_value req) (map_option from_millis (rr_ttl_ms req)) (ns_store s))
       (\<lambda>st. Inr (Inr \<lparr>rresp_success = True\<rparr>, s\<lparr>ns_store := st\<rparr>))"

text \<open>The chunks the spawned task sends, in order; the receiver may stop listening after any of them.\<close>
definition transfer_keys :: "instant \<Rightarrow> node_state \<Rightarrow> transfer_chunk list" where
  "transfer_keys now s =
     map (\<lambda>(k, v, ms). \<lparr>tc_key = k, tc_value = v, tc_expires_at_ms = ms\<rparr>) (entries_for_transfer now (ns_store s))"

section \<open>Invariant and behaviour\<close>

definition node_inv :: "node_state \<Rightarrow> bool" where
  "node_inv s \<longleftrightarrow> store_inv (ns_store s) \<and> table_inv (ns_table s) \<and> distinct (ns_tombstones s)"

lemma set_tomb_insert [simp]: "set (tomb_insert k ks) = insert k (set ks)"
  by (auto simp: tomb_insert_def)

lemma distinct_tomb_insert [simp]: "distinct ks \<Longrightarrow> distinct (tomb_insert k ks)"
  by (simp add: tomb_insert_def)

lemma node_inv_new [wf_intros]: "node_inv (node_new now nid seeds)"
  by (simp add: node_inv_def node_new_def table_inv_new)

lemma node_get_state: "snd (node_get now key s) = s\<lparr>ns_store := snd (store_get now key (ns_store s))\<rparr>"
  by (simp add: node_get_def split: prod.split option.split)

lemma node_inv_ops [wf_intros]:
  assumes "node_inv s"
  shows "node_inv (snd (node_get now key s))" "node_inv (snd (node_delete key s))"
    "node_set now req s = Inr (r, s') \<Longrightarrow> node_inv s'"
    "replicate_write now rreq s = Inr (rr, s') \<Longrightarrow> node_inv s'"
proof -
  have inv: "store_inv (ns_store s)" using assms by (simp add: node_inv_def)
  show "node_inv (snd (node_get now key s))"
    using assms store_inv_get [OF inv, of now key]
    by (simp add: node_inv_def node_get_state)
  show "node_inv (snd (node_delete key s))"
    using assms by (simp add: node_inv_def node_delete_def case_prod_unfold)
  show "node_set now req s = Inr (r, s') \<Longrightarrow> node_inv s'" "replicate_write now rreq s = Inr (rr, s') \<Longrightarrow> node_inv s'"
    using assms store_inv_set [OF inv]
    by (auto simp: node_inv_def node_set_def replicate_write_def and_then_Inr_conv split: if_splits)
qed

text \<open>A millisecond deadline always fits the clock, so the two write methods never panic in practice.\<close>
lemma store_set_millis:
  assumes "now < 2 ^ 62 * nanos_per_sec"
  shows "store_set now k v (map_option from_millis ttl) st
         = Inr (put_entry k v (map_option (\<lambda>ms. now + from_millis ms) ttl) st)"
  using instant_add_millis [OF assms] by (cases ttl) (simp_all add: store_set_def instant_add_def)

lemma node_set_alive:
  assumes "\<not> is_self_joining (ns_table s)" "now < 2 ^ 62 * nanos_per_sec"
  shows "node_set now req s
    = Inr (Inr \<lparr>sresp_success = True\<rparr>,
           s\<lparr>ns_store := put_entry (sr_key req) (sr_value req) (map_option (\<lambda>ms. now + from_millis ms) (sr_ttl_ms req)) (ns_store s)\<rparr>)"
  using assms by (simp add: node_set_def store_set_millis)

lemma node_get_result:
  "fst (node_get now key s) =
     Inr (case visible (ns_store s) now key of
            Some (v, e) \<Rightarrow> \<lparr>gr_value = Some v, gr_found = True\<rparr>
          | None \<Rightarrow> \<lparr>gr_value = None, gr_found = False\<rparr>)"
  using store_get_result [of now key "ns_store s"]
  by (auto simp: node_get_def split: prod.split option.splits)

lemma node_get_visible:
  "node_inv s \<Longrightarrow> now \<le> t \<Longrightarrow> visible (ns_store (snd (node_get now key s))) t = visible (ns_store s) t"
  using cs.look_read [of "ns_store s" now t key] by (simp add: node_inv_def node_get_state)

lemma node_delete_store:
  "ns_store (snd (node_delete key s)) = snd (store_delete key (ns_store s))"
  "ns_table (snd (node_delete key s)) = ns_table s"
  by (auto simp: node_delete_def split: prod.split)

lemma node_get_table [simp]: "ns_table (snd (node_get now key s)) = ns_table s"
  "ns_tombstones (snd (node_get now key s)) = ns_tombstones s"
  by (simp_all add: node_get_state)

lemma transfer_keys_chunk:
  assumes "store_inv (ns_store s)"
  shows "\<lparr>tc_key = k, tc_value = v, tc_expires_at_ms = ms\<rparr> \<in> set (transfer_keys now s) \<longleftrightarrow>
     (\<exists>e. visible (ns_store s) now k = Some (v, e) \<and> ms = map_option (\<lambda>e. as_millis_u64 (e - now)) e)"
proof -
  have "\<lparr>tc_key = k, tc_value = v, tc_expires_at_ms = ms\<rparr> \<in> set (transfer_keys now s)
        \<longleftrightarrow> (k, v, ms) \<in> set (entries_for_transfer now (ns_store s))"
    by (force simp: transfer_keys_def)
  then show ?thesis using entries_for_transfer_visible [OF assms, of k v ms now] by (rule trans)
qed

lemma transfer_keys_distinct:
  assumes "store_inv (ns_store s)"
  shows "distinct (map tc_key (transfer_keys now s))"
proof -
  have "map tc_key (transfer_keys now s) = map fst (entries_for_transfer now (ns_store s))"
    by (simp add: transfer_keys_def case_prod_unfold)
  then show ?thesis using entries_for_transfer_keys [OF assms] by simp
qed

section \<open>Starting a node\<close>

lemma seed_addrs_join:
  "list_all (\<lambda>a. a \<noteq> [] \<and> list_all graphic a \<and> CHR '','' \<notin> set a) addrs \<Longrightarrow> addrs \<noteq> [] \<Longrightarrow>
     seed_addrs (concat (map (\<lambda>a. a @ '','') (butlast addrs)) @ last addrs) = addrs"
proof (induction addrs)
  case (Cons a addrs)
  show ?case
  proof (cases "addrs = []")
    case True
    then show ?thesis using Cons.prems by (simp add: seed_addrs_def split_on_single trim_graphic)
  next
    case False
    then show ?thesis using Cons by (simp add: seed_addrs_def split_on_append trim_graphic)
  qed
qed simp

text \<open>A blank between commas is not an empty piece: it becomes a seed with an empty address.\<close>
lemma seed_addrs_blank: "seed_addrs ''a:1, ,b:2'' = [''a:1'', [], ''b:2'']"
proof -
  have "split_on (CHR '','') ''a:1, ,b:2'' = [''a:1'', '' '', ''b:2'']" by simp
  moreover have "list_all graphic ''a:1''" "list_all graphic ''b:2''" by (simp_all add: graphic_def)
  ultimately show ?thesis by (simp add: seed_addrs_def trim_graphic trim_blank)
qed

text \<open>A node with seeds starts in the Joining state and refuses writes until its rebalance is complete.\<close>
lemma node_with_seeds_joins:
  assumes "seed_addrs arg \<noteq> []"
  shows "is_self_joining (ns_table (node_new now nid (seed_nodes fresh arg)))"
    and "node_set now' req (node_new now nid (seed_nodes fresh arg))
         = Inr (Inl (Status Unavailable ''node is joining''), node_new now nid (seed_nodes fresh arg))"
proof -
  have "seed_nodes fresh arg \<noteq> []" using assms by (simp add: seed_nodes_def enumerate_eq_zip)
  then show "is_self_joining (ns_table (node_new now nid (seed_nodes fresh arg)))"
    using table_new_get_local [of now nid "seed_nodes fresh arg"]
    by (simp add: is_self_joining_def node_new_def)
  then show "node_set now' req (node_new now nid (seed_nodes fresh arg))
         = Inr (Inl (Status Unavailable ''node is joining''), node_new now nid (seed_nodes fresh arg))"
    by (simp add: node_set_def)
qed

end
