(* ===== verification/Resp_Codec.thy ===== *)
theory Resp_Codec
  imports Common_Types
begin

text \<open>
  The RESP2 wire format: the incremental parser, \<^verbatim>\<open>crates/node/src/resp/parser.rs\<close>, and the encoder,
  \<^verbatim>\<open>crates/node/src/resp/encoder.rs\<close>. \<open>cap\<close> is the largest element count for which
  \<^verbatim>\<open>Vec::<RespValue>::with_capacity\<close> succeeds; beyond it the parser panics. Shown here: the parser
  terminates and consumes at least three and at most the given bytes, its verdict does not change when
  more bytes arrive, and it reads back what the encoder wrote, leaving the rest of the buffer alone.
\<close>

datatype resp_value =
    SimpleString bytes
  | RespError bytes
  | RespInteger int
  | BulkString bytes
  | RespNull
  | RespArray "resp_value list"

datatype parse_result =
    Complete resp_value nat
  | Incomplete
  | ParseError bytes

abbreviation CR :: char where "CR \<equiv> CHR 0x0D"
abbreviation LF :: char where "LF \<equiv> CHR 0x0A"
abbreviation CRLF :: bytes where "CRLF \<equiv> [CR, LF]"

section \<open>Lines\<close>

text \<open>The loop \<^verbatim>\<open>for i in offset..buf.len() - 1\<close>.\<close>
function find_crlf_from :: "bytes \<Rightarrow> nat \<Rightarrow> nat option" where
  "find_crlf_from buf i =
     (if i + 1 < length buf then
        (if buf ! i = CR \<and> buf ! (i + 1) = LF then Some i else find_crlf_from buf (i + 1))
      else None)"
  by pat_completeness auto
termination
  by (relation "measure (\<lambda>(buf, i). length buf - i)") auto

declare find_crlf_from.simps [simp del]

definition find_crlf :: "bytes \<Rightarrow> nat \<Rightarrow> nat option" where
  "find_crlf buf offset = (if length buf < offset + 2 then None else find_crlf_from buf offset)"

definition read_line :: "bytes \<Rightarrow> nat \<Rightarrow> (bytes \<times> nat) option" where
  "read_line buf offset =
     (case find_crlf buf offset of
        None \<Rightarrow> None
      | Some cr \<Rightarrow> Some (take (cr - offset) (drop offset buf), cr + 2))"

lemma find_crlf_from_Some:
  "find_crlf_from buf i = Some j \<Longrightarrow> i \<le> j \<and> j + 1 < length buf \<and> buf ! j = CR \<and> buf ! (j + 1) = LF"
proof (induction buf i rule: find_crlf_from.induct)
  case (1 buf i)
  then show ?case by (auto simp: find_crlf_from.simps [of buf i] split: if_splits)
qed

lemma read_line_bounds: "read_line buf offset = Some (line, next) \<Longrightarrow> offset + 2 \<le> next \<and> next \<le> length buf"
  by (auto simp: read_line_def find_crlf_def dest: find_crlf_from_Some split: option.splits if_splits)

section \<open>The parser\<close>

definition hex_digit :: "nat \<Rightarrow> char" where
  "hex_digit d = (if d < 10 then char_of (48 + d) else char_of (87 + d))"

text \<open>\<^verbatim>\<open>{:02x}\<close>.\<close>
definition hex2 :: "char \<Rightarrow> bytes" where
  "hex2 c = [hex_digit (of_char c div 16), hex_digit (of_char c mod 16)]"

definition parse_simple_string :: "bytes \<Rightarrow> parse_result" where
  "parse_simple_string buf =
     (case read_line buf 1 of
        Some (line, next) \<Rightarrow>
          (case from_utf8 line of
             Inr s \<Rightarrow> Complete (SimpleString s) next
           | Inl e \<Rightarrow> ParseError (''invalid UTF-8 in simple string: '' @ utf8_error_display e))
      | None \<Rightarrow> Incomplete)"

definition parse_error :: "bytes \<Rightarrow> parse_result" where
  "parse_error buf =
     (case read_line buf 1 of
        Some (line, next) \<Rightarrow>
          (case from_utf8 line of
             Inr s \<Rightarrow> Complete (RespError s) next
           | Inl e \<Rightarrow> ParseError (''invalid UTF-8 in error: '' @ utf8_error_display e))
      | None \<Rightarrow> Incomplete)"

definition parse_integer :: "bytes \<Rightarrow> parse_result" where
  "parse_integer buf =
     (case read_line buf 1 of
        Some (line, next) \<Rightarrow>
          (case from_utf8 line of
             Inr s \<Rightarrow> (case parse_i64 s of
                         Inr n \<Rightarrow> Complete (RespInteger n) next
                       | Inl e \<Rightarrow> ParseError (''invalid integer: '' @ int_error_display e))
           | Inl e \<Rightarrow> ParseError (''invalid UTF-8 in integer: '' @ utf8_error_display e))
      | None \<Rightarrow> Incomplete)"

definition parse_bulk_string :: "bytes \<Rightarrow> parse_result" where
  "parse_bulk_string buf =
     (case read_line buf 1 of
        None \<Rightarrow> Incomplete
      | Some (len_line, after_len) \<Rightarrow>
          (case from_utf8 len_line of
             Inl e \<Rightarrow> ParseError (''invalid UTF-8 in bulk string length: '' @ utf8_error_display e)
           | Inr len_str \<Rightarrow>
               (case parse_i64 len_str of
                  Inl e \<Rightarrow> ParseError (''invalid bulk string length: '' @ int_error_display e)
                | Inr len \<Rightarrow>
                    if len < 0 then Complete RespNull after_len
                    else let data_end = after_len + nat len; total_end = data_end + 2 in
                      if length buf < total_end then Incomplete
                      else if buf ! data_end \<noteq> CR \<or> buf ! (data_end + 1) \<noteq> LF
                      then ParseError ''bulk string not terminated by CRLF''
                      else Complete (BulkString (take (nat len) (drop after_len buf))) total_end)))"

function parse_resp :: "nat \<Rightarrow> bytes \<Rightarrow> parse_result run"
  and parse_array :: "nat \<Rightarrow> bytes \<Rightarrow> parse_result run"
  and parse_items :: "nat \<Rightarrow> bytes \<Rightarrow> nat \<Rightarrow> nat \<Rightarrow> resp_value list \<Rightarrow> parse_result run"
where
  "parse_resp cap buf =
     (if buf = [] then Inr Incomplete
      else if hd buf = CHR ''+'' then Inr (parse_simple_string buf)
      else if hd buf = CHR ''-'' then Inr (parse_error buf)
      else if hd buf = CHR '':'' then Inr (parse_integer buf)
      else if hd buf = CHR ''$'' then Inr (parse_bulk_string buf)
      else if hd buf = CHR ''*'' then parse_array cap buf
      else Inr (ParseError (''unexpected byte: 0x'' @ hex2 (hd buf))))"
| "parse_array cap buf =
     (case read_line buf 1 of
        None \<Rightarrow> Inr Incomplete
      | Some (count_line, after_count) \<Rightarrow>
          (case from_utf8 count_line of
             Inl e \<Rightarrow> Inr (ParseError (''invalid UTF-8 in array count: '' @ utf8_error_display e))
           | Inr count_str \<Rightarrow>
               (case parse_i64 count_str of
                  Inl e \<Rightarrow> Inr (ParseError (''invalid array count: '' @ int_error_display e))
                | Inr count \<Rightarrow>
                    if count < 0 then Inr (Complete RespNull after_count)
                    else if cap < nat count then Inl CapacityOverflow
                    else parse_items cap buf after_count (nat count) [])))"
| "parse_items cap buf offset count items =
     (if count = 0 then Inr (Complete (RespArray items) offset)
      else (case parse_resp cap (drop offset buf) of
              Inl p \<Rightarrow> Inl p
            | Inr (Complete val consumed) \<Rightarrow> parse_items cap buf (offset + consumed) (count - 1) (items @ [val])
            | Inr Incomplete \<Rightarrow> Inr Incomplete
            | Inr (ParseError e) \<Rightarrow> Inr (ParseError e)))"
  by pat_completeness auto
termination
proof (relation "measures [\<lambda>x. case x of Inl (cap, buf) \<Rightarrow> length buf
                                | Inr (Inl (cap, buf)) \<Rightarrow> length buf
                                | Inr (Inr (cap, buf, offset, count, items)) \<Rightarrow> length buf - offset,
                          \<lambda>x. case x of Inl _ \<Rightarrow> 1 | Inr (Inl _) \<Rightarrow> 0
                                | Inr (Inr (cap, buf, offset, count, items)) \<Rightarrow> count + 2]")
qed (auto dest: read_line_bounds)

declare parse_resp.simps [simp del] parse_array.simps [simp del] parse_items.simps [simp del]

section \<open>The encoder\<close>

definition encode_simple_string :: "bytes \<Rightarrow> bytes" where
  "encode_simple_string s = ''+'' @ s @ CRLF"

definition encode_error :: "bytes \<Rightarrow> bytes" where
  "encode_error msg = ''-'' @ msg @ CRLF"

definition encode_integer :: "int \<Rightarrow> bytes" where
  "encode_integer n = '':'' @ dec_int n @ CRLF"

definition encode_bulk_string :: "bytes \<Rightarrow> bytes" where
  "encode_bulk_string data = ''$'' @ dec_nat (length data) @ CRLF @ data @ CRLF"

definition encode_null :: bytes where
  "encode_null = ''$-1'' @ CRLF"

fun encode_array :: "resp_value list \<Rightarrow> bytes"
  and encode_item :: "resp_value \<Rightarrow> bytes" where
  "encode_array items = ''*'' @ dec_nat (length items) @ CRLF @ concat (map encode_item items)"
| "encode_item (SimpleString s) = encode_simple_string s"
| "encode_item (RespError e) = encode_error e"
| "encode_item (RespInteger n) = encode_integer n"
| "encode_item (BulkString d) = encode_bulk_string d"
| "encode_item RespNull = encode_null"
| "encode_item (RespArray inner) = encode_array inner"

declare encode_array.simps [simp del]

section \<open>Consumption\<close>

lemmas scalar_parser_defs = parse_simple_string_def parse_error_def parse_integer_def parse_bulk_string_def

lemma scalar_consumed:
  "parse_simple_string buf = Complete v n \<Longrightarrow> 3 \<le> n \<and> n \<le> length buf"
  "parse_error buf = Complete v n \<Longrightarrow> 3 \<le> n \<and> n \<le> length buf"
  "parse_integer buf = Complete v n \<Longrightarrow> 3 \<le> n \<and> n \<le> length buf"
  "parse_bulk_string buf = Complete v n \<Longrightarrow> 3 \<le> n \<and> n \<le> length buf"
  by (auto simp: scalar_parser_defs Let_def dest!: read_line_bounds split: option.splits sum.splits if_splits)

lemma parse_consumed:
  "parse_resp cap buf = Inr (Complete v n) \<Longrightarrow> 3 \<le> n \<and> n \<le> length buf"
  "parse_array cap buf = Inr (Complete v n) \<Longrightarrow> 3 \<le> n \<and> n \<le> length buf"
  "parse_items cap buf offset count items = Inr (Complete v n) \<Longrightarrow> offset \<le> length buf \<Longrightarrow> offset \<le> n \<and> n \<le> length buf"
proof (induction cap buf and cap buf and cap buf offset count items arbitrary: v n and v n and v n
         rule: parse_resp_parse_array_parse_items.induct)
  case (1 cap buf)
  then show ?case
    by (auto simp: parse_resp.simps [of cap buf] dest: scalar_consumed split: if_splits)
next
  case (2 cap buf)
  then show ?case
    by (fastforce simp: parse_array.simps [of cap buf] dest: read_line_bounds split: option.splits sum.splits if_splits)
next
  case (3 cap buf offset count items)
  show ?case
  proof (cases "count = 0")
    case True
    then show ?thesis using 3 by (simp add: parse_items.simps)
  next
    case False
    then obtain val k where item: "parse_resp cap (drop offset buf) = Inr (Complete val k)"
      and rest: "parse_items cap buf (offset + k) (count - 1) (items @ [val]) = Inr (Complete v n)"
      using "3.prems"(1) by (auto simp: parse_items.simps [of cap buf offset] split: sum.splits parse_result.splits)
    have "k \<le> length buf - offset" using "3.IH"(1) [OF False item] by simp
    then show ?thesis
      using "3.IH"(2) [OF False item refl rest] "3.prems"(2) by linarith
  qed
qed

section \<open>More bytes do not change a verdict\<close>

lemma find_crlf_from_append:
  "find_crlf_from buf i = Some j \<Longrightarrow> find_crlf_from (buf @ late) i = Some j"
proof (induction buf i rule: find_crlf_from.induct)
  case (1 buf i)
  then have "i + 1 < length buf" by (auto simp: find_crlf_from.simps [of buf i] split: if_splits)
  then show ?case
    using 1 by (auto simp: find_crlf_from.simps [of buf i] find_crlf_from.simps [of "buf @ late" i] nth_append)
qed

lemma read_line_append:
  assumes "read_line buf offset = Some r"
  shows "read_line (buf @ late) offset = Some r"
proof -
  obtain cr where cr: "find_crlf_from buf offset = Some cr" "\<not> length buf < offset + 2"
    and r: "r = (take (cr - offset) (drop offset buf), cr + 2)"
    using assms by (auto simp: read_line_def find_crlf_def split: option.splits if_splits)
  have "offset \<le> cr" "cr + 1 < length buf" using find_crlf_from_Some [OF cr(1)] by auto
  then show ?thesis
    using cr r find_crlf_from_append [OF cr(1), of late] by (simp add: read_line_def find_crlf_def)
qed

lemma scalar_append:
  "parse_simple_string buf \<noteq> Incomplete \<Longrightarrow> parse_simple_string (buf @ late) = parse_simple_string buf"
  "parse_error buf \<noteq> Incomplete \<Longrightarrow> parse_error (buf @ late) = parse_error buf"
  "parse_integer buf \<noteq> Incomplete \<Longrightarrow> parse_integer (buf @ late) = parse_integer buf"
  by (auto simp: scalar_parser_defs dest: read_line_append [where late = late] split: option.splits)

lemma bulk_append:
  assumes "parse_bulk_string buf \<noteq> Incomplete"
  shows "parse_bulk_string (buf @ late) = parse_bulk_string buf"
proof -
  obtain line a where line: "read_line buf 1 = Some (line, a)"
    using assms by (auto simp: parse_bulk_string_def split: option.splits)
  have "a \<le> length buf" using read_line_bounds [OF line] by simp
  then show ?thesis
    using assms line read_line_append [OF line, of late]
    by (auto simp: parse_bulk_string_def Let_def nth_append split: sum.splits if_splits)
qed

lemma parse_append:
  "parse_resp cap buf \<noteq> Inr Incomplete \<Longrightarrow> parse_resp cap (buf @ late) = parse_resp cap buf"
  "parse_array cap buf \<noteq> Inr Incomplete \<Longrightarrow> parse_array cap (buf @ late) = parse_array cap buf"
  "parse_items cap buf offset count items \<noteq> Inr Incomplete \<Longrightarrow> offset \<le> length buf \<Longrightarrow>
     parse_items cap (buf @ late) offset count items = parse_items cap buf offset count items"
proof (induction cap buf and cap buf and cap buf offset count items
         rule: parse_resp_parse_array_parse_items.induct)
  case (1 cap buf)
  have "buf \<noteq> []" using "1.prems" by (auto simp: parse_resp.simps)
  then show ?case
    using 1 scalar_append [of buf late] bulk_append [of buf late]
    by (auto simp: parse_resp.simps [of cap buf] parse_resp.simps [of cap "buf @ late"] split: if_splits)
next
  case (2 cap buf)
  obtain line a where line: "read_line buf 1 = Some (line, a)"
    using "2.prems" by (auto simp: parse_array.simps [of cap buf] split: option.splits)
  note unfold = parse_array.simps [of cap buf] parse_array.simps [of cap "buf @ late"]
    line [unfolded One_nat_def] read_line_append [OF line, of late, unfolded One_nat_def]
  show ?case
  proof (cases "from_utf8 line")
    case (Inl e)
    then show ?thesis by (simp add: unfold)
  next
    case str: (Inr str)
    show ?thesis
    proof (cases "parse_i64 str")
      case (Inl e)
      then show ?thesis using str by (simp add: unfold)
    next
      case (Inr n)
      then show ?thesis
        using "2.IH" [OF line refl str Inr] "2.prems" str read_line_bounds [OF line] by (auto simp: unfold)
    qed
  qed
next
  case (3 cap buf offset count items)
  show ?case
  proof (cases "count = 0")
    case True
    then show ?thesis by (simp add: parse_items.simps)
  next
    case False
    have "parse_resp cap (drop offset buf) \<noteq> Inr Incomplete"
      using False "3.prems"(1) by (auto simp: parse_items.simps [of cap buf offset])
    then have same: "parse_resp cap (drop offset (buf @ late)) = parse_resp cap (drop offset buf)"
      using "3.IH"(1) [OF False] "3.prems"(2) by simp
    show ?thesis
    proof (cases "parse_resp cap (drop offset buf)")
      case (Inr r)
      then show ?thesis
      proof (cases r)
        case (Complete val k)
        have "offset + k \<le> length buf"
          using parse_consumed(1) [OF Inr [unfolded Complete]] "3.prems"(2) by (simp, linarith)
        then show ?thesis
          using "3.IH"(2) [OF False Inr Complete] "3.prems" False same Inr Complete
          by (simp add: parse_items.simps [of cap buf offset] parse_items.simps [of cap "buf @ late" offset])
      qed (use False same Inr in \<open>simp_all add: parse_items.simps [of cap buf offset] parse_items.simps [of cap "buf @ late" offset]\<close>)
    qed (use False same in \<open>simp add: parse_items.simps [of cap buf offset] parse_items.simps [of cap "buf @ late" offset]\<close>)
  qed
qed

section \<open>Reading back what was written\<close>

fun no_crlf :: "bytes \<Rightarrow> bool" where
  "no_crlf (a # b # s) = (\<not> (a = CR \<and> b = LF) \<and> no_crlf (b # s))"
| "no_crlf _ = True"

lemma no_cr_no_crlf: "CR \<notin> set s \<Longrightarrow> no_crlf s"
  by (induction s rule: no_crlf.induct) auto

text \<open>The first line break after a text without one is the one that terminates it.\<close>
lemma find_crlf_from_line:
  "no_crlf line \<Longrightarrow> find_crlf_from (pre @ line @ CRLF @ rest) (length pre) = Some (length pre + length line)"
proof (induction line arbitrary: pre)
  case Nil
  then show ?case by (subst find_crlf_from.simps) (simp add: nth_append)
next
  case (Cons c line)
  have tail: "no_crlf line" using Cons.prems by (cases line) auto
  have stop: "\<not> (c = CR \<and> (line @ CRLF @ rest) ! 0 = LF)" using Cons.prems by (cases line) auto
  have "find_crlf_from ((pre @ [c]) @ line @ CRLF @ rest) (length (pre @ [c])) = Some (length (pre @ [c]) + length line)"
    by (rule Cons.IH [OF tail])
  then show ?case using stop by (subst find_crlf_from.simps) (simp add: nth_append)
qed

lemma read_line_encoded:
  assumes "no_crlf line"
  shows "read_line (c # line @ CR # LF # rest) (Suc 0) = Some (line, length line + 3)"
  using find_crlf_from_line [OF assms, of "[c]" rest] by (simp add: read_line_def find_crlf_def)

text \<open>Values the wire format can carry: text fields are UTF-8 without a line break, numbers fit.\<close>
fun resp_wf :: "nat \<Rightarrow> resp_value \<Rightarrow> bool" where
  "resp_wf cap (SimpleString s) = (utf8_valid s \<and> no_crlf s)"
| "resp_wf cap (RespError s) = (utf8_valid s \<and> no_crlf s)"
| "resp_wf cap (RespInteger n) = (i64_min \<le> n \<and> n \<le> i64_max)"
| "resp_wf cap (BulkString d) = (int (length d) \<le> i64_max)"
| "resp_wf cap RespNull = True"
| "resp_wf cap (RespArray vs) = (int (length vs) \<le> i64_max \<and> length vs \<le> cap \<and> (\<forall>v\<in>set vs. resp_wf cap v))"

lemma read_line_number: "read_line (c # dec_int n @ CR # LF # rest) (Suc 0) = Some (dec_int n, length (dec_int n) + 3)"
  by (rule read_line_encoded) (simp add: no_cr_no_crlf dec_int_no_cr)

lemma parse_text_encoded:
  assumes "utf8_valid s" "no_crlf s"
  shows "parse_resp cap (encode_simple_string s @ rest) = Inr (Complete (SimpleString s) (length (encode_simple_string s)))"
    and "parse_resp cap (encode_error s @ rest) = Inr (Complete (RespError s) (length (encode_error s)))"
  using read_line_encoded [OF assms(2)] from_utf8_valid [of s s] assms(1)
  by (simp_all add: parse_resp.simps encode_simple_string_def encode_error_def parse_simple_string_def parse_error_def)

lemma parse_integer_encoded:
  assumes "i64_min \<le> n" "n \<le> i64_max"
  shows "parse_resp cap (encode_integer n @ rest) = Inr (Complete (RespInteger n) (length (encode_integer n)))"
  using read_line_number [of _ n] parse_i64_dec_int [OF assms]
  by (simp add: parse_resp.simps encode_integer_def parse_integer_def)

lemma parse_bulk_encoded:
  assumes "int (length d) \<le> i64_max"
  shows "parse_resp cap (encode_bulk_string d @ rest) = Inr (Complete (BulkString d) (length (encode_bulk_string d)))"
proof -
  let ?n = "dec_int (int (length d))"
  let ?buf = "CHR ''$'' # ?n @ CR # LF # d @ CR # LF # rest"
  have "drop (length ?n + 3) ?buf = d @ CR # LF # rest" by (simp add: numeral_3_eq_3)
  moreover have "parse_i64 ?n = Inr (int (length d))"
    by (rule parse_i64_dec_int) (use assms in \<open>simp_all add: i64_min_def\<close>)
  ultimately have "parse_bulk_string ?buf = Complete (BulkString d) (length ?n + 3 + length d + 2)"
    using read_line_number [of "CHR ''$''" "int (length d)" "d @ CR # LF # rest"]
    by (simp add: parse_bulk_string_def Let_def nth_append)
  then show ?thesis by (simp add: parse_resp.simps encode_bulk_string_def dec_nat_as_int)
qed

lemma parse_null_encoded: "parse_resp cap (encode_null @ rest) = Inr (Complete RespNull (length encode_null))"
proof -
  have minus1: "dec_int (- 1) = ''-1''" by code_simp
  have "parse_i64 ''-1'' = Inr (- 1)" using parse_i64_dec_int [of "- 1"] by (simp add: minus1 i64_min_def i64_max_def)
  moreover have "from_utf8 ''-1'' = Inr ''-1''" using from_utf8_dec_int [of "- 1"] by (simp add: minus1)
  ultimately show ?thesis
    using read_line_number [of "CHR ''$''" "- 1" rest]
    by (simp add: parse_resp.simps encode_null_def parse_bulk_string_def minus1)
qed

text \<open>The item loop over encoded items, given that each of them parses back.\<close>
lemma parse_items_encoded:
  assumes "\<forall>v\<in>set vs. \<forall>rest. parse_resp cap (encode_item v @ rest) = Inr (Complete v (length (encode_item v)))"
  shows "parse_items cap (pre @ concat (map encode_item vs) @ rest) (length pre) (length vs) items
         = Inr (Complete (RespArray (items @ vs)) (length pre + length (concat (map encode_item vs))))"
  using assms
proof (induction vs arbitrary: pre items)
  case Nil
  then show ?case by (simp add: parse_items.simps)
next
  case (Cons v vs)
  have "parse_items cap ((pre @ encode_item v) @ concat (map encode_item vs) @ rest) (length (pre @ encode_item v)) (length vs) (items @ [v])
        = Inr (Complete (RespArray ((items @ [v]) @ vs)) (length (pre @ encode_item v) + length (concat (map encode_item vs))))"
    using Cons.prems by (intro Cons.IH) simp
  then show ?case using Cons.prems by (subst parse_items.simps) (simp add: add.assoc)
qed

lemma parse_array_encoded:
  assumes "int (length vs) \<le> i64_max" "length vs \<le> cap"
    and "\<forall>v\<in>set vs. \<forall>rest. parse_resp cap (encode_item v @ rest) = Inr (Complete v (length (encode_item v)))"
  shows "parse_resp cap (encode_array vs @ rest) = Inr (Complete (RespArray vs) (length (encode_array vs)))"
proof -
  let ?n = "dec_int (int (length vs))"
  let ?pre = "CHR ''*'' # ?n @ CRLF"
  let ?buf = "CHR ''*'' # ?n @ CR # LF # concat (map encode_item vs) @ rest"
  have num: "parse_i64 ?n = Inr (int (length vs))"
    by (rule parse_i64_dec_int) (use assms(1) in \<open>simp_all add: i64_min_def\<close>)
  have "parse_array cap ?buf = parse_items cap ?buf (length ?pre) (length vs) []"
    using read_line_number [of "CHR ''*''" "int (length vs)" "concat (map encode_item vs) @ rest"] num assms(2)
    by (simp add: parse_array.simps [of cap ?buf] numeral_3_eq_3)
  also have "\<dots> = Inr (Complete (RespArray vs) (length ?pre + length (concat (map encode_item vs))))"
    using parse_items_encoded [OF assms(3), of ?pre rest "[]"] by simp
  finally show ?thesis
    by (simp add: parse_resp.simps encode_array.simps dec_nat_as_int)
qed

lemma parse_encoded:
  "resp_wf cap v \<Longrightarrow> parse_resp cap (encode_item v @ rest) = Inr (Complete v (length (encode_item v)))"
proof (induction v arbitrary: rest)
  case (RespArray vs)
  then show ?case using parse_array_encoded [of vs cap rest] by simp
qed (simp_all add: parse_text_encoded parse_integer_encoded parse_bulk_encoded parse_null_encoded)

section \<open>Properties\<close>

text \<open>C33: a complete parse consumes at least three bytes and no more than the buffer holds, so the read loop always makes
  progress and never reads out of bounds; and bytes that arrive later do not change what was parsed.\<close>
theorem complete_parse_is_final:
  assumes "parse_resp cap buf = Inr (Complete v n)"
  shows "3 \<le> n \<and> n \<le> length buf \<and> parse_resp cap (buf @ late) = Inr (Complete v n)"
  using parse_consumed(1) [OF assms] parse_append(1) [of cap buf late] assms by simp

theorem complete_parse_is_final_witness:
  "parse_resp 8 (encode_integer 42 @ ''junk'') = Inr (Complete (RespInteger 42) (length (encode_integer 42)))"
proof -
  have "parse_resp 8 (encode_integer 42) = Inr (Complete (RespInteger 42) (length (encode_integer 42)))" by code_simp
  then show ?thesis using complete_parse_is_final [of 8 "encode_integer 42"] by simp
qed

text \<open>An array header alone can bring the connection task down: for an element count beyond what
  \<^verbatim>\<open>Vec::with_capacity\<close> can give, the parser panics before it has seen a single element.\<close>
theorem oversized_array_header_panics:
  assumes "cap < n" "int n \<le> i64_max"
  shows "parse_resp cap (''*'' @ dec_nat n @ CRLF @ rest) = Inl CapacityOverflow"
proof -
  have "parse_i64 (dec_int (int n)) = Inr (int n)"
    by (rule parse_i64_dec_int) (use assms(2) in \<open>simp_all add: i64_min_def\<close>)
  then show ?thesis
    using read_line_number [of "CHR ''*''" "int n" rest] assms(1)
    by (simp add: parse_resp.simps parse_array.simps dec_nat_as_int)
qed

theorem oversized_array_header_panics_witness: "parse_resp 1000 (''*'' @ dec_nat 4000 @ CRLF @ []) = Inl CapacityOverflow"
  by (rule oversized_array_header_panics) (simp_all add: i64_max_def)

end
