(* ===== verification/Resp_Server.thy ===== *)
theory Resp_Server
  imports Cache_Store Resp_Codec
begin

text \<open>
  The Redis-compatible server of a node, \<^verbatim>\<open>crates/node/src/resp/server.rs\<close>: command dispatch over the
  store, and the connection loop that cuts a byte stream into commands. A command takes the clock
  readings of its store calls (only TTL makes two). A connection is a list of read chunks; the store is
  shared, so \<open>others n\<close> is what other tasks did to it before the connection's command number \<open>n\<close>.

  Shown here: replies and effects of the commands in terms of the store's visible content, an error reply
  leaves the store alone, every reply is one RESP value, and the outcome of a connection does not depend
  on how the network cuts the stream, as long as the stream holds no protocol error.
\<close>

section \<open>Arguments\<close>

fun extract_str :: "resp_value \<Rightarrow> bytes option" where
  "extract_str (BulkString data) = (case from_utf8 data of Inr s \<Rightarrow> Some s | Inl _ \<Rightarrow> None)"
| "extract_str (SimpleString s) = Some s"
| "extract_str _ = None"

fun extract_bytes :: "resp_value \<Rightarrow> bytes option" where
  "extract_bytes (BulkString data) = Some data"
| "extract_bytes (SimpleString s) = Some s"
| "extract_bytes _ = None"

text \<open>\<^verbatim>\<open>extract_str(..).and_then(|s| s.parse::<u64>().ok())\<close>.\<close>
definition extract_u64 :: "resp_value \<Rightarrow> u64 option" where
  "extract_u64 v =
     (case extract_str v of
        None \<Rightarrow> None
      | Some s \<Rightarrow> (case parse_u64 s of Inr n \<Rightarrow> Some (word_of_int n) | Inl _ \<Rightarrow> None))"

section \<open>Commands\<close>

definition cmd_ping :: "resp_value list \<Rightarrow> bytes" where
  "cmd_ping args =
     (if length args = 1 then encode_simple_string ''PONG''
      else if length args = 2 then
        (case extract_bytes (args ! 1) of
           Some data \<Rightarrow> encode_bulk_string data
         | None \<Rightarrow> encode_error ''ERR invalid argument'')
      else encode_error ''ERR wrong number of arguments for 'ping' command'')"

definition cmd_echo :: "resp_value list \<Rightarrow> bytes" where
  "cmd_echo args =
     (if length args \<noteq> 2 then encode_error ''ERR wrong number of arguments for 'echo' command''
      else (case extract_bytes (args ! 1) of
              Some data \<Rightarrow> encode_bulk_string data
            | None \<Rightarrow> encode_error ''ERR invalid argument''))"

text \<open>The option loop of SET from argument \<open>i\<close> on: the list is \<^verbatim>\<open>args[i..]\<close>, an error is the reply.\<close>
fun set_options :: "resp_value list \<Rightarrow> duration option \<Rightarrow> bytes + duration option" where
  "set_options [] ttl = Inr ttl"
| "set_options (opt # rest) ttl =
     (case extract_str opt of
        None \<Rightarrow> Inl (encode_error ''ERR invalid option'')
      | Some s \<Rightarrow>
          if to_uppercase_ascii s = Some ''EX'' then
            (case rest of
               [] \<Rightarrow> Inl (encode_error ''ERR wrong number of arguments for 'set' command'')
             | arg # rest' \<Rightarrow>
                 (case extract_u64 arg of
                    None \<Rightarrow> Inl (encode_error ''ERR value is not an integer or out of range'')
                  | Some secs \<Rightarrow> set_options rest' (Some (from_secs secs))))
          else if to_uppercase_ascii s = Some ''PX'' then
            (case rest of
               [] \<Rightarrow> Inl (encode_error ''ERR wrong number of arguments for 'set' command'')
             | arg # rest' \<Rightarrow>
                 (case extract_u64 arg of
                    None \<Rightarrow> Inl (encode_error ''ERR value is not an integer or out of range'')
                  | Some ms \<Rightarrow> set_options rest' (Some (from_millis ms))))
          else Inl (encode_error ''ERR syntax error''))"

definition cmd_set :: "instant \<Rightarrow> resp_value list \<Rightarrow> cache_store \<Rightarrow> (bytes \<times> cache_store) run" where
  "cmd_set now args st =
     (if length args < 3 then Inr (encode_error ''ERR wrong number of arguments for 'set' command'', st)
      else (case extract_str (args ! 1) of
              None \<Rightarrow> Inr (encode_error ''ERR invalid key'', st)
            | Some key \<Rightarrow>
                (case extract_bytes (args ! 2) of
                   None \<Rightarrow> Inr (encode_error ''ERR invalid value'', st)
                 | Some val \<Rightarrow>
                     (case set_options (drop 3 args) None of
                        Inl reply \<Rightarrow> Inr (reply, st)
                      | Inr ttl \<Rightarrow>
                          and_then (store_set now key val ttl st)
                            (\<lambda>st'. Inr (encode_simple_string ''OK'', st'))))))"

definition cmd_get :: "instant \<Rightarrow> resp_value list \<Rightarrow> cache_store \<Rightarrow> bytes \<times> cache_store" where
  "cmd_get now args st =
     (if length args \<noteq> 2 then (encode_error ''ERR wrong number of arguments for 'get' command'', st)
      else (case extract_str (args ! 1) of
              None \<Rightarrow> (encode_error ''ERR invalid key'', st)
            | Some key \<Rightarrow>
                (case store_get now key st of
                   (Some val, st') \<Rightarrow> (encode_bulk_string val, st')
                 | (None, st') \<Rightarrow> (encode_null, st'))))"

text \<open>The loop \<^verbatim>\<open>for arg in &args[1..]\<close>, with its counter.\<close>
fun del_keys :: "resp_value list \<Rightarrow> int \<Rightarrow> cache_store \<Rightarrow> int \<times> cache_store" where
  "del_keys [] deleted st = (deleted, st)"
| "del_keys (arg # args) deleted st =
     (case extract_str arg of
        None \<Rightarrow> del_keys args deleted st
      | Some key \<Rightarrow>
          (case store_delete key st of
             (hit, st') \<Rightarrow> del_keys args (if hit then deleted + 1 else deleted) st'))"

definition cmd_del :: "resp_value list \<Rightarrow> cache_store \<Rightarrow> bytes \<times> cache_store" where
  "cmd_del args st =
     (if length args < 2 then (encode_error ''ERR wrong number of arguments for 'del' command'', st)
      else (case del_keys (drop 1 args) 0 st of (deleted, st') \<Rightarrow> (encode_integer deleted, st')))"

definition cmd_exists :: "instant \<Rightarrow> resp_value list \<Rightarrow> cache_store \<Rightarrow> bytes \<times> cache_store" where
  "cmd_exists now args st =
     (if length args \<noteq> 2 then (encode_error ''ERR wrong number of arguments for 'exists' command'', st)
      else (case extract_str (args ! 1) of
              None \<Rightarrow> (encode_error ''ERR invalid key'', st)
            | Some key \<Rightarrow>
                (case store_exists now key st of (there, st') \<Rightarrow> (encode_integer (if there then 1 else 0), st'))))"

text \<open>\<^verbatim>\<open>dur.as_secs() as i64\<close>: the \<^verbatim>\<open>u64\<close> is reinterpreted as signed.\<close>
definition as_secs_i64 :: "duration \<Rightarrow> int" where
  "as_secs_i64 d = sint (word_of_nat (as_secs d) :: u64)"

definition cmd_ttl :: "instant \<Rightarrow> instant \<Rightarrow> resp_value list \<Rightarrow> cache_store \<Rightarrow> bytes \<times> cache_store" where
  "cmd_ttl now1 now2 args st =
     (if length args \<noteq> 2 then (encode_error ''ERR wrong number of arguments for 'ttl' command'', st)
      else (case extract_str (args ! 1) of
              None \<Rightarrow> (encode_error ''ERR invalid key'', st)
            | Some key \<Rightarrow>
                (case store_exists now1 key st of
                   (there, st') \<Rightarrow>
                     if \<not> there then (encode_integer (- 2), st')
                     else (case store_ttl now2 key st' of
                             Some dur \<Rightarrow> (encode_integer (as_secs_i64 dur), st')
                           | None \<Rightarrow> (encode_integer (- 1), st')))))"

definition cmd_expire :: "instant \<Rightarrow> resp_value list \<Rightarrow> cache_store \<Rightarrow> (bytes \<times> cache_store) run" where
  "cmd_expire now args st =
     (if length args \<noteq> 3 then Inr (encode_error ''ERR wrong number of arguments for 'expire' command'', st)
      else (case extract_str (args ! 1) of
              None \<Rightarrow> Inr (encode_error ''ERR invalid key'', st)
            | Some key \<Rightarrow>
                (case extract_u64 (args ! 2) of
                   None \<Rightarrow> Inr (encode_error ''ERR value is not an integer or out of range'', st)
                 | Some secs \<Rightarrow>
                     and_then (store_expire now key (from_secs secs) st)
                       (\<lambda>(ok, st'). Inr (encode_integer (if ok then 1 else 0), st')))))"

fun handle_command :: "instant \<times> instant \<Rightarrow> resp_value \<Rightarrow> cache_store \<Rightarrow> (bytes \<times> cache_store) run" where
  "handle_command (now1, now2) (RespArray args) st =
     (if args = [] then Inr (encode_error ''ERR empty command'', st)
      else (case extract_str (args ! 0) of
              None \<Rightarrow> Inr (encode_error ''ERR invalid command'', st)
            | Some s \<Rightarrow>
                let cmd = to_uppercase_ascii s in
                if cmd = Some ''PING'' then Inr (cmd_ping args, st)
                else if cmd = Some ''ECHO'' then Inr (cmd_echo args, st)
                else if cmd = Some ''SET'' then cmd_set now1 args st
                else if cmd = Some ''GET'' then Inr (cmd_get now1 args st)
                else if cmd = Some ''DEL'' then Inr (cmd_del args st)
                else if cmd = Some ''EXISTS'' then Inr (cmd_exists now1 args st)
                else if cmd = Some ''TTL'' then Inr (cmd_ttl now1 now2 args st)
                else if cmd = Some ''EXPIRE'' then cmd_expire now1 args st
                else Inr (encode_error ''ERR unknown command'', st)))"
| "handle_command clock _ st = Inr (encode_error ''ERR expected array (RESP command)'', st)"

section \<open>Connections\<close>

record conn =
  c_buf :: bytes
  c_out :: "bytes list"
  c_done :: nat
  c_store :: cache_store

type_synonym executor = "nat \<Rightarrow> resp_value \<Rightarrow> cache_store \<Rightarrow> (bytes \<times> cache_store) run"

definition serve :: "(nat \<Rightarrow> instant \<times> instant) \<Rightarrow> (nat \<Rightarrow> cache_store \<Rightarrow> cache_store) \<Rightarrow> executor" where
  "serve clock others n v st = handle_command (clock n) v (others n st)"

text \<open>The inner loop. A panic ends the task and drops its buffer.\<close>
function process_buffer :: "nat \<Rightarrow> executor \<Rightarrow> conn \<Rightarrow> conn \<times> panic option" where
  "process_buffer cap exec c =
     (if c_buf c = [] then (c, None)
      else (case parse_resp cap (c_buf c) of
              Inl p \<Rightarrow> (c\<lparr>c_buf := []\<rparr>, Some p)
            | Inr (Complete v consumed) \<Rightarrow>
                (case exec (c_done c) v (c_store c) of
                   Inl p \<Rightarrow> (c\<lparr>c_buf := []\<rparr>, Some p)
                 | Inr (response, st) \<Rightarrow>
                     process_buffer cap exec
                       (c\<lparr>c_buf := drop consumed (c_buf c), c_out := c_out c @ [response],
                          c_done := c_done c + 1, c_store := st\<rparr>))
            | Inr Incomplete \<Rightarrow> (c, None)
            | Inr (ParseError e) \<Rightarrow>
                (c\<lparr>c_buf := [], c_out := c_out c @ [encode_error (''ERR '' @ e)]\<rparr>, None)))"
  by pat_completeness auto
termination
  by (relation "measure (\<lambda>(cap, exec, c). length (c_buf c))") (auto dest!: parse_consumed(1))

declare process_buffer.simps [simp del]

text \<open>The read loop, over what successive reads return; an empty read is the end of the stream.\<close>
fun handle_connection :: "nat \<Rightarrow> executor \<Rightarrow> bytes list \<Rightarrow> conn \<Rightarrow> conn \<times> panic option" where
  "handle_connection cap exec [] c = (c, None)"
| "handle_connection cap exec (chunk # chunks) c =
     (if chunk = [] then (c, None)
      else (case process_buffer cap exec (c\<lparr>c_buf := c_buf c @ chunk\<rparr>) of
              (c', None) \<Rightarrow> handle_connection cap exec chunks c'
            | (c', Some p) \<Rightarrow> (c', Some p)))"

section \<open>Framing\<close>

text \<open>How a stream of bytes splits into values: the values, the bytes left over, and why it stopped.\<close>
datatype frame_end = Waiting | Malformed bytes | Aborted panic

function frames :: "nat \<Rightarrow> bytes \<Rightarrow> resp_value list \<times> bytes \<times> frame_end" where
  "frames cap buf =
     (case parse_resp cap buf of
        Inl p \<Rightarrow> ([], [], Aborted p)
      | Inr (Complete v n) \<Rightarrow> (case frames cap (drop n buf) of (vs, r) \<Rightarrow> (v # vs, r))
      | Inr Incomplete \<Rightarrow> ([], buf, Waiting)
      | Inr (ParseError e) \<Rightarrow> ([], [], Malformed e))"
  by pat_completeness auto
termination
  by (relation "measure (\<lambda>(cap, buf). length buf)") (auto dest!: parse_consumed(1))

declare frames.simps [simp del]

text \<open>
  What a read loop relies on: a parser that makes progress and never revises a verdict when more bytes
  arrive, and a function that cuts a buffer into frames by repeated parsing.
\<close>
locale framed_parser =
  fixes parse :: "bytes \<Rightarrow> parse_result run"
    and cut :: "bytes \<Rightarrow> resp_value list \<times> bytes \<times> frame_end"
  assumes progress: "parse buf = Inr (Complete v n) \<Longrightarrow> 0 < n \<and> n \<le> length buf"
    and stable: "parse buf \<noteq> Inr Incomplete \<Longrightarrow> parse (buf @ late) = parse buf"
    and cut_unfold: "cut buf = (case parse buf of
        Inl p \<Rightarrow> ([], [], Aborted p)
      | Inr (Complete v n) \<Rightarrow> (case cut (drop n buf) of (vs, r) \<Rightarrow> (v # vs, r))
      | Inr Incomplete \<Rightarrow> ([], buf, Waiting)
      | Inr (ParseError e) \<Rightarrow> ([], [], Malformed e))"
begin

lemma cut_append:
  "cut (buf @ late) = (case cut buf of
     (vs, rest, Waiting) \<Rightarrow> (case cut (rest @ late) of (vs', r) \<Rightarrow> (vs @ vs', r))
   | (vs, rest, e) \<Rightarrow> (vs, rest, e))"
proof (induction buf rule: length_induct)
  case (1 buf)
  show ?case
  proof (cases "parse buf")
    case (Inl p)
    then show ?thesis using stable [of buf late] by (simp add: cut_unfold [of buf] cut_unfold [of "buf @ late"])
  next
    case (Inr r)
    show ?thesis
    proof (cases r)
      case Incomplete
      then show ?thesis using Inr by (simp add: cut_unfold [of buf] split: prod.split)
    next
      case (ParseError e)
      then show ?thesis using Inr stable [of buf late] by (simp add: cut_unfold [of buf] cut_unfold [of "buf @ late"])
    next
      case (Complete v n)
      have n: "0 < n" "n \<le> length buf" using progress [of buf v n] Inr Complete by auto
      then have "length (drop n buf) < length buf" by simp
      then have IH: "cut (drop n buf @ late) = (case cut (drop n buf) of
          (vs, rest, Waiting) \<Rightarrow> (case cut (rest @ late) of (vs', r) \<Rightarrow> (vs @ vs', r))
        | (vs, rest, e) \<Rightarrow> (vs, rest, e))"
        using 1 by blast
      show ?thesis
        using Inr Complete n IH stable [of buf late]
        by (auto simp: cut_unfold [of buf] cut_unfold [of "buf @ late"] split: prod.splits frame_end.splits)
    qed
  qed
qed

end

interpretation resp: framed_parser "parse_resp cap" "frames cap" for cap
proof
  show "0 < n \<and> n \<le> length buf" if "parse_resp cap buf = Inr (Complete v n)" for buf v n
    using parse_consumed(1) [OF that] by simp
qed (simp_all add: parse_append(1) frames.simps)

section \<open>A connection executes the frames of its stream in order\<close>

fun run_frames :: "executor \<Rightarrow> resp_value list \<Rightarrow> conn \<Rightarrow> conn \<times> panic option" where
  "run_frames exec [] c = (c, None)"
| "run_frames exec (v # vs) c =
     (case exec (c_done c) v (c_store c) of
        Inl p \<Rightarrow> (c\<lparr>c_buf := []\<rparr>, Some p)
      | Inr (response, st) \<Rightarrow>
          run_frames exec vs (c\<lparr>c_out := c_out c @ [response], c_done := c_done c + 1, c_store := st\<rparr>))"

fun finish :: "bytes \<Rightarrow> frame_end \<Rightarrow> conn \<Rightarrow> conn \<times> panic option" where
  "finish rest Waiting c = (c\<lparr>c_buf := rest\<rparr>, None)"
| "finish rest (Malformed e) c = (c\<lparr>c_buf := [], c_out := c_out c @ [encode_error (''ERR '' @ e)]\<rparr>, None)"
| "finish rest (Aborted p) c = (c\<lparr>c_buf := []\<rparr>, Some p)"

text \<open>What a connection should do with a whole stream.\<close>
definition run_stream :: "executor \<Rightarrow> resp_value list \<times> bytes \<times> frame_end \<Rightarrow> conn \<Rightarrow> conn \<times> panic option" where
  "run_stream exec cuts c =
     (case cuts of (vs, rest, e) \<Rightarrow>
        (case run_frames exec vs c of
           (c', None) \<Rightarrow> finish rest e c'
         | (c', Some p) \<Rightarrow> (c', Some p)))"

text \<open>The bookkeeping after a command commutes with refilling the buffer.\<close>
lemma conn_reply_buf: "c\<lparr>c_buf := b, c_out := out, c_done := n, c_store := st\<rparr> = c\<lparr>c_out := out, c_done := n, c_store := st, c_buf := b\<rparr>"
  by simp

lemma run_frames_buf: "run_frames exec vs (c\<lparr>c_buf := b\<rparr>) =
    (case run_frames exec vs c of (c', None) \<Rightarrow> (c'\<lparr>c_buf := b\<rparr>, None) | (c', Some p) \<Rightarrow> (c', Some p))"
proof (induction vs arbitrary: c)
  case (Cons v vs)
  show ?case
  proof (cases "exec (c_done c) v (c_store c)")
    case (Inr r)
    then show ?thesis
      using Cons.IH [of "c\<lparr>c_out := c_out c @ [fst r], c_done := c_done c + 1, c_store := snd r\<rparr>"]
      by (cases r) (simp add: conn_reply_buf)
  qed simp
qed simp

lemma run_frames_keeps_buf: "run_frames exec vs c = (c', None) \<Longrightarrow> c_buf c' = c_buf c"
  by (induction vs arbitrary: c) (auto split: sum.splits)

lemma finish_buf [simp]: "finish rest e (c\<lparr>c_buf := b\<rparr>) = finish rest e c"
  by (cases e) simp_all

lemma run_stream_buf [simp]: "run_stream exec cuts (c\<lparr>c_buf := b\<rparr>) = run_stream exec cuts c"
  by (cases cuts) (simp add: run_stream_def run_frames_buf split: prod.split option.split)

lemma run_frames_append:
  "run_frames exec (vs @ vs') c =
     (case run_frames exec vs c of (c', None) \<Rightarrow> run_frames exec vs' c' | (c', Some p) \<Rightarrow> (c', Some p))"
  by (induction vs arbitrary: c) (auto split: sum.split)

lemma process_buffer_frames: "process_buffer cap exec c = run_stream exec (frames cap (c_buf c)) c"
proof (induction cap exec c rule: process_buffer.induct)
  case (1 cap exec c)
  show ?case
  proof (cases "c_buf c = []")
    case True
    then show ?thesis
      by (simp add: process_buffer.simps frames.simps run_stream_def parse_resp.simps)
  next
    case False
    note step = process_buffer.simps [of cap exec c] frames.simps [of cap "c_buf c"]
    show ?thesis
    proof (cases "parse_resp cap (c_buf c)")
      case (Inl p)
      then show ?thesis using False by (simp add: step run_stream_def)
    next
      case (Inr r)
      show ?thesis
      proof (cases r)
        case (Complete v n)
        show ?thesis
        proof (cases "exec (c_done c) v (c_store c)")
          case (Inl p)
          then show ?thesis using False Inr Complete by (simp add: step run_stream_def split: prod.split)
        next
          case ok: (Inr q)
          obtain response st where q: "q = (response, st)" by (cases q)
          let ?c = "c\<lparr>c_out := c_out c @ [response], c_done := c_done c + 1, c_store := st\<rparr>"
          have IH: "process_buffer cap exec (?c\<lparr>c_buf := drop n (c_buf c)\<rparr>) = run_stream exec (frames cap (drop n (c_buf c))) ?c"
            using "1.IH" [OF False Inr Complete ok q [symmetric]] by (simp add: conn_reply_buf)
          then show ?thesis
            using False Inr Complete ok q by (simp add: step run_stream_def conn_reply_buf split: prod.splits)
        qed
      qed (use False Inr in \<open>simp_all add: step run_stream_def\<close>)
    qed
  qed
qed

lemma handle_connection_append:
  assumes "\<forall>chunk\<in>set chunks. chunk \<noteq> []"
    and "\<And>e. snd (snd (frames cap (c_buf c @ concat chunks))) \<noteq> Malformed e"
    and "snd (snd (frames cap (c_buf c))) = Waiting" "fst (frames cap (c_buf c)) = []"
  shows "handle_connection cap exec chunks c = run_stream exec (frames cap (c_buf c @ concat chunks)) c"
  using assms
proof (induction chunks arbitrary: c)
  case Nil
  then have "frames cap (c_buf c) = ([], c_buf c, Waiting)"
    by (auto simp: frames.simps [of cap "c_buf c"] split: sum.splits parse_result.splits prod.splits)
  then show ?case by (simp add: run_stream_def)
next
  case (Cons chunk chunks)
  let ?b = "c_buf c @ chunk"
  obtain vs rest e where cut: "frames cap ?b = (vs, rest, e)" by (metis prod_cases3)
  note whole = resp.cut_append [of cap ?b "concat chunks", unfolded cut, simplified]
  have proc: "process_buffer cap exec (c\<lparr>c_buf := ?b\<rparr>) = run_stream exec (vs, rest, e) c"
    by (simp add: process_buffer_frames cut)
  show ?case
  proof (cases "run_frames exec vs c")
    case (Pair c1 r)
    show ?thesis
    proof (cases "r = None \<and> e = Waiting")
      case True
      have again: "frames cap rest = ([], rest, Waiting)"
        using resp.cut_append [of cap ?b "[]"] cut True
        by (auto split: prod.splits)
      have "handle_connection cap exec chunks (c1\<lparr>c_buf := rest\<rparr>)
            = run_stream exec (frames cap (rest @ concat chunks)) (c1\<lparr>c_buf := rest\<rparr>)"
        using Cons.IH [of "c1\<lparr>c_buf := rest\<rparr>"] Cons.prems(1,2) whole again True by (auto split: prod.splits)
      then show ?thesis
        using Cons.prems(1) proc whole Pair True
        by (auto simp: run_stream_def run_frames_append run_frames_buf split: prod.splits option.splits)
    next
      case False
      then show ?thesis
        using Cons.prems proc whole Pair
        by (cases e) (auto simp: run_stream_def run_frames_append split: prod.splits option.splits)
    qed
  qed
qed

section \<open>Commands and the store\<close>

lemmas command_defs = cmd_ping_def cmd_echo_def cmd_set_def cmd_get_def cmd_del_def cmd_exists_def cmd_ttl_def cmd_expire_def
lemmas encoder_defs = encode_simple_string_def encode_error_def encode_integer_def encode_bulk_string_def encode_null_def

lemma extract_str_bulk [simp]: "extract_str (BulkString d) = (if utf8_valid d then Some d else None)"
  by (simp add: from_utf8_def utf8_valid_def split: option.split)

declare extract_str.simps(1) [simp del]

text \<open>A command is an array whose first element names it, in any case.\<close>
lemma dispatch:
  assumes "extract_str name = Some s" "to_uppercase_ascii s = Some cmd"
  shows "cmd = ''SET'' \<Longrightarrow> handle_command (t1, t2) (RespArray (name # args)) st = cmd_set t1 (name # args) st"
    and "cmd = ''GET'' \<Longrightarrow> handle_command (t1, t2) (RespArray (name # args)) st = Inr (cmd_get t1 (name # args) st)"
    and "cmd = ''DEL'' \<Longrightarrow> handle_command (t1, t2) (RespArray (name # args)) st = Inr (cmd_del (name # args) st)"
    and "cmd = ''EXISTS'' \<Longrightarrow> handle_command (t1, t2) (RespArray (name # args)) st = Inr (cmd_exists t1 (name # args) st)"
    and "cmd = ''TTL'' \<Longrightarrow> handle_command (t1, t2) (RespArray (name # args)) st = Inr (cmd_ttl t1 t2 (name # args) st)"
    and "cmd = ''EXPIRE'' \<Longrightarrow> handle_command (t1, t2) (RespArray (name # args)) st = cmd_expire t1 (name # args) st"
  using assms by (simp_all add: Let_def)

lemma cmd_get_spec:
  "cmd_get now [name, BulkString key] st =
     (if utf8_valid key
      then (case visible st now key of Some (v, e) \<Rightarrow> encode_bulk_string v | None \<Rightarrow> encode_null, snd (store_get now key st))
      else (encode_error ''ERR invalid key'', st))"
proof (cases "utf8_valid key")
  case True
  then show ?thesis
    using store_get_result [of now key st]
    by (auto simp: cmd_get_def split: option.splits prod.splits)
next
  case False
  then show ?thesis by (simp add: cmd_get_def)
qed

lemma cmd_set_ok:
  assumes "utf8_valid key" "set_options opts None = Inr ttl" "\<forall>d. ttl = Some d \<longrightarrow> now + d < instant_limit"
  shows "cmd_set now (name # BulkString key # BulkString val # opts) st
         = Inr (encode_simple_string ''OK'', put_entry key val (map_option ((+) now) ttl) st)"
  using assms by (auto simp: cmd_set_def store_set_def numeral_2_eq_2 numeral_3_eq_3 instant_add_def split: option.split)

lemma del_keys_count: "del_keys args n st = (n + fst (del_keys args 0 st), snd (del_keys args 0 st))"
proof (induction args arbitrary: n st)
  case (Cons arg args)
  show ?case
    using Cons.IH [of n] Cons.IH [of "n + 1"] Cons.IH [of 1]
    by (auto split: option.splits prod.splits)
qed simp

text \<open>DEL removes the named keys and counts each stored key once, however often it is named.\<close>
lemma del_keys_spec:
  assumes "store_inv st"
  shows "store_inv (snd (del_keys args n st))
    \<and> fst (del_keys args n st) = n + int (card ({k. Some k \<in> extract_str ` set args} \<inter> dom (content_of st)))
    \<and> content_of (snd (del_keys args n st)) = (\<lambda>k. if Some k \<in> extract_str ` set args then None else content_of st k)"
  using assms
proof (induction args arbitrary: n st)
  case (Cons arg args)
  show ?case
  proof (cases "extract_str arg")
    case None
    then have "{k. Some k \<in> extract_str ` set (arg # args)} = {k. Some k \<in> extract_str ` set args}" by auto
    then show ?thesis using Cons None by auto
  next
    case (Some key)
    let ?K = "{k. Some k \<in> extract_str ` set args}" and ?st = "snd (store_delete key st)"
    have keys: "{k. Some k \<in> extract_str ` set (arg # args)} = insert key ?K" using Some by auto
    have inv: "store_inv ?st" using Cons.prems by simp
    have cont: "content_of ?st = (content_of st)(key := None)" using Cons.prems by (rule content_delete)
    have hit: "fst (store_delete key st) = (key \<in> dom (content_of st))"
      by (auto simp: store_delete_def content_of_def)
    have "finite (extract_str ` set args)" by simp
    then have "finite (Some ` ?K)" by (rule rev_finite_subset) auto
    then have fin: "finite ?K" by (simp add: finite_image_iff)
    have count: "card (insert key ?K \<inter> dom (content_of st))
                 = card (?K \<inter> dom (content_of ?st)) + (if key \<in> dom (content_of st) then 1 else 0)"
    proof -
      have "?K \<inter> dom (content_of ?st) = (insert key ?K \<inter> dom (content_of st)) - {key}" unfolding cont by auto
      then show ?thesis using fin by (auto simp: card_Diff_singleton_if card_gt_0_iff)
    qed
    let ?n = "if fst (store_delete key st) then n + 1 else n"
    have step: "del_keys (arg # args) n st = del_keys args ?n ?st" using Some by (simp split: prod.split)
    note IH = Cons.IH [OF inv, of ?n]
    have "fst (del_keys args ?n ?st) = n + int (card (insert key ?K \<inter> dom (content_of st)))"
      using IH by (simp only: count hit) simp
    moreover have "content_of (snd (del_keys args ?n ?st)) k
                   = (if Some k \<in> extract_str ` set (arg # args) then None else content_of st k)" for k
      using IH Some by (simp add: cont)
    ultimately show ?thesis
      unfolding step keys using IH by blast
  qed
qed simp

lemma handle_command_inv [wf_intros]:
  assumes "store_inv st" "handle_command clock v st = Inr (r, st')"
  shows "store_inv st'"
proof -
  obtain t1 t2 where clock: "clock = (t1, t2)" by (cases clock)
  have set: "store_inv st'" if "cmd_set now args st = Inr (r, st')" for now args
    using that assms(1) by (auto simp: cmd_set_def and_then_Inr_conv intro: store_inv_set split: if_splits option.splits sum.splits)
  have expire: "store_inv st'" if "cmd_expire now args st = Inr (r, st')" for now args
    using that assms(1) store_expire_Inr
    by (fastforce simp: cmd_expire_def and_then_Inr_conv split: if_splits option.splits sum.splits)
  have get: "store_inv st'" if "store_get now key st = (x, st')" for now key x
    using that store_inv_get [OF assms(1), of now key] by simp
  have del: "store_inv (snd (del_keys args 0 st))" for args using del_keys_spec [OF assms(1)] by simp
  show ?thesis
  proof (cases v)
    case (RespArray args)
    then show ?thesis
      using assms set expire get del unfolding clock
      by (auto simp: Let_def cmd_get_def cmd_del_def cmd_exists_def cmd_ttl_def store_exists_def
            split: if_splits option.splits prod.splits) (metis del snd_conv)+
  qed (use assms in \<open>auto simp: clock\<close>)
qed

section \<open>Replies\<close>

text \<open>Sizes that fit in memory: no slice is longer than \<^verbatim>\<open>isize::MAX\<close> bytes.\<close>
definition fits :: "bytes \<Rightarrow> bool" where
  "fits d \<longleftrightarrow> int (length d) \<le> i64_max"

definition request_fits :: "resp_value \<Rightarrow> bool" where
  "request_fits v = (case v of
     RespArray args \<Rightarrow> int (length args) \<le> i64_max \<and> list_all (\<lambda>a. pred_option fits (extract_bytes a)) args
   | _ \<Rightarrow> True)"

definition store_fits :: "cache_store \<Rightarrow> bool" where
  "store_fits st = list_all (\<lambda>(k, en). fits (ce_value en)) (cs_data st)"

definition one_value :: "nat \<Rightarrow> bytes \<Rightarrow> bool" where
  "one_value cap r \<longleftrightarrow> (\<exists>v. parse_resp cap r = Inr (Complete v (length r)))"

lemma one_value_encoded: "resp_wf cap v \<Longrightarrow> one_value cap (encode_item v)"
  using parse_encoded [of cap v "[]"] by (auto simp: one_value_def)

lemma plain_text: "list_all (\<lambda>c. (of_char c :: nat) < 128 \<and> c \<noteq> CR) s \<Longrightarrow> utf8_valid s \<and> no_crlf s"
  by (auto simp: list_all_iff intro: utf8_valid_ascii no_cr_no_crlf)

lemma one_value_error: "list_all (\<lambda>c. (of_char c :: nat) < 128 \<and> c \<noteq> CR) s \<Longrightarrow> one_value cap (encode_error s)"
  using one_value_encoded [of cap "RespError s"] plain_text [of s] by simp

lemma one_value_text: "list_all (\<lambda>c. (of_char c :: nat) < 128 \<and> c \<noteq> CR) s \<Longrightarrow> one_value cap (encode_simple_string s)"
  using one_value_encoded [of cap "SimpleString s"] plain_text [of s] by simp

lemma one_value_integer: "i64_min \<le> n \<Longrightarrow> n \<le> i64_max \<Longrightarrow> one_value cap (encode_integer n)"
  using one_value_encoded [of cap "RespInteger n"] by simp

lemma one_value_bulk: "fits d \<Longrightarrow> one_value cap (encode_bulk_string d)"
  using one_value_encoded [of cap "BulkString d"] by (simp add: fits_def)

lemma one_value_null: "one_value cap encode_null"
  using one_value_encoded [of cap RespNull] by simp

lemma as_secs_i64_range: "i64_min \<le> as_secs_i64 d \<and> as_secs_i64 d \<le> i64_max"
  using sint_ge [of "word_of_nat (as_secs d) :: u64"] sint_lt [of "word_of_nat (as_secs d) :: u64"]
  by (simp add: as_secs_i64_def i64_min_def i64_max_def)

lemma small_range: "n \<in> {-2, -1, 0, 1} \<Longrightarrow> i64_min \<le> n \<and> n \<le> i64_max"
  by (auto simp: i64_min_def i64_max_def)

lemma set_options_error:
  "set_options opts ttl = Inl r \<Longrightarrow>
     r \<in> encode_error ` {''ERR invalid option'', ''ERR wrong number of arguments for 'set' command'',
                          ''ERR value is not an integer or out of range'', ''ERR syntax error''}"
proof (induction opts ttl rule: set_options.induct)
  case (2 opt rest ttl)
  show ?case
  proof (cases "extract_str opt")
    case (Some s)
    show ?thesis
    proof (cases rest)
      case (Cons arg rest')
      then show ?thesis using 2 Some by (cases "extract_u64 arg") (simp_all split: if_splits)
    qed (use 2 Some in \<open>simp split: if_splits\<close>)
  qed (use 2 in simp)
qed simp

lemma literal_replies:
  "one_value cap (encode_simple_string ''PONG'')" "one_value cap (encode_simple_string ''OK'')"
  "one_value cap (encode_error ''ERR expected array (RESP command)'')"
  "one_value cap (encode_error ''ERR empty command'')" "one_value cap (encode_error ''ERR invalid command'')"
  "one_value cap (encode_error ''ERR unknown command'')" "one_value cap (encode_error ''ERR invalid argument'')"
  "one_value cap (encode_error ''ERR invalid key'')" "one_value cap (encode_error ''ERR invalid value'')"
  "one_value cap (encode_error ''ERR invalid option'')" "one_value cap (encode_error ''ERR syntax error'')"
  "one_value cap (encode_error ''ERR value is not an integer or out of range'')"
  "one_value cap (encode_error ''ERR wrong number of arguments for 'ping' command'')"
  "one_value cap (encode_error ''ERR wrong number of arguments for 'echo' command'')"
  "one_value cap (encode_error ''ERR wrong number of arguments for 'set' command'')"
  "one_value cap (encode_error ''ERR wrong number of arguments for 'get' command'')"
  "one_value cap (encode_error ''ERR wrong number of arguments for 'del' command'')"
  "one_value cap (encode_error ''ERR wrong number of arguments for 'exists' command'')"
  "one_value cap (encode_error ''ERR wrong number of arguments for 'ttl' command'')"
  "one_value cap (encode_error ''ERR wrong number of arguments for 'expire' command'')"
  by (rule one_value_error one_value_text, simp)+

lemmas reply_rules = literal_replies one_value_bulk one_value_null

lemma set_options_error_reply: "set_options opts ttl = Inl r \<Longrightarrow> one_value cap r"
  using set_options_error [of opts ttl r] by (auto simp: reply_rules)

lemma set_reply: "cmd_set now args st = Inr (r, st') \<Longrightarrow> one_value cap r"
  using set_options_error_reply [of "drop 3 args" None r]
  by (auto simp: cmd_set_def and_then_Inr_conv reply_rules split: if_splits option.splits sum.splits)

lemma expire_reply: "cmd_expire now args st = Inr (r, st') \<Longrightarrow> one_value cap r"
  using small_range one_value_integer
  by (auto simp: cmd_expire_def and_then_Inr_conv reply_rules split: if_splits option.splits sum.splits)

lemma store_get_fits:
  assumes "store_fits st" "store_get now key st = (Some v, st')"
  shows "fits v"
proof -
  obtain en where "hm_get (cs_data st) key = Some en" "v = ce_value en"
    using assms(2) by (auto simp: store_get_def split: option.splits if_splits)
  then show ?thesis using assms(1) by (auto simp: store_fits_def list_all_iff hm_get_def dest: map_of_SomeD)
qed

lemma get_reply: "store_fits st \<Longrightarrow> one_value cap (fst (cmd_get now args st))"
  by (auto simp: cmd_get_def reply_rules dest: store_get_fits split: option.split prod.split)

lemma exists_reply: "one_value cap (fst (cmd_exists now args st))"
  using small_range one_value_integer by (auto simp: cmd_exists_def reply_rules split: option.split prod.split)

lemma ttl_reply: "one_value cap (fst (cmd_ttl t1 t2 args st))"
  using small_range one_value_integer as_secs_i64_range
  by (auto simp: cmd_ttl_def reply_rules split: option.split prod.split)

lemma del_keys_range: "n \<le> fst (del_keys args n st) \<and> fst (del_keys args n st) \<le> n + int (length args)"
proof (induction args arbitrary: n st)
  case (Cons arg args)
  have "n \<le> fst (del_keys args m s) \<and> fst (del_keys args m s) \<le> n + (1 + int (length args))" if "m = n \<or> m = n + 1" for m s
    using Cons [of m s] that by auto
  then show ?case using Cons [of n st] by (auto split: option.split prod.split)
qed simp

lemma del_reply: "int (length args) \<le> i64_max \<Longrightarrow> one_value cap (fst (cmd_del args st))"
  using del_keys_range [of 0 "drop 1 args" st]
  by (auto simp: cmd_del_def reply_rules i64_min_def intro!: one_value_integer split: prod.split)

lemma echo_reply:
  assumes "list_all (\<lambda>a. pred_option fits (extract_bytes a)) args"
  shows "one_value cap (cmd_ping args)" "one_value cap (cmd_echo args)"
proof -
  have "fits d" if "extract_bytes (args ! 1) = Some d" "length args = 2" for d
    using assms that by (simp add: list_all_length) (metis lessI numeral_2_eq_2 option.pred_inject(2))
  then show "one_value cap (cmd_ping args)" "one_value cap (cmd_echo args)"
    by (auto simp: cmd_ping_def cmd_echo_def reply_rules split: option.split)
qed

section \<open>Properties\<close>

text \<open>C4: the outcome of a connection (replies, store, leftover bytes, panic) does not depend on how the
  network cuts the client's stream into reads: it is that of processing the whole stream at once,
  provided the stream has no protocol error and no read is empty.\<close>
theorem connection_segmentation:
  assumes "\<forall>chunk\<in>set chunks. chunk \<noteq> []"
    and "\<forall>e. snd (snd (frames cap (concat chunks))) \<noteq> Malformed e"
  shows "handle_connection cap (serve clock others) chunks \<lparr>c_buf = [], c_out = [], c_done = 0, c_store = st\<rparr>
       = process_buffer cap (serve clock others) \<lparr>c_buf = concat chunks, c_out = [], c_done = 0, c_store = st\<rparr>"
proof -
  let ?c = "\<lparr>c_buf = [], c_out = [], c_done = 0, c_store = st\<rparr>"
  have "frames cap [] = ([], [], Waiting)" by (simp add: frames.simps parse_resp.simps)
  then have "handle_connection cap (serve clock others) chunks ?c = run_stream (serve clock others) (frames cap (concat chunks)) ?c"
    using handle_connection_append [of chunks cap ?c] assms by simp
  also have "\<dots> = run_stream (serve clock others) (frames cap (concat chunks)) (?c\<lparr>c_buf := concat chunks\<rparr>)"
    by (simp only: run_stream_buf)
  finally show ?thesis by (simp add: process_buffer_frames)
qed

definition ping_bytes :: bytes where
  "ping_bytes = ''*1'' @ CRLF @ ''$4'' @ CRLF @ ''PING'' @ CRLF"

theorem connection_segmentation_witness:
  "handle_connection 16 (serve (\<lambda>_. (0, 0)) (\<lambda>_ s. s)) [take 5 ping_bytes, drop 5 ping_bytes]
     \<lparr>c_buf = [], c_out = [], c_done = 0, c_store = store_new 0\<rparr>
   = process_buffer 16 (serve (\<lambda>_. (0, 0)) (\<lambda>_ s. s)) \<lparr>c_buf = ping_bytes, c_out = [], c_done = 0, c_store = store_new 0\<rparr>"
proof -
  have "snd (snd (frames 16 ping_bytes)) = Waiting" by code_simp
  then show ?thesis
    using connection_segmentation [of "[take 5 ping_bytes, drop 5 ping_bytes]" 16 "\<lambda>_. (0, 0)" "\<lambda>_ s. s" "store_new 0"]
    by (simp add: ping_bytes_def)
qed

text \<open>After a protocol error the segmentation does matter, because the handler throws away whatever the
  same read happened to bring: a stray byte followed by PING is answered with one reply when both arrive in
  one read and with two when they arrive in two.\<close>
theorem protocol_error_drops_pipelined_commands:
  "length (c_out (fst (handle_connection 16 (serve (\<lambda>_. (0, 0)) (\<lambda>_ s. s)) [''?'' @ ping_bytes]
             \<lparr>c_buf = [], c_out = [], c_done = 0, c_store = store_new 0\<rparr>))) = 1
   \<and> length (c_out (fst (handle_connection 16 (serve (\<lambda>_. (0, 0)) (\<lambda>_ s. s)) [''?'', ping_bytes]
             \<lparr>c_buf = [], c_out = [], c_done = 0, c_store = store_new 0\<rparr>))) = 2"
  by code_simp



text \<open>C32: a request answered with an error has no effect on the store.\<close>
theorem error_reply_no_effect:
  assumes "handle_command clock v st = Inr (CHR ''-'' # r, st')"
  shows "st' = st"
proof -
  obtain t1 t2 where clock: "clock = (t1, t2)" by (cases clock)
  show ?thesis
  proof (cases v)
    case (RespArray args)
    then show ?thesis
      using assms unfolding clock
      by (auto simp: Let_def command_defs encoder_defs and_then_Inr_conv split: if_splits option.splits prod.splits sum.splits)
  qed (use assms in \<open>auto simp: clock\<close>)
qed

theorem error_reply_no_effect_witness:
  "handle_command (0, 0) (RespArray [BulkString ''get'']) (store_new 0)
     = Inr (encode_error ''ERR wrong number of arguments for 'get' command'', store_new 0)"
proof -
  have names: "utf8_valid ''get''" "to_uppercase_ascii ''get'' = Some ''GET''" by code_simp+
  then obtain st' where st': "handle_command (0, 0) (RespArray [BulkString ''get'']) (store_new 0)
     = Inr (CHR ''-'' # (''ERR wrong number of arguments for 'get' command'' @ CRLF), st')"
    by (simp add: Let_def cmd_get_def encode_error_def)
  show ?thesis using st' error_reply_no_effect [OF st'] by (simp add: encode_error_def)
qed

text \<open>SET replies OK and a GET of the same key at a later time \<open>t'\<close> returns the value until the deadline
  the options asked for, and null from then on; both command names are case-insensitive.\<close>
theorem set_then_get:
  assumes "store_inv st" "utf8_valid key"
    and "extract_str setw = Some s" "to_uppercase_ascii s = Some ''SET''"
    and "extract_str get = Some g" "to_uppercase_ascii g = Some ''GET''"
    and "set_options opts None = Inr ttl" "\<forall>d. ttl = Some d \<longrightarrow> t + d < instant_limit"
  shows "case handle_command (t, t2) (RespArray (setw # BulkString key # BulkString val # opts)) st of
           Inl p \<Rightarrow> False
         | Inr (reply, st') \<Rightarrow> reply = encode_simple_string ''OK'' \<and>
             map_sum id fst (handle_command (t', t2') (RespArray [get, BulkString key]) st')
             = Inr (if not_after t' (map_option ((+) t) ttl) then encode_bulk_string val else encode_null)"
  using assms cs.look_put [OF assms(1), of key val "map_option ((+) t) ttl" t']
  by (simp add: dispatch cmd_set_ok cmd_get_spec del: handle_command.simps)

theorem set_then_get_witness:
  "case handle_command (5, 5) (RespArray [BulkString ''set'', BulkString ''k'', BulkString ''v'', BulkString ''px'', BulkString ''7'']) (store_new 0) of
     Inl p \<Rightarrow> False
   | Inr (reply, st') \<Rightarrow> reply = encode_simple_string ''OK'' \<and>
       map_sum id fst (handle_command (6, 6) (RespArray [BulkString ''Get'', BulkString ''k'']) st') = Inr (encode_bulk_string ''v'')"
proof -
  have px: "extract_u64 (BulkString ''7'') = Some 7" "to_uppercase_ascii ''px'' = Some ''PX''" "utf8_valid ''px''" by code_simp+
  then have opts: "set_options [BulkString ''px'', BulkString ''7''] None = Inr (Some (from_millis 7))" by simp
  have names: "utf8_valid ''k''" "extract_str (BulkString ''set'') = Some ''set''" "to_uppercase_ascii ''set'' = Some ''SET''"
    "extract_str (BulkString ''Get'') = Some ''Get''" "to_uppercase_ascii ''Get'' = Some ''GET''" by code_simp+
  show ?thesis
    using set_then_get [OF store_inv_new [of 0] names opts, where t = 5 and t' = 6 and ?t2.0 = 5 and ?t2' = 6 and val = "''v''"]
    by (simp add: instant_limit_def nanos_per_sec_def from_millis_def nanos_per_milli_def not_after_def
          split: sum.splits prod.splits del: handle_command.simps)
qed

text \<open>DEL removes exactly the named keys and replies with the number of distinct stored keys among them
  (an entry past its deadline that no read or sweep has removed yet is counted too).\<close>
theorem del_counts_stored_keys:
  assumes "store_inv st" "extract_str del = Some d" "to_uppercase_ascii d = Some ''DEL''" "\<forall>k\<in>set keys. utf8_valid k" "keys \<noteq> []"
  shows "case handle_command clock (RespArray (del # map BulkString keys)) st of
           Inl p \<Rightarrow> False
         | Inr (reply, st') \<Rightarrow>
             reply = encode_integer (int (card (set keys \<inter> dom (content_of st))))
             \<and> content_of st' = (\<lambda>k. if k \<in> set keys then None else content_of st k)"
proof -
  obtain t1 t2 where clock: "clock = (t1, t2)" by (cases clock)
  have keys: "Some k \<in> extract_str ` BulkString ` set keys \<longleftrightarrow> k \<in> set keys" for k
    using assms(4) by (auto simp: image_iff)
  have "cmd_del (del # map BulkString keys) st =
      (encode_integer (fst (del_keys (map BulkString keys) 0 st)), snd (del_keys (map BulkString keys) 0 st))"
    using assms(5) by (cases keys) (simp_all add: cmd_del_def split: prod.split)
  then show ?thesis
    using del_keys_spec [OF assms(1), of "map BulkString keys" 0] dispatch(3) [OF assms(2,3)]
    by (simp add: clock keys del: handle_command.simps)
qed

theorem del_counts_stored_keys_witness:
  "case handle_command (0, 0) (RespArray [BulkString ''DEL'', BulkString ''a'', BulkString ''a'']) (put_entry ''a'' ''1'' None (store_new 0)) of
     Inl p \<Rightarrow> False | Inr (reply, st') \<Rightarrow> reply = encode_integer 1 \<and> content_of st' ''a'' = None"
proof -
  have names: "extract_str (BulkString ''DEL'') = Some ''DEL''" "to_uppercase_ascii ''DEL'' = Some ''DEL''" by code_simp+
  let ?st = "put_entry ''a'' ''1'' None (store_new 0)"
  have "utf8_valid ''a''" by code_simp
  moreover have "{''a''} \<inter> dom (content_of ?st) = {''a''}" by (simp add: content_put)
  ultimately show ?thesis
    using del_counts_stored_keys [of ?st, OF _ names, of "[''a'', ''a'']" "(0, 0)"]
    by (simp split: sum.splits prod.splits del: handle_command.simps)
qed



text \<open>A deadline beyond the clock's range, which a client can ask for with a large number of seconds, makes SET and
  EXPIRE panic instead of answering.\<close>
theorem huge_expiry_panics:
  assumes "utf8_valid key" "instant_limit \<le> t + d"
    and "extract_str name = Some s" "to_uppercase_ascii s = Some ''SET'' \<and> set_options opts None = Inr (Some d)"
    and "extract_str name2 = Some s2" "to_uppercase_ascii s2 = Some ''EXPIRE'' \<and> extract_u64 arg = Some secs \<and> d = from_secs secs"
    and "content_of st key \<noteq> None"
  shows "handle_command (t, t2) (RespArray (name # BulkString key # BulkString val # opts)) st = Inl InstantOverflow
    \<and> handle_command (t, t2) (RespArray [name2, BulkString key, arg]) st = Inl InstantOverflow"
proof -
  have "hm_get (cs_data st) key \<noteq> None" using assms(7) by (auto simp: content_of_def)
  then have "cmd_expire t [name2, BulkString key, arg] st = Inl InstantOverflow"
    using assms(1,2,6) by (auto simp: cmd_expire_def store_expire_def instant_add_def numeral_2_eq_2)
  moreover have "cmd_set t (name # BulkString key # BulkString val # opts) st = Inl InstantOverflow"
    using assms(1,2,4) by (simp add: cmd_set_def store_set_def instant_add_def numeral_2_eq_2 numeral_3_eq_3)
  ultimately show ?thesis using assms(3-6) by (simp add: dispatch del: handle_command.simps)
qed

theorem huge_expiry_panics_witness:
  "handle_command (0, 0) (RespArray [BulkString ''SET'', BulkString ''k'', BulkString ''v'', BulkString ''EX'', BulkString ''18446744073709551615'']) (put_entry ''k'' ''v'' None (store_new 0))
     = Inl InstantOverflow"
proof -
  let ?n = "BulkString ''18446744073709551615''"
  have num: "extract_u64 ?n = Some (- 1)" "to_uppercase_ascii ''EX'' = Some ''EX''" "utf8_valid ''EX''" by code_simp+
  then have opts: "set_options [BulkString ''EX'', ?n] None = Inr (Some (from_secs (- 1)))" by simp
  have names: "utf8_valid ''k''" "extract_str (BulkString ''SET'') = Some ''SET''" "to_uppercase_ascii ''SET'' = Some ''SET''"
    "extract_str (BulkString ''EXPIRE'') = Some ''EXPIRE''" "to_uppercase_ascii ''EXPIRE'' = Some ''EXPIRE''" by code_simp+
  have "instant_limit \<le> 0 + from_secs (- 1)" by (simp add: instant_limit_def from_secs_def nanos_per_sec_def unat_u64_max)
  then show ?thesis
    using huge_expiry_panics [OF names(1) _ names(2), of 0 "from_secs (- 1)" "[BulkString ''EX'', ?n]" "BulkString ''EXPIRE''" "''EXPIRE''" ?n "- 1"
        "put_entry ''k'' ''v'' None (store_new 0)" 0 "''v''"] names opts num
    by (simp add: content_put del: handle_command.simps extract_str_bulk)
qed

end
