(* ===== verification/Rebalance.thy ===== *)
theory Rebalance
  imports Hash_Ring Node_Service Resp_Server
begin

text \<open>
  Key transfer to a joining node, \<^verbatim>\<open>crates/node/src/rebalance/mod.rs\<close>. The peers' streams are the parameter
  \<open>fetch\<close>: what connecting to an address and calling \<^verbatim>\<open>TransferKeys\<close> gives, either a connection error or the
  chunks received and the error that cut the stream short, if any. \<open>clock addr i\<close> is the time at which
  chunk \<open>i\<close> from \<open>addr\<close> is stored.

  The last section interleaves a transfer with everything else that touches the node's state while it
  is joining, and shows that a delete refused with "node is joining" is nevertheless final.
\<close>

type_synonym fetch = "addr \<Rightarrow> status + (transfer_chunk list \<times> status option)"

section \<open>The transfer\<close>

definition accept_chunk ::
    "externs \<Rightarrow> instant \<Rightarrow> node_id \<Rightarrow> hash_ring \<Rightarrow> transfer_chunk \<Rightarrow> nat \<times> cache_store \<Rightarrow> (nat \<times> cache_store) run" where
  "accept_chunk ext now local_id ring chunk acc =
     (case acc of (count, st) \<Rightarrow>
        (case get_node ext ring (tc_key chunk) of
           Some owner \<Rightarrow>
             if ni_id owner = local_id
             then and_then (set_from_transfer now (tc_key chunk) (tc_value chunk) (tc_expires_at_ms chunk) st)
                    (\<lambda>st'. Inr (count + 1, st'))
             else Inr (count, st)
         | None \<Rightarrow> Inr (count, st)))"

text \<open>The loop \<^verbatim>\<open>while let Some(chunk) = stream.message()\<close>.\<close>
fun pull_chunks ::
    "externs \<Rightarrow> (nat \<Rightarrow> instant) \<Rightarrow> node_id \<Rightarrow> hash_ring \<Rightarrow> nat \<Rightarrow> transfer_chunk list \<Rightarrow> nat \<times> cache_store
     \<Rightarrow> (nat \<times> cache_store) run" where
  "pull_chunks ext clock local_id ring i [] acc = Inr acc"
| "pull_chunks ext clock local_id ring i (chunk # chunks) acc =
     and_then (accept_chunk ext (clock i) local_id ring chunk acc) (pull_chunks ext clock local_id ring (i + 1) chunks)"

text \<open>A stream error keeps the chunks stored so far but loses their count.\<close>
definition pull_keys_from ::
    "externs \<Rightarrow> fetch \<Rightarrow> (addr \<Rightarrow> nat \<Rightarrow> instant) \<Rightarrow> node_id \<Rightarrow> addr \<Rightarrow> hash_ring \<Rightarrow> cache_store
     \<Rightarrow> ((status + nat) \<times> cache_store) run" where
  "pull_keys_from ext fetch clock local_id source_addr ring st =
     (case fetch source_addr of
        Inl e \<Rightarrow> Inr (Inl e, st)
      | Inr (chunks, lost) \<Rightarrow>
          and_then (pull_chunks ext (clock source_addr) local_id ring 0 chunks (0, st))
            (\<lambda>(count, st'). Inr (case lost of None \<Rightarrow> Inr count | Some e \<Rightarrow> Inl e, st')))"

fun rebalance_peers ::
    "externs \<Rightarrow> fetch \<Rightarrow> (addr \<Rightarrow> nat \<Rightarrow> instant) \<Rightarrow> node_id \<Rightarrow> hash_ring \<Rightarrow> node_info list \<Rightarrow> nat \<times> cache_store
     \<Rightarrow> (nat \<times> cache_store) run" where
  "rebalance_peers ext fetch clock local_id ring [] acc = Inr acc"
| "rebalance_peers ext fetch clock local_id ring (peer # peers) (tot, st) =
     (if ni_id peer = local_id then rebalance_peers ext fetch clock local_id ring peers (tot, st)
      else and_then (pull_keys_from ext fetch clock local_id (ni_addr peer) ring st)
             (\<lambda>(r, st'). rebalance_peers ext fetch clock local_id ring peers
                          (case r of Inr count \<Rightarrow> tot + count | Inl _ \<Rightarrow> tot, st')))"

definition rebalance ::
    "externs \<Rightarrow> fetch \<Rightarrow> (addr \<Rightarrow> nat \<Rightarrow> instant) \<Rightarrow> node_id \<Rightarrow> node_info list \<Rightarrow> hash_ring \<Rightarrow> cache_store
     \<Rightarrow> (nat \<times> cache_store) run" where
  "rebalance ext fetch clock local_id peers ring st = rebalance_peers ext fetch clock local_id ring peers (0, st)"

definition live_ring :: "externs \<Rightarrow> node_id \<Rightarrow> membership_table \<Rightarrow> hash_ring" where
  "live_ring ext local_id t =
     fold (\<lambda>peer r. add_node ext (me_info peer) r) (routable_peers t)
          (add_node ext \<lparr>ni_id = local_id, ni_addr = local_addr t\<rparr> ring_new)"

definition apply_tombstones :: "node_state \<Rightarrow> node_state" where
  "apply_tombstones s = s\<lparr>ns_store := fold (\<lambda>k st. snd (store_delete k st)) (ns_tombstones s) (ns_store s)\<rparr>"

text \<open>What follows the transfer: purge the tombstones, then leave the Joining state.\<close>
definition complete_rebalance :: "node_state \<Rightarrow> node_state" where
  "complete_rebalance s = (let s' = apply_tombstones s in s'\<lparr>ns_table := mark_self_alive (ns_table s')\<rparr>)"

text \<open>The polling loop, over the tables successive polls see: the first one with a routable peer.\<close>
fun wait_converged :: "membership_table list \<Rightarrow> membership_table option" where
  "wait_converged [] = None"
| "wait_converged (t # polls) = (if routable_peers t \<noteq> [] then Some t else wait_converged polls)"

text \<open>\<open>None\<close>: still waiting after the given polls. Nothing else touches the node in this definition.\<close>
definition wait_and_rebalance ::
    "externs \<Rightarrow> fetch \<Rightarrow> (addr \<Rightarrow> nat \<Rightarrow> instant) \<Rightarrow> node_id \<Rightarrow> membership_table list \<Rightarrow> node_state
     \<Rightarrow> (nat \<times> node_state) run option" where
  "wait_and_rebalance ext fetch clock local_id polls s =
     (case wait_converged polls of
        None \<Rightarrow> None
      | Some t \<Rightarrow>
          Some (and_then (rebalance ext fetch clock local_id (map me_info (routable_peers t)) (live_ring ext local_id t) (ns_store s))
                  (\<lambda>(count, st). Inr (count, complete_rebalance (s\<lparr>ns_table := t, ns_store := st\<rparr>)))))"

section \<open>What a transfer stores\<close>

definition owned :: "externs \<Rightarrow> node_id \<Rightarrow> hash_ring \<Rightarrow> bytes \<Rightarrow> bool" where
  "owned ext local_id ring key = (case get_node ext ring key of Some owner \<Rightarrow> ni_id owner = local_id | None \<Rightarrow> False)"

text \<open>Entries with less than a millisecond to live are dropped.\<close>
definition live_chunk :: "transfer_chunk \<Rightarrow> bool" where
  "live_chunk c \<longleftrightarrow> tc_expires_at_ms c \<noteq> Some 0"

lemma set_from_transfer_live:
  assumes "now < 2 ^ 62 * nanos_per_sec"
  shows "set_from_transfer now k v ms st = Inr (if ms = Some 0 then st else put_entry k v (map_option (\<lambda>ms. now + from_millis ms) ms) st)"
  using store_set_millis [OF assms, of k v ms st] by (cases ms) (auto simp: set_from_transfer_def)

lemma accept_chunk_total:
  assumes "now < 2 ^ 62 * nanos_per_sec"
  shows "accept_chunk ext now l ring c (n, st) =
    Inr (if owned ext l ring (tc_key c) then n + 1 else n,
         if owned ext l ring (tc_key c) \<and> live_chunk c
         then put_entry (tc_key c) (tc_value c) (map_option (\<lambda>ms. now + from_millis ms) (tc_expires_at_ms c)) st else st)"
  using set_from_transfer_live [OF assms]
  by (simp add: accept_chunk_def owned_def live_chunk_def split: option.split)

lemma pull_chunks_spec:
  assumes "store_inv st" "\<forall>i. clock i < 2 ^ 62 * nanos_per_sec" "distinct (map tc_key chunks)"
  shows "\<exists>n' st'. pull_chunks ext clock l ring i chunks (n, st) = Inr (n', st')
    \<and> n' = n + length (filter (\<lambda>c. owned ext l ring (tc_key c)) chunks) \<and> store_inv st'
    \<and> (\<forall>j < length chunks. let c = chunks ! j in owned ext l ring (tc_key c) \<and> live_chunk c \<longrightarrow>
          content_of st' (tc_key c) = Some (tc_value c, map_option (\<lambda>ms. clock (i + j) + from_millis ms) (tc_expires_at_ms c)))
    \<and> (\<forall>k. (\<forall>c\<in>set chunks. tc_key c = k \<longrightarrow> \<not> (owned ext l ring k \<and> live_chunk c)) \<longrightarrow> content_of st' k = content_of st k)"
  using assms
proof (induction chunks arbitrary: i n st)
  case (Cons c chunks)
  have now: "clock i < 2 ^ 62 * nanos_per_sec" using Cons.prems(2) by blast
  let ?ok = "owned ext l ring (tc_key c)"
  let ?put = "put_entry (tc_key c) (tc_value c) (map_option (\<lambda>ms. clock i + from_millis ms) (tc_expires_at_ms c)) st"
  let ?st = "if ?ok \<and> live_chunk c then ?put else st"
  have inv: "store_inv ?st" using Cons.prems(1) by simp
  have cont: "content_of ?st = (if ?ok \<and> live_chunk c
      then (content_of st)(tc_key c \<mapsto> (tc_value c, map_option (\<lambda>ms. clock i + from_millis ms) (tc_expires_at_ms c))) else content_of st)"
    using content_put [OF Cons.prems(1)] by simp
  obtain n' st' where run: "pull_chunks ext clock l ring (i + 1) chunks (if ?ok then n + 1 else n, ?st) = Inr (n', st')"
    and n': "n' = (if ?ok then n + 1 else n) + length (filter (\<lambda>c. owned ext l ring (tc_key c)) chunks)"
    and inv': "store_inv st'"
    and stored: "\<forall>j < length chunks. let c = chunks ! j in owned ext l ring (tc_key c) \<and> live_chunk c \<longrightarrow>
          content_of st' (tc_key c) = Some (tc_value c, map_option (\<lambda>ms. clock (i + 1 + j) + from_millis ms) (tc_expires_at_ms c))"
    and kept: "\<forall>k. (\<forall>c\<in>set chunks. tc_key c = k \<longrightarrow> \<not> (owned ext l ring k \<and> live_chunk c)) \<longrightarrow> content_of st' k = content_of ?st k"
    using Cons.IH [OF inv Cons.prems(2), of "i + 1" "if ?ok then n + 1 else n"] Cons.prems(3) by auto
  have fresh: "\<forall>c'\<in>set chunks. tc_key c' \<noteq> tc_key c" using Cons.prems(3) by (auto simp: image_iff)
  then have c: "content_of st' (tc_key c) = content_of ?st (tc_key c)" using kept by blast
  have "pull_chunks ext clock l ring i (c # chunks) (n, st) = Inr (n', st')"
    using run by (simp add: accept_chunk_total [OF now])
  moreover have "let c' = (c # chunks) ! j in owned ext l ring (tc_key c') \<and> live_chunk c' \<longrightarrow>
          content_of st' (tc_key c') = Some (tc_value c', map_option (\<lambda>ms. clock (i + j) + from_millis ms) (tc_expires_at_ms c'))"
    if "j < length (c # chunks)" for j
    using that stored c cont by (cases j) (auto simp: Let_def)
  moreover have "content_of st' k = content_of st k"
    if "\<forall>c'\<in>set (c # chunks). tc_key c' = k \<longrightarrow> \<not> (owned ext l ring k \<and> live_chunk c')" for k
    using that kept cont by auto
  ultimately show ?case using n' inv' by auto
qed simp

lemma pull_chunks_inv:
  assumes "store_inv st" "pull_chunks ext clock l ring i chunks (n, st) = Inr (n', st')"
  shows "store_inv st'"
  using assms
proof (induction chunks arbitrary: i n st)
  case (Cons c chunks)
  then obtain m st1 where acc: "accept_chunk ext (clock i) l ring c (n, st) = Inr (m, st1)"
    and rest: "pull_chunks ext clock l ring (i + 1) chunks (m, st1) = Inr (n', st')"
    by (auto simp: and_then_Inr_conv)
  have "store_inv st1"
    using acc Cons.prems(1)
    by (auto simp: accept_chunk_def set_from_transfer_def and_then_Inr_conv intro: store_inv_set split: option.splits if_splits)
  then show ?case using Cons.IH rest by blast
qed simp

text \<open>The chunks of a peer's transfer, by what the peer shows; and how many of them this node owns.\<close>
lemma transfer_keys_iff:
  assumes "node_inv peer"
  shows "c \<in> set (transfer_keys t0 peer) \<longleftrightarrow> (\<exists>e. visible (ns_store peer) t0 (tc_key c) = Some (tc_value c, e)
        \<and> tc_expires_at_ms c = map_option (\<lambda>e. as_millis_u64 (e - t0)) e)"
  using transfer_keys_chunk [of peer "tc_key c" "tc_value c" "tc_expires_at_ms c" t0] assms
  by (cases c) (simp add: node_inv_def)

lemma owned_chunks_count:
  assumes "node_inv peer"
  shows "length (filter (\<lambda>c. owned ext l ring (tc_key c)) (transfer_keys t0 peer))
         = card {k. owned ext l ring k \<and> visible (ns_store peer) t0 k \<noteq> None}"
proof -
  let ?mine = "filter (\<lambda>c. owned ext l ring (tc_key c)) (transfer_keys t0 peer)"
  have "k \<in> tc_key ` set ?mine" if "owned ext l ring k" "visible (ns_store peer) t0 k = Some (v, e)" for k v e
    using that transfer_keys_iff [OF assms, of "\<lparr>tc_key = k, tc_value = v, tc_expires_at_ms = map_option (\<lambda>e. as_millis_u64 (e - t0)) e\<rparr>"]
    by (force simp: image_iff)
  then have keys: "tc_key ` set ?mine = {k. owned ext l ring k \<and> visible (ns_store peer) t0 k \<noteq> None}"
    using transfer_keys_iff [OF assms] by auto
  have "distinct (map tc_key ?mine)"
    using transfer_keys_distinct [of peer t0] assms by (simp add: node_inv_def distinct_map_filter)
  then show ?thesis unfolding keys [symmetric] by (metis distinct_card length_map list.set_map)
qed

lemma pull_transfer:
  assumes peer: "node_inv peer" and st: "store_inv st" and clk: "\<forall>i. clock i < 2 ^ 62 * nanos_per_sec"
  shows "\<exists>st'. pull_chunks ext clock l ring 0 (transfer_keys t0 peer) (0, st)
               = Inr (length (filter (\<lambda>c. owned ext l ring (tc_key c)) (transfer_keys t0 peer)), st')"
    and "pull_chunks ext clock l ring 0 (transfer_keys t0 peer) (0, st) = Inr (n, st') \<Longrightarrow>
         visible (ns_store peer) t0 k = Some (v, e) \<Longrightarrow> owned ext l ring k \<Longrightarrow>
         map_option (\<lambda>e. as_millis_u64 (e - t0)) e \<noteq> Some 0 \<Longrightarrow>
         \<exists>i. content_of st' k = Some (v, map_option (\<lambda>e. clock i + from_millis (as_millis_u64 (e - t0))) e)"
    and "pull_chunks ext clock l ring 0 (transfer_keys t0 peer) (0, st) = Inr (n, st') \<Longrightarrow>
         \<forall>v e. visible (ns_store peer) t0 k = Some (v, e) \<longrightarrow> \<not> owned ext l ring k \<or> map_option (\<lambda>e. as_millis_u64 (e - t0)) e = Some 0 \<Longrightarrow>
         content_of st' k = content_of st k"
proof -
  let ?cs = "transfer_keys t0 peer"
  have "distinct (map tc_key ?cs)" using transfer_keys_distinct peer by (simp add: node_inv_def)
  note spec = pull_chunks_spec [OF st clk this, of ext l ring 0 0]
  show "\<exists>st'. pull_chunks ext clock l ring 0 ?cs (0, st) = Inr (length (filter (\<lambda>c. owned ext l ring (tc_key c)) ?cs), st')"
    using spec by auto
  assume run: "pull_chunks ext clock l ring 0 ?cs (0, st) = Inr (n, st')"
  show "\<exists>i. content_of st' k = Some (v, map_option (\<lambda>e. clock i + from_millis (as_millis_u64 (e - t0))) e)"
    if vis: "visible (ns_store peer) t0 k = Some (v, e)" and "owned ext l ring k" "map_option (\<lambda>e. as_millis_u64 (e - t0)) e \<noteq> Some 0"
  proof -
    let ?c = "\<lparr>tc_key = k, tc_value = v, tc_expires_at_ms = map_option (\<lambda>e. as_millis_u64 (e - t0)) e\<rparr>"
    obtain j where "j < length ?cs" "?cs ! j = ?c"
      using transfer_keys_iff [OF peer, of ?c t0] vis by (auto simp: in_set_conv_nth)
    moreover have "let c = ?cs ! j in owned ext l ring (tc_key c) \<and> live_chunk c \<longrightarrow>
        content_of st' (tc_key c) = Some (tc_value c, map_option (\<lambda>ms. clock j + from_millis ms) (tc_expires_at_ms c))"
      using spec run \<open>j < length ?cs\<close> by auto
    ultimately show ?thesis using that(2,3) by (auto simp: live_chunk_def option.map_comp comp_def)
  qed
  show "content_of st' k = content_of st k"
    if "\<forall>v e. visible (ns_store peer) t0 k = Some (v, e) \<longrightarrow> \<not> owned ext l ring k \<or> map_option (\<lambda>e. as_millis_u64 (e - t0)) e = Some 0"
  proof -
    have "\<forall>c\<in>set ?cs. tc_key c = k \<longrightarrow> \<not> (owned ext l ring k \<and> live_chunk c)"
      using that transfer_keys_iff [OF peer] by (auto simp: live_chunk_def)
    then show ?thesis using spec run by auto
  qed
qed

section \<open>What a rebalance over all peers stores\<close>

text \<open>What one stream adds to the store: the chunks this node owns that are still alive, the later of two
  chunks for the same key counting.\<close>
fun offered :: "externs \<Rightarrow> (nat \<Rightarrow> instant) \<Rightarrow> node_id \<Rightarrow> hash_ring \<Rightarrow> nat \<Rightarrow> transfer_chunk list \<Rightarrow> bytes \<rightharpoonup> bytes \<times> instant option" where
  "offered ext clock l ring i [] = Map.empty"
| "offered ext clock l ring i (c # cs) =
     (if owned ext l ring (tc_key c) \<and> live_chunk c
      then [tc_key c \<mapsto> (tc_value c, map_option (\<lambda>ms. clock i + from_millis ms) (tc_expires_at_ms c))] else Map.empty)
     ++ offered ext clock l ring (i + 1) cs"

lemma pull_chunks_offered:
  assumes "store_inv st" "\<forall>i. clock i < 2 ^ 62 * nanos_per_sec"
  shows "\<exists>st'. pull_chunks ext clock l ring i chunks (n, st)
            = Inr (n + length (filter (\<lambda>c. owned ext l ring (tc_key c)) chunks), st')
          \<and> store_inv st' \<and> content_of st' = content_of st ++ offered ext clock l ring i chunks"
  using assms
proof (induction chunks arbitrary: i n st)
  case (Cons c chunks)
  have now: "clock i < 2 ^ 62 * nanos_per_sec" using Cons.prems(2) by blast
  let ?ok = "owned ext l ring (tc_key c)"
  let ?put = "put_entry (tc_key c) (tc_value c) (map_option (\<lambda>ms. clock i + from_millis ms) (tc_expires_at_ms c)) st"
  let ?st = "if ?ok \<and> live_chunk c then ?put else st"
  have "store_inv ?st" using Cons.prems(1) by simp
  then obtain st' where "pull_chunks ext clock l ring (i + 1) chunks (if ?ok then n + 1 else n, ?st)
      = Inr ((if ?ok then n + 1 else n) + length (filter (\<lambda>c. owned ext l ring (tc_key c)) chunks), st')"
    "store_inv st'" "content_of st' = content_of ?st ++ offered ext clock l ring (i + 1) chunks"
    using Cons.IH [OF _ Cons.prems(2)] by metis
  then show ?case
    using content_put [OF Cons.prems(1)] by (auto simp: accept_chunk_total [OF now])
qed simp

text \<open>What a peer contributes, and how many keys it is counted for; a stream that breaks off contributes but does not count.\<close>
definition peer_offer :: "externs \<Rightarrow> fetch \<Rightarrow> (addr \<Rightarrow> nat \<Rightarrow> instant) \<Rightarrow> node_id \<Rightarrow> hash_ring \<Rightarrow> node_info \<Rightarrow> bytes \<rightharpoonup> bytes \<times> instant option" where
  "peer_offer ext fetch clock l ring peer =
     (if ni_id peer = l then Map.empty
      else case fetch (ni_addr peer) of Inl e \<Rightarrow> Map.empty | Inr (chunks, lost) \<Rightarrow> offered ext (clock (ni_addr peer)) l ring 0 chunks)"

definition peer_count :: "externs \<Rightarrow> fetch \<Rightarrow> node_id \<Rightarrow> hash_ring \<Rightarrow> node_info \<Rightarrow> nat" where
  "peer_count ext fetch l ring peer =
     (if ni_id peer = l then 0
      else case fetch (ni_addr peer) of Inr (chunks, None) \<Rightarrow> length (filter (\<lambda>c. owned ext l ring (tc_key c)) chunks) | _ \<Rightarrow> 0)"

lemma pull_keys_offered:
  assumes "store_inv st" "\<forall>a i. clock a i < 2 ^ 62 * nanos_per_sec" "ni_id peer \<noteq> l"
  shows "\<exists>r st'. pull_keys_from ext fetch clock l (ni_addr peer) ring st = Inr (r, st')
          \<and> (case r of Inr count \<Rightarrow> count | Inl _ \<Rightarrow> 0) = peer_count ext fetch l ring peer
          \<and> store_inv st' \<and> content_of st' = content_of st ++ peer_offer ext fetch clock l ring peer"
proof (cases "fetch (ni_addr peer)")
  case (Inl e)
  then show ?thesis using assms by (simp add: pull_keys_from_def peer_count_def peer_offer_def)
next
  case (Inr cl)
  then obtain chunks lost where f: "fetch (ni_addr peer) = Inr (chunks, lost)" by (cases cl) auto
  obtain st' where "pull_chunks ext (clock (ni_addr peer)) l ring 0 chunks (0, st) = Inr (length (filter (\<lambda>c. owned ext l ring (tc_key c)) chunks), st')"
    "store_inv st'" "content_of st' = content_of st ++ offered ext (clock (ni_addr peer)) l ring 0 chunks"
    using pull_chunks_offered [of st "clock (ni_addr peer)" ext l ring 0 chunks 0] assms by auto
  then show ?thesis using f assms(3) by (cases lost) (simp_all add: pull_keys_from_def peer_count_def peer_offer_def)
qed

lemma rebalance_peers_offered:
  assumes "store_inv st" "\<forall>a i. clock a i < 2 ^ 62 * nanos_per_sec"
  shows "\<exists>st'. rebalance_peers ext fetch clock l ring peers (n, st) = Inr (n + sum_list (map (peer_count ext fetch l ring) peers), st')
          \<and> store_inv st' \<and> content_of st' = fold (\<lambda>peer m. m ++ peer_offer ext fetch clock l ring peer) peers (content_of st)"
  using assms(1)
proof (induction peers arbitrary: n st)
  case (Cons peer peers)
  show ?case
  proof (cases "ni_id peer = l")
    case True
    then have "peer_count ext fetch l ring peer = 0" "peer_offer ext fetch clock l ring peer = Map.empty"
      by (simp_all add: peer_count_def peer_offer_def)
    then show ?thesis using Cons.IH [OF Cons.prems] True by simp
  next
    case False
    obtain r st1 where one: "pull_keys_from ext fetch clock l (ni_addr peer) ring st = Inr (r, st1)"
      "(case r of Inr count \<Rightarrow> count | Inl _ \<Rightarrow> 0) = peer_count ext fetch l ring peer"
      "store_inv st1" "content_of st1 = content_of st ++ peer_offer ext fetch clock l ring peer"
      using pull_keys_offered [OF Cons.prems assms(2) False] by blast
    have "(case r of Inr count \<Rightarrow> n + count | Inl _ \<Rightarrow> n) = n + peer_count ext fetch l ring peer"
      using one(2) by (cases r) auto
    then show ?thesis using Cons.IH [OF one(3), of "n + peer_count ext fetch l ring peer"] False one(1,4) by (simp add: add.assoc)
  qed
qed simp

lemma offered_Some:
  "offered ext clock l ring i cs k = Some (v, d) \<Longrightarrow>
   \<exists>c\<in>set cs. \<exists>j. tc_key c = k \<and> owned ext l ring k \<and> live_chunk c \<and> v = tc_value c
     \<and> d = map_option (\<lambda>ms. clock j + from_millis ms) (tc_expires_at_ms c)"
  by (induction cs arbitrary: i) (fastforce simp: map_add_Some_iff split: if_splits)+

lemma offered_not_None:
  "c \<in> set cs \<Longrightarrow> tc_key c = k \<Longrightarrow> owned ext l ring k \<Longrightarrow> live_chunk c \<Longrightarrow> offered ext clock l ring i cs k \<noteq> None"
  by (induction cs arbitrary: i) (auto simp: map_add_None)

text \<open>A stream from a peer, by what the peer shows.\<close>
lemma offered_transfer:
  assumes "node_inv peer" "offered ext clock l ring i (transfer_keys t0 peer) k = Some (v, d)"
  shows "owned ext l ring k \<and> (\<exists>e j. visible (ns_store peer) t0 k = Some (v, e)
    \<and> d = map_option (\<lambda>e. clock j + from_millis (as_millis_u64 (e - t0))) e)"
proof -
  obtain c j where c: "c \<in> set (transfer_keys t0 peer)" "tc_key c = k" "owned ext l ring k" "v = tc_value c"
    "d = map_option (\<lambda>ms. clock j + from_millis ms) (tc_expires_at_ms c)"
    using offered_Some [OF assms(2)] by blast
  then show ?thesis using transfer_keys_iff [OF assms(1), of c t0] by (auto simp: option.map_comp comp_def)
qed

lemma transfer_offered:
  assumes "node_inv peer" "visible (ns_store peer) t0 k = Some (v, e)" "owned ext l ring k"
    and "map_option (\<lambda>e. as_millis_u64 (e - t0)) e \<noteq> Some 0"
  shows "offered ext clock l ring i (transfer_keys t0 peer) k \<noteq> None"
proof -
  let ?c = "\<lparr>tc_key = k, tc_value = v, tc_expires_at_ms = map_option (\<lambda>e. as_millis_u64 (e - t0)) e\<rparr>"
  have "?c \<in> set (transfer_keys t0 peer)" using transfer_keys_iff [OF assms(1), of ?c t0] assms(2) by auto
  then show ?thesis using offered_not_None [of ?c] assms(3,4) by (auto simp: live_chunk_def)
qed

section \<open>A transfer among everything else the node does\<close>

text \<open>The tasks of a joining node: the transfer, both servers, the sweeper and gossip.\<close>
datatype join_event =
    EvChunk instant transfer_chunk
  | EvSet instant set_request
  | EvGet instant bytes
  | EvDelete bytes
  | EvReplicate instant replicate_request
  | EvResp "instant \<times> instant" resp_value
  | EvSweep instant
  | EvMerge instant "remote_entry list"
  | EvTouch instant node_id
  | EvCheck instant

fun join_exec :: "externs \<Rightarrow> node_id \<Rightarrow> hash_ring \<Rightarrow> join_event \<Rightarrow> node_state \<Rightarrow> node_state run" where
  "join_exec ext l ring (EvChunk now c) s =
     and_then (accept_chunk ext now l ring c (0, ns_store s)) (\<lambda>r. Inr (s\<lparr>ns_store := snd r\<rparr>))"
| "join_exec ext l ring (EvSet now req) s = and_then (node_set now req s) (\<lambda>r. Inr (snd r))"
| "join_exec ext l ring (EvGet now key) s = Inr (snd (node_get now key s))"
| "join_exec ext l ring (EvDelete key) s = Inr (snd (node_delete key s))"
| "join_exec ext l ring (EvReplicate now req) s = and_then (replicate_write now req s) (\<lambda>r. Inr (snd r))"
| "join_exec ext l ring (EvResp clock v) s =
     and_then (handle_command clock v (ns_store s)) (\<lambda>r. Inr (s\<lparr>ns_store := snd r\<rparr>))"
| "join_exec ext l ring (EvSweep now) s = Inr (s\<lparr>ns_store := sweep now (ns_store s)\<rparr>)"
| "join_exec ext l ring (EvMerge now rs) s = Inr (s\<lparr>ns_table := merge now rs (ns_table s)\<rparr>)"
| "join_exec ext l ring (EvTouch now nid) s = Inr (s\<lparr>ns_table := touch now nid (ns_table s)\<rparr>)"
| "join_exec ext l ring (EvCheck now) s = Inr (s\<lparr>ns_table := check_timeouts now l (ns_table s)\<rparr>)"

fun join_run :: "externs \<Rightarrow> node_id \<Rightarrow> hash_ring \<Rightarrow> join_event list \<Rightarrow> node_state \<Rightarrow> node_state run" where
  "join_run ext l ring [] s = Inr s"
| "join_run ext l ring (ev # evs) s = and_then (join_exec ext l ring ev s) (join_run ext l ring evs)"

lemma accept_chunk_inv:
  assumes "store_inv st" "accept_chunk ext now l ring c (n, st) = Inr (m, st')"
  shows "store_inv st'"
  using pull_chunks_inv [of st ext "\<lambda>_. now" l ring 0 "[c]" n m st'] assms by simp

lemma join_exec_inv:
  assumes "node_inv s" "join_exec ext l ring ev s = Inr s'"
  shows "node_inv s'"
proof -
  have inv: "store_inv (ns_store s)" "table_inv (ns_table s)" "distinct (ns_tombstones s)"
    using assms(1) by (simp_all add: node_inv_def)
  show ?thesis
  proof (cases ev)
    case (EvChunk now c)
    then show ?thesis using assms(2) accept_chunk_inv [OF inv(1)] inv by (auto simp: and_then_Inr_conv node_inv_def)
  next
    case (EvResp clock v)
    then show ?thesis using assms(2) handle_command_inv [OF inv(1), of clock v] inv by (auto simp: and_then_Inr_conv node_inv_def)
  next
    case (EvCheck now)
    then show ?thesis using assms(2) check_timeouts_get(2) [OF inv(2)] inv by (auto simp: node_inv_def)
  next
    case (EvSet now req)
    then show ?thesis using assms(2) node_inv_ops(3) [OF assms(1), of now req] by (auto simp: and_then_Inr_conv)
  next
    case (EvReplicate now req)
    then show ?thesis using assms(2) node_inv_ops(4) [OF assms(1), of now req] by (auto simp: and_then_Inr_conv)
  next
    case (EvGet now key)
    then show ?thesis using assms(2) node_inv_ops(1) [OF assms(1), of now key] by simp
  next
    case (EvDelete key)
    then show ?thesis using assms(2) node_inv_ops(2) [OF assms(1), of key] by simp
  qed (use assms(2) inv in \<open>auto simp: node_inv_def intro: table_inv_merge table_inv_ops\<close>)
qed

lemma join_exec_tombstones: "join_exec ext l ring ev s = Inr s' \<Longrightarrow> set (ns_tombstones s) \<subseteq> set (ns_tombstones s')"
  by (cases ev)
    (auto simp: and_then_Inr_conv node_set_def replicate_write_def node_delete_def split: if_splits prod.splits)

lemma join_run_keeps:
  assumes "node_inv s" "join_run ext l ring evs s = Inr s'"
  shows "node_inv s' \<and> set (ns_tombstones s) \<subseteq> set (ns_tombstones s')"
  using assms
proof (induction evs arbitrary: s)
  case (Cons ev evs)
  then obtain s1 where "join_exec ext l ring ev s = Inr s1" "join_run ext l ring evs s1 = Inr s'"
    by (auto simp: and_then_Inr_conv)
  then show ?case
    using Cons.IH [of s1] join_exec_inv [OF Cons.prems(1)] join_exec_tombstones [of ext l ring ev s s1] by blast
qed simp

lemma complete_rebalance_visible:
  assumes "node_inv s"
  shows "visible (ns_store (complete_rebalance s)) t k = (if k \<in> set (ns_tombstones s) then None else visible (ns_store s) t k)"
  using cs.delete_batch [of "ns_store s" "ns_tombstones s" t k] assms
  by (simp add: complete_rebalance_def apply_tombstones_def node_inv_def Let_def)

section \<open>Properties\<close>

text \<open>A delete that reaches a node while it is joining is final, although the client is told the node is
  unavailable: whatever chunks, writes, reads, RESP commands, sweeps and gossip come before or after it,
  the key is not visible when the rebalance has completed.\<close>
theorem refused_delete_is_final:
  assumes "node_inv s" "join_run ext l ring before s = Inr s1" "is_self_joining (ns_table s1)"
    and "join_run ext l ring (EvDelete k # rest) s1 = Inr s2"
  shows "fst (node_delete k s1) = Inl (Status Unavailable ''node is joining'')
         \<and> visible (ns_store (complete_rebalance s2)) t k = None"
proof
  show "fst (node_delete k s1) = Inl (Status Unavailable ''node is joining'')"
    using assms(3) by (simp add: node_delete_def)
  have s1: "node_inv s1" using join_run_keeps [OF assms(1,2)] by simp
  have "k \<in> set (ns_tombstones (snd (node_delete k s1)))" using assms(3) by (simp add: node_delete_def)
  then have "node_inv s2 \<and> k \<in> set (ns_tombstones s2)"
    using join_run_keeps [of "snd (node_delete k s1)" ext l ring rest s2] node_inv_ops(2) [OF s1, of k] assms(4) by auto
  then show "visible (ns_store (complete_rebalance s2)) t k = None" by (simp add: complete_rebalance_visible)
qed

definition toy_node :: node_state where
  "toy_node = node_new 0 (NodeId 1) [\<lparr>ni_id = NodeId 2, ni_addr = ''n2''\<rparr>]"

definition toy_chunk :: transfer_chunk where
  "toy_chunk = \<lparr>tc_key = ''k'', tc_value = ''old'', tc_expires_at_ms = None\<rparr>"

theorem refused_delete_is_final_witness:
  "\<exists>s2. join_run demo_ext (NodeId 1) small_ring [EvDelete ''k'', EvChunk 2 toy_chunk] toy_node = Inr s2
        \<and> visible (ns_store (complete_rebalance s2)) 3 ''k'' = None"
proof -
  let ?evs = "[EvDelete ''k'', EvChunk 2 toy_chunk]"
  have "is_self_joining (ns_table toy_node)" by code_simp
  moreover obtain s2 where "join_run demo_ext (NodeId 1) small_ring ?evs toy_node = Inr s2"
    using accept_chunk_total [of 2 demo_ext "NodeId 1" small_ring toy_chunk 0]
    by (auto simp: nanos_per_sec_def)
  ultimately show ?thesis
    using refused_delete_is_final [of toy_node demo_ext "NodeId 1" small_ring "[]" toy_node "''k''" "[EvChunk 2 toy_chunk]" s2 3]
      node_inv_new [of 0 "NodeId 1" "[\<lparr>ni_id = NodeId 2, ni_addr = ''n2''\<rparr>]"] by (simp add: toy_node_def)
qed

text \<open>C35: the protection ends early when a peer accuses the joining node: the refutation rule of \<^verbatim>\<open>merge\<close> makes the
  node Alive in the middle of its transfer, a delete accepted then leaves no tombstone, and a chunk that
  arrives after it brings the deleted key back for good.\<close>
theorem accused_node_resurrects_key:
  assumes "node_inv s" "is_self_joining (ns_table s)" "local_incarnation (ns_table s) \<le> inc" "k \<notin> set (ns_tombstones s)"
    and "owned ext (mt_local_id (ns_table s)) ring k" "tc_key c = k" "tc_expires_at_ms c = None"
  shows "case join_run ext (mt_local_id (ns_table s)) ring
                [EvMerge now [(mt_local_id (ns_table s), addr, Suspect, inc)], EvDelete k, EvChunk now' c] s of
           Inl p \<Rightarrow> False
         | Inr s' \<Rightarrow> visible (ns_store (complete_rebalance s')) t k = Some (tc_value c, None)"
proof -
  let ?l = "mt_local_id (ns_table s)"
  obtain e where e: "hm_get (mt_members (ns_table s)) ?l = Some e" "me_status e = Joining"
    using assms(2) by (auto simp: is_self_joining_def split: option.splits)
  have inv: "store_inv (ns_store s)" "table_inv (ns_table s)" using assms(1) by (simp_all add: node_inv_def)
  let ?t = "merge now [(?l, addr, Suspect, inc)] (ns_table s)"
  let ?s1 = "s\<lparr>ns_table := ?t\<rparr>" and ?st = "snd (store_delete k (ns_store s))"
  have "hm_get (mt_members ?t) ?l = Some (e\<lparr>me_incarnation := inc + 1, me_status := Alive\<rparr>)"
    using e assms(3) put_member_get [OF inv(2), of ?l]
    by (simp add: merge_def merge_entry_def local_incarnation_def put_member_def [symmetric])
  then have joined: "\<not> is_self_joining ?t" by (simp add: is_self_joining_def)
  then have del: "snd (node_delete k ?s1) = ?s1\<lparr>ns_store := ?st\<rparr>"
    by (simp add: node_delete_def split: prod.split)
  have "store_inv ?st" using inv(1) by simp
  then have vis: "visible (put_entry k (tc_value c) None ?st) t k = Some (tc_value c, None)"
    by (simp add: cs.look_put not_after_def)
  have acc: "accept_chunk ext now' ?l ring c (0, ?st) = Inr (1, put_entry k (tc_value c) None ?st)"
    using assms(5-7) by (auto simp: accept_chunk_def owned_def set_from_transfer_def store_set_def split: option.splits)
  let ?s' = "?s1\<lparr>ns_store := put_entry k (tc_value c) None ?st\<rparr>"
  have "node_inv ?s'" using assms(1) inv by (simp add: node_inv_def table_inv_merge)
  then show ?thesis
    using assms(4) vis acc del by (simp add: complete_rebalance_visible)
qed

theorem accused_node_resurrects_key_witness:
  "case join_run demo_ext (NodeId 1) small_ring
          [EvMerge 1 [(NodeId 1, ''n1'', Suspect, 0)], EvDelete ''k'', EvChunk 2 toy_chunk] toy_node of
     Inl p \<Rightarrow> False
   | Inr s' \<Rightarrow> visible (ns_store (complete_rebalance s')) 3 ''k'' = Some (''old'', None)"
proof -
  have "node_inv toy_node" by (simp add: toy_node_def node_inv_new)
  moreover have "is_self_joining (ns_table toy_node)" "mt_local_id (ns_table toy_node) = NodeId 1"
    "local_incarnation (ns_table toy_node) \<le> 0" "''k'' \<notin> set (ns_tombstones toy_node)"
    "owned demo_ext (NodeId 1) small_ring ''k''" by code_simp+
  ultimately show ?thesis
    using accused_node_resurrects_key [of toy_node 0 "''k''" demo_ext small_ring toy_chunk, where now = 1 and addr = "''n1''" and now' = 2 and t = 3]
    by (simp add: toy_chunk_def del: join_exec.simps split: sum.splits)
qed

text \<open>C11: a transfer from a peer stores exactly the peer's live entries that the ring assigns to this node: such
  a key gets the peer's value, without a deadline if it had none and otherwise with the remaining time,
  rounded down to milliseconds, counted from its arrival; it counts them, and it touches no other key.\<close>
theorem transfer_stores_owned_keys:
  assumes "node_inv peer" "store_inv st" "\<forall>i. clock i < 2 ^ 62 * nanos_per_sec"
  shows "\<exists>n st'. pull_chunks ext clock l ring 0 (transfer_keys t0 peer) (0, st) = Inr (n, st')
    \<and> n = card {k. owned ext l ring k \<and> visible (ns_store peer) t0 k \<noteq> None}
    \<and> (\<forall>k. case visible (ns_store peer) t0 k of
             Some (v, None) \<Rightarrow> content_of st' k = (if owned ext l ring k then Some (v, None) else content_of st k)
           | Some (v, Some e) \<Rightarrow>
               if owned ext l ring k \<and> as_millis_u64 (e - t0) \<noteq> 0
               then \<exists>i. content_of st' k = Some (v, Some (clock i + from_millis (as_millis_u64 (e - t0))))
               else content_of st' k = content_of st k
           | None \<Rightarrow> content_of st' k = content_of st k)"
proof -
  have "case visible (ns_store peer) t0 k of
             Some (v, None) \<Rightarrow> content_of st' k = (if owned ext l ring k then Some (v, None) else content_of st k)
           | Some (v, Some e) \<Rightarrow>
               if owned ext l ring k \<and> as_millis_u64 (e - t0) \<noteq> 0
               then \<exists>i. content_of st' k = Some (v, Some (clock i + from_millis (as_millis_u64 (e - t0))))
               else content_of st' k = content_of st k
           | None \<Rightarrow> content_of st' k = content_of st k"
    if "pull_chunks ext clock l ring 0 (transfer_keys t0 peer) (0, st) = Inr (n, st')" for n st' k
    using pull_transfer(2,3) [OF assms that, of k] by (auto split: option.split)
  moreover obtain st' where "pull_chunks ext clock l ring 0 (transfer_keys t0 peer) (0, st)
      = Inr (card {k. owned ext l ring k \<and> visible (ns_store peer) t0 k \<noteq> None}, st')"
    using pull_transfer(1) [OF assms, of ext l ring t0] by (auto simp: owned_chunks_count [OF assms(1)])
  ultimately show ?thesis by blast
qed

definition toy_peer :: node_state where
  "toy_peer = node_new 0 (NodeId 2) [] \<lparr>ns_store := put_entry ''k'' ''old'' None (store_new 0)\<rparr>"

theorem transfer_stores_owned_keys_witness:
  "\<exists>n st'. pull_chunks demo_ext (\<lambda>_. 5) (NodeId 1) small_ring 0 (transfer_keys 3 toy_peer) (0, store_new 0) = Inr (n, st')
           \<and> content_of st' ''k'' = Some (''old'', None)"
proof -
  have "node_inv toy_peer" using node_inv_new [of 0 "NodeId 2" "[]"] by (simp add: toy_peer_def node_inv_def)
  moreover have "owned demo_ext (NodeId 1) small_ring ''k''" by code_simp
  moreover have "visible (ns_store toy_peer) 3 ''k'' = Some (''old'', None)"
    by (simp add: toy_peer_def cs.look_put not_after_def)
  moreover obtain n st' where "pull_chunks demo_ext (\<lambda>_. 5) (NodeId 1) small_ring 0 (transfer_keys 3 toy_peer) (0, store_new 0) = Inr (n, st')"
    "case visible (ns_store toy_peer) 3 ''k'' of
       Some (v, None) \<Rightarrow> content_of st' ''k'' = (if owned demo_ext (NodeId 1) small_ring ''k'' then Some (v, None) else content_of (store_new 0) ''k'')
     | _ \<Rightarrow> True"
    using transfer_stores_owned_keys [of toy_peer "store_new 0" "\<lambda>_. 5" demo_ext "NodeId 1" small_ring 3] calculation
    by (auto simp: nanos_per_sec_def dest!: spec [where x = "''k''"])
  ultimately show ?thesis by simp
qed

text \<open>C12: a rebalance lays the streams of its peers over the store, one after the other: a key ends up with what the
  last peer that streamed it sent, if the ring gives it to this node, and every other key is as before. Peers
  that cannot be reached are skipped, what a broken stream sent before it broke is kept but not counted,
  and no stream makes the rebalance panic.\<close>
theorem rebalance_overrides:
  assumes "store_inv st" "\<forall>a i. clock a i < 2 ^ 62 * nanos_per_sec"
  shows "\<exists>st'. rebalance ext fetch clock l peers ring st = Inr (sum_list (map (peer_count ext fetch l ring) peers), st')
    \<and> store_inv st' \<and> content_of st' = fold (\<lambda>peer m. m ++ peer_offer ext fetch clock l ring peer) peers (content_of st)"
  using rebalance_peers_offered [OF assms, of ext fetch l ring peers 0] by (simp add: rebalance_def)

text \<open>Three peers: the first cannot be reached, the others hold different values for a key.\<close>
definition toy_fetch :: fetch where
  "toy_fetch a = (if a = ''n2'' then Inl (Status Transport ''transport error'')
     else Inr ([\<lparr>tc_key = ''k'', tc_value = a, tc_expires_at_ms = None\<rparr>], if a = ''n4'' then Some (Status Transport ''reset'') else None))"

theorem rebalance_overrides_witness:
  "\<exists>st'. rebalance demo_ext toy_fetch (\<lambda>_ _. 5) (NodeId 1)
        [\<lparr>ni_id = NodeId 2, ni_addr = ''n2''\<rparr>, \<lparr>ni_id = NodeId 3, ni_addr = ''n3''\<rparr>, \<lparr>ni_id = NodeId 4, ni_addr = ''n4''\<rparr>] small_ring (store_new 0)
      = Inr (1, st') \<and> content_of st' ''k'' = Some (''n4'', None)"
proof -
  have own: "owned demo_ext (NodeId 1) small_ring ''k''" by code_simp
  have "store_inv (store_new 0)" "\<forall>(a::addr) (i::nat). (5::nat) < 2 ^ 62 * nanos_per_sec" by (simp_all add: nanos_per_sec_def)
  from rebalance_overrides [OF this, of demo_ext toy_fetch "NodeId 1"
      "[\<lparr>ni_id = NodeId 2, ni_addr = ''n2''\<rparr>, \<lparr>ni_id = NodeId 3, ni_addr = ''n3''\<rparr>, \<lparr>ni_id = NodeId 4, ni_addr = ''n4''\<rparr>]" small_ring]
  show ?thesis using own by (auto simp: peer_count_def peer_offer_def toy_fetch_def live_chunk_def)
qed

end
