(* ===== verification/Node_Process.thy ===== *)
theory Node_Process
  imports Rebalance
begin

text \<open>
  A running node, \<^verbatim>\<open>crates/node/src/main.rs\<close>: the tasks it spawns, interleaved at the points where one task can
  see another's effects. \<open>proc\<close> is the shared state beside what the tasks hold of their own: where the
  rebalancer is, and which refused deletes are between their steps. A label is one atomic step of one
  task with the input it gets from outside (a clock reading, a message, a request); \<open>proc_exec\<close> is \<open>None\<close>
  when the task is not at that point.

  \<^item> The rebalancer (\<^verbatim>\<open>wait_and_rebalance\<close>, \<^verbatim>\<open>rebalance\<close>, \<^verbatim>\<open>pull_keys_from\<close>) is cut at every await and lock: it polls,
    reads the membership again, connects, receives one chunk at a time, purges one tombstone at a time,
    and announces itself.
  \<^item> A delete during the join is cut into its check, its tombstone and its removal (\<^verbatim>\<open>grpc/service.rs\<close>).
  \<^item> Other handlers change the shared state once; reads that change nothing have no label.

  Shown here: without interference the steps compute \<open>wait_and_rebalance\<close>; the rebalancer cannot run
  forever and is never stuck; a node that has left the Joining state never returns to it; and a delete
  answered with "node is joining" stays final in every interleaving.
\<close>

section \<open>State and steps\<close>

text \<open>The chunks still to come from a peer, the error that ends them, and how many were accepted.\<close>
type_synonym pull = "transfer_chunk list \<times> status option \<times> nat"

datatype phase =
    Standalone
  | Polling
  | Converged
  | Pulling hash_ring "node_info list" "pull option" nat
  | Purging "bytes list" nat
  | Finished nat
  | Crashed panic

record proc =
  pr_node :: node_state
  pr_phase :: phase
  pr_checked :: "bytes list"
  pr_removing :: "bytes list"

text \<open>
  What \<^verbatim>\<open>main\<close> sets up: the identifier given or drawn (an unparsable one ends the program), the shared state
  and, when there are seeds, the rebalancer.
\<close>
definition node_main :: "externs \<Rightarrow> instant \<Rightarrow> node_id \<Rightarrow> (nat \<Rightarrow> node_id) \<Rightarrow> bytes option \<Rightarrow> bytes \<Rightarrow> proc option" where
  "node_main ext now drawn fresh id_arg seed_arg =
     (case (case id_arg of Some s \<Rightarrow> parse_node_id ext s | None \<Rightarrow> Some drawn) of
        None \<Rightarrow> None
      | Some nid \<Rightarrow>
          let seeds = seed_nodes fresh seed_arg
          in Some \<lparr>pr_node = node_new now nid seeds, pr_phase = (if seeds \<noteq> [] then Polling else Standalone),
                   pr_checked = [], pr_removing = []\<rparr>)"

datatype label =
    Poll | Rebuild | Connect | Chunk instant | EndOfStream | BeginPurge | Purge | Announce
  | PurgeExtra bytes
  | DeleteCheck bytes | DeleteTomb bytes | DeleteStore bytes
  | ClientSet instant set_request | ClientGet instant bytes | LateRemove bytes
  | Replicate instant replicate_request | Resp "instant \<times> instant" resp_value | Sweep instant
  | Merge instant "remote_entry list" | Touch instant node_id | Accuse node_id | Bury node_id

abbreviation local_of :: "proc \<Rightarrow> node_id" where
  "local_of p \<equiv> mt_local_id (ns_table (pr_node p))"

abbreviation with_store :: "cache_store \<Rightarrow> proc \<Rightarrow> proc" where
  "with_store st p \<equiv> p\<lparr>pr_node := (pr_node p)\<lparr>ns_store := st\<rparr>\<rparr>"

abbreviation with_table :: "membership_table \<Rightarrow> proc \<Rightarrow> proc" where
  "with_table t p \<equiv> p\<lparr>pr_node := (pr_node p)\<lparr>ns_table := t\<rparr>\<rparr>"

text \<open>The rebalancer. A panic while it stores a chunk ends the task and leaves the rest of the node running.\<close>
fun rebalancer_exec :: "externs \<Rightarrow> fetch \<Rightarrow> label \<Rightarrow> proc \<Rightarrow> proc option" where
  "rebalancer_exec ext fetch Poll p =
     (if pr_phase p = Polling \<and> routable_peers (ns_table (pr_node p)) \<noteq> [] then Some (p\<lparr>pr_phase := Converged\<rparr>) else None)"
| "rebalancer_exec ext fetch Rebuild p =
     (if pr_phase p = Converged
      then let t = ns_table (pr_node p)
           in Some (p\<lparr>pr_phase := Pulling (live_ring ext (local_of p) t) (map me_info (routable_peers t)) None 0\<rparr>)
      else None)"
| "rebalancer_exec ext fetch Connect p =
     (case pr_phase p of
        Pulling ring (peer # peers) None tot \<Rightarrow>
          Some (p\<lparr>pr_phase := Pulling ring peers
                    (if ni_id peer = local_of p then None
                     else case fetch (ni_addr peer) of
                            Inl e \<Rightarrow> None
                          | Inr (chunks, lost) \<Rightarrow> Some (chunks, lost, 0)) tot\<rparr>)
      | _ \<Rightarrow> None)"
| "rebalancer_exec ext fetch (Chunk now) p =
     (case pr_phase p of
        Pulling ring peers (Some (chunk # chunks, lost, n)) tot \<Rightarrow>
          (case accept_chunk ext now (local_of p) ring chunk (n, ns_store (pr_node p)) of
             Inl e \<Rightarrow> Some (p\<lparr>pr_phase := Crashed e\<rparr>)
           | Inr (n', st) \<Rightarrow> Some (with_store st (p\<lparr>pr_phase := Pulling ring peers (Some (chunks, lost, n')) tot\<rparr>)))
      | _ \<Rightarrow> None)"
| "rebalancer_exec ext fetch EndOfStream p =
     (case pr_phase p of
        Pulling ring peers (Some ([], lost, n)) tot \<Rightarrow>
          Some (p\<lparr>pr_phase := Pulling ring peers None (case lost of None \<Rightarrow> tot + n | Some e \<Rightarrow> tot)\<rparr>)
      | _ \<Rightarrow> None)"
| "rebalancer_exec ext fetch BeginPurge p =
     (case pr_phase p of
        Pulling ring [] None tot \<Rightarrow> Some (p\<lparr>pr_phase := Purging (ns_tombstones (pr_node p)) tot\<rparr>)
      | _ \<Rightarrow> None)"
| "rebalancer_exec ext fetch Purge p =
     (case pr_phase p of
        Purging (k # ks) tot \<Rightarrow>
          Some (with_store (snd (store_delete k (ns_store (pr_node p)))) (p\<lparr>pr_phase := Purging ks tot\<rparr>))
      | _ \<Rightarrow> None)"
| "rebalancer_exec ext fetch Announce p =
     (case pr_phase p of
        Purging [] tot \<Rightarrow> Some (with_table (mark_self_alive (ns_table (pr_node p))) (p\<lparr>pr_phase := Finished tot\<rparr>))
      | _ \<Rightarrow> None)"
| "rebalancer_exec ext fetch _ p = None"

text \<open>
  Everything else. \<open>PurgeExtra\<close>: the iteration over the tombstones may also meet keys inserted after it began.
  \<open>LateRemove\<close>: the second half of a read that found an expired entry earlier. \<open>Accuse\<close>, \<open>Bury\<close>: the failure
  detector, which skips the node itself.
\<close>
fun task_exec :: "label \<Rightarrow> proc \<Rightarrow> proc option" where
  "task_exec (PurgeExtra k) p =
     (case pr_phase p of
        Purging ks tot \<Rightarrow>
          if k \<in> set (ns_tombstones (pr_node p)) then Some (with_store (snd (store_delete k (ns_store (pr_node p)))) p) else None
      | _ \<Rightarrow> None)"
| "task_exec (DeleteCheck k) p =
     (if is_self_joining (ns_table (pr_node p)) then Some (p\<lparr>pr_checked := k # pr_checked p\<rparr>)
      else Some (with_store (snd (store_delete k (ns_store (pr_node p)))) p))"
| "task_exec (DeleteTomb k) p =
     (if k \<in> set (pr_checked p)
      then Some (p\<lparr>pr_node := (pr_node p)\<lparr>ns_tombstones := tomb_insert k (ns_tombstones (pr_node p))\<rparr>,
                   pr_checked := remove1 k (pr_checked p), pr_removing := k # pr_removing p\<rparr>)
      else None)"
| "task_exec (DeleteStore k) p =
     (if k \<in> set (pr_removing p)
      then Some (with_store (snd (store_delete k (ns_store (pr_node p)))) (p\<lparr>pr_removing := remove1 k (pr_removing p)\<rparr>))
      else None)"
| "task_exec (ClientSet now req) p =
     (case node_set now req (pr_node p) of Inl e \<Rightarrow> Some p | Inr (r, s) \<Rightarrow> Some (p\<lparr>pr_node := s\<rparr>))"
| "task_exec (ClientGet now key) p = Some (p\<lparr>pr_node := snd (node_get now key (pr_node p))\<rparr>)"
| "task_exec (LateRemove key) p = Some (with_store (get_remove key (ns_store (pr_node p))) p)"
| "task_exec (Replicate now req) p =
     (case replicate_write now req (pr_node p) of Inl e \<Rightarrow> Some p | Inr (r, s) \<Rightarrow> Some (p\<lparr>pr_node := s\<rparr>))"
| "task_exec (Resp clock v) p =
     (case handle_command clock v (ns_store (pr_node p)) of Inl e \<Rightarrow> Some p | Inr (r, st) \<Rightarrow> Some (with_store st p))"
| "task_exec (Sweep now) p = Some (with_store (sweep now (ns_store (pr_node p))) p)"
| "task_exec (Merge now rs) p = Some (with_table (merge now rs (ns_table (pr_node p))) p)"
| "task_exec (Touch now nid) p = Some (with_table (touch now nid (ns_table (pr_node p))) p)"
| "task_exec (Accuse nid) p =
     (if nid = local_of p then None else Some (with_table (snd (mark_suspect nid (ns_table (pr_node p)))) p))"
| "task_exec (Bury nid) p =
     (if nid = local_of p then None else Some (with_table (snd (mark_dead nid (ns_table (pr_node p)))) p))"
| "task_exec _ p = None"

fun rebalancer_label :: "label \<Rightarrow> bool" where
  "rebalancer_label Poll = True"
| "rebalancer_label Rebuild = True"
| "rebalancer_label Connect = True"
| "rebalancer_label (Chunk now) = True"
| "rebalancer_label EndOfStream = True"
| "rebalancer_label BeginPurge = True"
| "rebalancer_label Purge = True"
| "rebalancer_label Announce = True"
| "rebalancer_label _ = False"

definition proc_exec :: "externs \<Rightarrow> fetch \<Rightarrow> label \<Rightarrow> proc \<Rightarrow> proc option" where
  "proc_exec ext fetch l p = (if rebalancer_label l then rebalancer_exec ext fetch l p else task_exec l p)"

inductive proc_run :: "externs \<Rightarrow> fetch \<Rightarrow> proc \<Rightarrow> label list \<Rightarrow> proc \<Rightarrow> bool" for ext fetch where
  none: "proc_run ext fetch p [] p"
| step: "proc_exec ext fetch l p = Some p' \<Longrightarrow> proc_run ext fetch p' ls p'' \<Longrightarrow> proc_run ext fetch p (l # ls) p''"

inductive_simps proc_run_simps [simp]: "proc_run ext fetch p [] p'" "proc_run ext fetch p (l # ls) p'"


text \<open>Runs are deterministic in their labels, so concrete ones can be evaluated.\<close>
fun exec_labels :: "externs \<Rightarrow> fetch \<Rightarrow> label list \<Rightarrow> proc \<Rightarrow> proc option" where
  "exec_labels ext fetch [] p = Some p"
| "exec_labels ext fetch (l # ls) p = Option.bind (proc_exec ext fetch l p) (exec_labels ext fetch ls)"

lemma proc_run_exec: "proc_run ext fetch p ls p' \<longleftrightarrow> exec_labels ext fetch ls p = Some p'"
  by (induction ls arbitrary: p) (auto simp: bind_eq_Some_conv)

section \<open>Leaving the Joining state\<close>

text \<open>No step of the gossip tasks makes a node Joining that is not.\<close>
lemma joining_not_entered:
  assumes "table_inv t"
  shows "is_self_joining (merge now rs t) \<Longrightarrow> is_self_joining t"
    and "is_self_joining (touch now nid t) \<Longrightarrow> is_self_joining t"
    and "is_self_joining (snd (mark_suspect nid t)) \<Longrightarrow> is_self_joining t"
    and "is_self_joining (snd (mark_dead nid t)) \<Longrightarrow> is_self_joining t"
    and "\<not> is_self_joining (mark_self_alive t)"
proof -
  have one: "is_self_joining (merge_entry now r t) \<Longrightarrow> is_self_joining t" if inv: "table_inv t" for r t
  proof -
    obtain nid addr st inc where r: "r = (nid, addr, st, inc)" by (cases r) auto
    obtain i s where "view t (mt_local_id t) = Some (i, s)" using local_view_Some [OF inv] by blast
    then show "is_self_joining (merge_entry now r t) \<Longrightarrow> is_self_joining t"
      using refute_entry [OF inv, of i s now nid addr st inc] by (auto simp: is_self_joining_view r split: if_splits)
  qed
  show "is_self_joining (merge now rs t) \<Longrightarrow> is_self_joining t"
    using assms unfolding merge_def
  proof (induction rs arbitrary: t)
    case (Cons r rs)
    then show ?case using Cons.IH [of "merge_entry now r t"] one [of t r] table_inv_ops(6) [of t now r] by simp
  qed simp
  show "is_self_joining (touch now nid t) \<Longrightarrow> is_self_joining t" using assms by (simp add: is_self_joining_view view_touch)
  show "is_self_joining (snd (mark_suspect nid t)) \<Longrightarrow> is_self_joining t"
    using assms by (auto simp: is_self_joining_view view_mark_suspect split: if_splits)
  show "is_self_joining (snd (mark_dead nid t)) \<Longrightarrow> is_self_joining t"
    using assms by (auto simp: is_self_joining_view view_mark_dead split: if_splits)
  show "\<not> is_self_joining (mark_self_alive t)" using assms by (auto simp: is_self_joining_view view_mark_self_alive)
qed

lemma node_ops_table:
  "node_set now req s = Inr (r, s') \<Longrightarrow> ns_table s' = ns_table s \<and> ns_tombstones s' = ns_tombstones s"
  "replicate_write now rreq s = Inr (rr, s') \<Longrightarrow> ns_table s' = ns_table s \<and> ns_tombstones s' = ns_tombstones s"
  by (auto simp: node_set_def replicate_write_def and_then_Inr_conv split: if_splits)

lemma get_remove_delete: "get_remove k st = snd (store_delete k st)"
  by (simp add: get_remove_def store_delete_def)

text \<open>What the steps of either kind do to the shared state.\<close>
lemma rebalancer_exec_inv:
  assumes "rebalancer_exec ext fetch l p = Some p'" "node_inv (pr_node p)"
  shows "node_inv (pr_node p')" and "local_of p' = local_of p"
    and "is_self_joining (ns_table (pr_node p')) \<Longrightarrow> is_self_joining (ns_table (pr_node p))"
    and "ns_tombstones (pr_node p') = ns_tombstones (pr_node p)"
proof -
  have inv: "store_inv (ns_store (pr_node p))" "table_inv (ns_table (pr_node p))" "distinct (ns_tombstones (pr_node p))"
    using assms(2) by (simp_all add: node_inv_def)
  note tab = table_inv_ops(5) [OF inv(2)]
  have "node_inv (pr_node p') \<and> local_of p' = local_of p \<and> ns_tombstones (pr_node p') = ns_tombstones (pr_node p)
      \<and> (is_self_joining (ns_table (pr_node p')) \<longrightarrow> is_self_joining (ns_table (pr_node p)))"
    using assms(1) inv joining_not_entered(5) [OF inv(2)] accept_chunk_inv [OF inv(1)] tab assms(2)
    by (cases l)
      (auto simp: Let_def node_inv_def split: if_splits phase.splits list.splits option.splits prod.splits sum.splits)
  then show "node_inv (pr_node p')" "local_of p' = local_of p" "ns_tombstones (pr_node p') = ns_tombstones (pr_node p)"
    "is_self_joining (ns_table (pr_node p')) \<Longrightarrow> is_self_joining (ns_table (pr_node p))" by simp_all
qed

lemma task_exec_phase: "task_exec l p = Some p' \<Longrightarrow> pr_phase p' = pr_phase p"
  by (cases l) (auto split: if_splits phase.splits sum.splits prod.splits)

lemma task_exec_inv:
  assumes "task_exec l p = Some p'" "node_inv (pr_node p)"
  shows "node_inv (pr_node p')" and "local_of p' = local_of p"
    and "is_self_joining (ns_table (pr_node p')) \<Longrightarrow> is_self_joining (ns_table (pr_node p))"
    and "set (ns_tombstones (pr_node p)) \<subseteq> set (ns_tombstones (pr_node p'))" and "pr_phase p' = pr_phase p"
proof -
  let ?s = "pr_node p"
  have inv: "store_inv (ns_store ?s)" "table_inv (ns_table ?s)" "distinct (ns_tombstones ?s)"
    using assms(2) by (simp_all add: node_inv_def)
  note tab = table_inv_ops [OF inv(2)] table_inv_merge [OF inv(2)]
  note ops = node_inv_ops [OF assms(2)] node_ops_table [where s = ?s]
  have "node_inv (pr_node p') \<and> local_of p' = local_of p \<and> pr_phase p' = pr_phase p
      \<and> set (ns_tombstones ?s) \<subseteq> set (ns_tombstones (pr_node p'))
      \<and> (is_self_joining (ns_table (pr_node p')) \<longrightarrow> is_self_joining (ns_table ?s))"
  proof (cases l)
    case (ClientSet now req)
    then show ?thesis using assms ops by (fastforce split: sum.splits prod.splits)
  next
    case (Replicate now req)
    then show ?thesis using assms ops by (fastforce split: sum.splits prod.splits)
  next
    case (Resp clock v)
    then show ?thesis using assms inv handle_command_inv [OF inv(1), of clock v] by (auto simp: node_inv_def split: sum.splits prod.splits)
  next
    case (ClientGet now key)
    then show ?thesis using assms ops by auto
  qed (use assms inv tab joining_not_entered [OF inv(2)] in
      \<open>auto simp: node_inv_def get_remove_delete split: if_splits phase.splits\<close>)
  then show "node_inv (pr_node p')" "local_of p' = local_of p" "pr_phase p' = pr_phase p"
    "set (ns_tombstones ?s) \<subseteq> set (ns_tombstones (pr_node p'))"
    "is_self_joining (ns_table (pr_node p')) \<Longrightarrow> is_self_joining (ns_table ?s)" by simp_all
qed


lemma proc_exec_inv:
  assumes "proc_exec ext fetch l p = Some p'" "node_inv (pr_node p)"
  shows "node_inv (pr_node p')" and "local_of p' = local_of p"
    and "is_self_joining (ns_table (pr_node p')) \<Longrightarrow> is_self_joining (ns_table (pr_node p))"
    and "set (ns_tombstones (pr_node p)) \<subseteq> set (ns_tombstones (pr_node p'))"
  using assms rebalancer_exec_inv [of ext fetch l p p'] task_exec_inv [of l p p']
  by (auto simp: proc_exec_def split: if_splits)

section \<open>Tombstones and removals\<close>

text \<open>Requests that store a value under a key.\<close>
definition resp_writes :: "resp_value \<Rightarrow> bytes \<Rightarrow> bool" where
  "resp_writes v k = (case v of
     RespArray (name # key # args) \<Rightarrow>
       Option.bind (extract_str name) to_uppercase_ascii = Some ''SET'' \<and> extract_str key = Some k
   | _ \<Rightarrow> False)"

fun writes :: "label \<Rightarrow> bytes \<Rightarrow> bool" where
  "writes (ClientSet now req) k = (sr_key req = k)"
| "writes (Replicate now req) k = (rr_key req = k)"
| "writes (Resp clock v) k = resp_writes v k"
| "writes _ k = False"

lemma absent_get: "store_inv st \<Longrightarrow> content_of st k = None \<Longrightarrow> content_of (snd (store_get now key st)) k = None"
  by (auto simp: content_get shown_None)

lemma absent_set: "store_inv st \<Longrightarrow> content_of st k = None \<Longrightarrow> key \<noteq> k \<Longrightarrow> store_set now key v ttl st = Inr st' \<Longrightarrow> content_of st' k = None"
  by (auto simp: store_set_Inr content_put)

lemma absent_command:
  assumes "store_inv st" "content_of st k = None" "\<not> resp_writes v k" "handle_command clock v st = Inr (r, st')"
  shows "content_of st' k = None"
proof -
  obtain t1 t2 where clock: "clock = (t1, t2)" by (cases clock)
  have get: "content_of st1 k = None" if "store_get now key st = (x, st1)" for now key x st1
    using that absent_get [OF assms(1,2), of now key] by simp
  have del: "content_of st1 k = None" if "del_keys args 0 st = (n, st1)" for args n st1
    using that del_keys_spec [OF assms(1), of args 0] assms(2) by auto
  have expire: "content_of st1 k = None" if "store_expire now key d st = Inr (b, st1)" for now key d b st1
    using store_expire_Inr [OF assms(1) that] assms(2) by (auto split: option.splits)
  show ?thesis
  proof (cases v)
    case (RespArray args)
    have set: "content_of st1 k = None"
      if "cmd_set now args st = Inr (r1, st1)" "extract_str (args ! 0) = Some s" "to_uppercase_ascii s = Some ''SET''" for now r1 st1 s
    proof (cases "3 \<le> length args")
      case True
      then obtain name key rest where args: "args = name # key # rest" by (cases args rule: list.exhaust; cases "tl args") auto
      have "extract_str key \<noteq> Some k" using assms(3) that(2,3) by (auto simp: RespArray resp_writes_def args)
      then show ?thesis
        using that(1) assms(1,2) absent_set [OF assms(1,2)]
        by (auto simp: cmd_set_def args and_then_Inr_conv split: if_splits option.splits sum.splits)
    qed (use that(1) assms(2) in \<open>auto simp: cmd_set_def\<close>)
    then show ?thesis
      using assms(2,4) get del expire unfolding clock RespArray
      by (auto simp: Let_def cmd_get_def cmd_del_def cmd_exists_def cmd_ttl_def cmd_expire_def store_exists_def and_then_Inr_conv
            split: if_splits option.splits prod.splits)
  qed (use assms in \<open>auto simp: clock\<close>)
qed

text \<open>A key that is not stored is not brought back by any task but a write of it or the transfer.\<close>
lemma absent_task:
  assumes "task_exec l p = Some p'" "node_inv (pr_node p)" "\<not> writes l k" "content_of (ns_store (pr_node p)) k = None"
  shows "content_of (ns_store (pr_node p')) k = None"
proof -
  have inv: "store_inv (ns_store (pr_node p))" using assms(2) by (simp add: node_inv_def)
  show ?thesis
  proof (cases l)
    case (ClientSet now req)
    then show ?thesis
      using assms absent_set [OF inv assms(4)]
      by (auto simp: node_set_def and_then_Inr_conv split: if_splits sum.splits prod.splits)
  next
    case (Replicate now req)
    then show ?thesis
      using assms absent_set [OF inv assms(4)]
      by (auto simp: replicate_write_def and_then_Inr_conv split: if_splits sum.splits prod.splits)
  next
    case (Resp clock v)
    then show ?thesis using assms absent_command [OF inv assms(4), of v clock] by (auto split: sum.splits prod.splits)
  next
    case (ClientGet now key)
    then show ?thesis using assms absent_get [OF inv assms(4)] by (auto simp: node_get_state)
  qed (use assms inv in \<open>auto simp: content_delete content_sweep shown_def get_remove_delete split: if_splits phase.splits\<close>)
qed


definition proc_inv :: "proc \<Rightarrow> bool" where
  "proc_inv p \<longleftrightarrow> node_inv (pr_node p) \<and> set (pr_removing p) \<subseteq> set (ns_tombstones (pr_node p))
     \<and> (pr_phase p \<in> {Standalone} \<union> range Finished \<longrightarrow> \<not> is_self_joining (ns_table (pr_node p)))"

lemma proc_inv_main: "node_main ext now drawn fresh id_arg seed_arg = Some p \<Longrightarrow> proc_inv p"
  by (auto simp: node_main_def Let_def proc_inv_def node_inv_new [unfolded node_new_def] is_self_joining_def node_new_def table_new_get_local
      split: option.splits if_splits)

lemma phase_finished:
  "proc_exec ext fetch l p = Some p' \<Longrightarrow> pr_phase p' = Finished n \<Longrightarrow> pr_phase p = Finished n \<or> l = Announce"
  "proc_exec ext fetch l p = Some p' \<Longrightarrow> pr_phase p' = Standalone \<Longrightarrow> pr_phase p = Standalone"
  by (cases l; auto simp: proc_exec_def Let_def
      split: if_splits phase.splits list.splits option.splits prod.splits sum.splits)+

lemma removing_step: "proc_exec ext fetch l p = Some p' \<Longrightarrow> set (pr_removing p') \<subseteq> set (pr_removing p) \<or> (\<exists>k. l = DeleteTomb k)"
  by (cases l; auto simp: proc_exec_def Let_def dest: subsetD [OF set_remove1_subset]
      split: if_splits phase.splits list.splits option.splits prod.splits sum.splits)

lemma proc_inv_step:
  assumes "proc_inv p" "proc_exec ext fetch l p = Some p'"
  shows "proc_inv p'"
proof -
  have inv: "node_inv (pr_node p)" using assms(1) by (simp add: proc_inv_def)
  note step = proc_exec_inv [OF assms(2) inv]
  have "set (pr_removing p') \<subseteq> set (ns_tombstones (pr_node p'))"
  proof (cases "\<exists>k. l = DeleteTomb k")
    case True
    then show ?thesis using assms by (auto simp: proc_exec_def proc_inv_def split: if_splits)
  next
    case False
    then show ?thesis using removing_step [OF assms(2)] step(4) assms(1) by (auto simp: proc_inv_def)
  qed
  moreover have "\<not> is_self_joining (ns_table (pr_node p'))" if "l = Announce"
  proof -
    have "table_inv (ns_table (pr_node p))" using inv by (simp add: node_inv_def)
    then show ?thesis
      using joining_not_entered(5) [of "ns_table (pr_node p)"] assms(2) that by (auto simp: proc_exec_def split: phase.splits list.splits)
  qed
  moreover have "pr_phase p' = Standalone \<Longrightarrow> pr_phase p = Standalone"
    "pr_phase p' = Finished n \<Longrightarrow> pr_phase p = Finished n \<or> l = Announce" for n
    using phase_finished [OF assms(2)] by blast+
  ultimately show ?thesis using step assms(1) unfolding proc_inv_def by blast
qed

lemma proc_run_inv: "proc_run ext fetch p ls p' \<Longrightarrow> proc_inv p \<Longrightarrow> proc_inv p'"
  by (induction rule: proc_run.induct) (auto intro: proc_inv_step)

text \<open>Where a removed key can still come from: nowhere, or from a transfer that the purge is going to clean up after.\<close>
definition settled :: "bytes \<Rightarrow> proc \<Rightarrow> bool" where
  "settled k p \<longleftrightarrow> k \<in> set (ns_tombstones (pr_node p)) \<and>
     (case pr_phase p of
        Purging ks tot \<Rightarrow> k \<in> set ks \<or> content_of (ns_store (pr_node p)) k = None
      | Finished tot \<Rightarrow> content_of (ns_store (pr_node p)) k = None
      | Standalone \<Rightarrow> content_of (ns_store (pr_node p)) k = None
      | _ \<Rightarrow> True)"

lemma settled_step:
  assumes "proc_exec ext fetch l p = Some p'" "node_inv (pr_node p)" "settled k p" "\<not> writes l k"
  shows "settled k p'"
proof -
  have inv: "store_inv (ns_store (pr_node p))" using assms(2) by (simp add: node_inv_def)
  show ?thesis
  proof (cases "rebalancer_label l")
    case True
    then have "rebalancer_exec ext fetch l p = Some p'" using assms(1) by (simp add: proc_exec_def)
    then show ?thesis
      using assms(3) inv
      by (cases l)
        (auto simp: settled_def Let_def content_delete split: if_splits phase.splits list.splits option.splits prod.splits sum.splits)
  next
    case False
    then have exec: "task_exec l p = Some p'" using assms(1) by (simp add: proc_exec_def)
    have "k \<in> set (ns_tombstones (pr_node p'))" "pr_phase p' = pr_phase p"
      using task_exec_inv(4,5) [OF exec assms(2)] assms(3) by (auto simp: settled_def)
    then show ?thesis
      using absent_task [OF exec assms(2,4)] assms(3) by (auto simp: settled_def split: phase.splits)
  qed
qed

lemma settled_run:
  "proc_run ext fetch p ls p' \<Longrightarrow> node_inv (pr_node p) \<Longrightarrow> settled k p \<Longrightarrow> \<forall>l\<in>set ls. \<not> writes l k \<Longrightarrow> settled k p'"
proof (induction rule: proc_run.induct)
  case (step l p p' ls p'')
  then show ?case using proc_exec_inv(1) [OF step.hyps(1)] settled_step [OF step.hyps(1)] by simp
qed

section \<open>The rebalancer comes to an end\<close>

definition peer_work :: "fetch \<Rightarrow> node_info \<Rightarrow> nat" where
  "peer_work fetch peer = (case fetch (ni_addr peer) of Inl e \<Rightarrow> 1 | Inr (chunks, lost) \<Rightarrow> length chunks + 2)"

text \<open>The stage, and the steps left in it.\<close>
fun phase_work :: "fetch \<Rightarrow> phase \<Rightarrow> nat \<times> nat" where
  "phase_work fetch Polling = (4, 0)"
| "phase_work fetch Converged = (3, 0)"
| "phase_work fetch (Pulling ring peers None tot) = (2, sum_list (map (peer_work fetch) peers))"
| "phase_work fetch (Pulling ring peers (Some (chunks, lost, n)) tot) = (2, length chunks + 1 + sum_list (map (peer_work fetch) peers))"
| "phase_work fetch (Purging ks tot) = (1, length ks)"
| "phase_work fetch _ = (0, 0)"

definition ended :: "phase \<Rightarrow> bool" where
  "ended ph \<longleftrightarrow> ph \<in> {Standalone} \<union> range Finished \<union> range Crashed"

lemma rebalancer_decreases:
  "rebalancer_exec ext fetch l p = Some p' \<Longrightarrow>
     (phase_work fetch (pr_phase p'), phase_work fetch (pr_phase p)) \<in> less_than <*lex*> less_than"
  by (cases l) (auto simp: Let_def peer_work_def split: if_splits phase.splits list.splits option.splits prod.splits sum.splits)

text \<open>The rebalancer waits for nothing but a routable peer.\<close>
lemma rebalancer_enabled:
  assumes "\<not> ended (pr_phase p)" "pr_phase p = Polling \<Longrightarrow> routable_peers (ns_table (pr_node p)) \<noteq> []"
  shows "\<exists>l. rebalancer_label l \<and> proc_exec ext fetch l p \<noteq> None"
proof (cases "pr_phase p")
  case (Pulling ring peers st tot)
  show ?thesis
  proof (cases st)
    case None
    then show ?thesis using Pulling by (cases peers) (auto simp: proc_exec_def intro: exI [of _ BeginPurge] exI [of _ Connect])
  next
    case (Some pull)
    obtain chunks lost n where pull: "pull = (chunks, lost, n)" by (cases pull)
    show ?thesis
    proof (cases chunks)
      case Nil
      then show ?thesis using Pulling Some pull by (intro exI [of _ EndOfStream]) (simp add: proc_exec_def)
    next
      case (Cons c cs)
      then show ?thesis using Pulling Some pull by (intro exI [of _ "Chunk 0"]) (auto simp: proc_exec_def split: sum.split prod.split)
    qed
  qed
next
  case (Purging ks tot)
  then show ?thesis by (cases ks) (auto simp: proc_exec_def intro: exI [of _ Announce] exI [of _ Purge])
qed (use assms in \<open>auto simp: ended_def proc_exec_def Let_def intro: exI [of _ Poll] exI [of _ Rebuild]\<close>)


text \<open>Along a run that never stops, a measure that some steps decrease and no step increases can decrease only finitely often.\<close>
lemma finitely_many_decreases:
  assumes "wf R" and down: "\<And>i. hit i \<Longrightarrow> (f (Suc i), f i) \<in> R" and same: "\<And>i. \<not> hit i \<Longrightarrow> f (Suc i) = f i"
  shows "finite {i. hit i}"
proof -
  have "finite {j. i \<le> j \<and> hit j}" if "f i = x" for i x
    using assms(1) that
  proof (induction x arbitrary: i rule: wf_induct_rule)
    case (less x)
    show ?case
    proof (cases "\<exists>j\<ge>i. hit j")
      case True
      define j where "j = (LEAST j. i \<le> j \<and> hit j)"
      have j: "i \<le> j" "hit j" using LeastI_ex [of "\<lambda>j. i \<le> j \<and> hit j"] True by (auto simp: j_def)
      have before: "\<not> hit k" if "i \<le> k" "k < j" for k using not_less_Least [of k "\<lambda>j. i \<le> j \<and> hit j"] that by (auto simp: j_def)
      have "f (i + n) = f i" if "i + n \<le> j" for n
        using that
      proof (induction n)
        case (Suc n)
        then show ?case using same [OF before [of "i + n"]] by simp
      qed simp
      from this [of "j - i"] have "(f (Suc j), x) \<in> R" using down [OF j(2)] j(1) less.prems by simp
      then have "finite {k. Suc j \<le> k \<and> hit k}" using less.IH by blast
      moreover have "{k. i \<le> k \<and> hit k} = insert j {k. Suc j \<le> k \<and> hit k}"
        using j before by (auto simp: not_less_eq_eq [symmetric])
      ultimately show ?thesis by simp
    next
      case False
      then have "{j. i \<le> j \<and> hit j} = {}" by auto
      then show ?thesis by (simp only: finite.emptyI)
    qed
  qed
  from this [of 0] show ?thesis by simp
qed

section \<open>The rebalancer alone\<close>

lemma proc_run_append: "proc_run ext fetch p ls p1 \<Longrightarrow> proc_run ext fetch p1 ls' p2 \<Longrightarrow> proc_run ext fetch p (ls @ ls') p2"
  by (induction rule: proc_run.induct) auto

lemma run_chunks:
  assumes "pull_chunks ext clk (local_of p) ring i chunks (n, ns_store (pr_node p)) = Inr (n', st')"
    "pr_phase p = Pulling ring peers (Some (chunks, lost, n)) tot"
  shows "proc_run ext fetch p (map (\<lambda>j. Chunk (clk j)) [i..<i + length chunks])
           (with_store st' (p\<lparr>pr_phase := Pulling ring peers (Some ([], lost, n')) tot\<rparr>))"
  using assms
proof (induction chunks arbitrary: i n p)
  case Nil
  then have "p = with_store st' (p\<lparr>pr_phase := Pulling ring peers (Some ([], lost, n')) tot\<rparr>)" by simp
  then show ?case by (simp add: proc_run.none)
next
  case (Cons c chunks)
  obtain n1 st1 where acc: "accept_chunk ext (clk i) (local_of p) ring c (n, ns_store (pr_node p)) = Inr (n1, st1)"
    and rest: "pull_chunks ext clk (local_of p) ring (i + 1) chunks (n1, st1) = Inr (n', st')"
    using Cons.prems(1) by (auto simp: and_then_Inr_conv)
  let ?p = "with_store st1 (p\<lparr>pr_phase := Pulling ring peers (Some (chunks, lost, n1)) tot\<rparr>)"
  have "proc_exec ext fetch (Chunk (clk i)) p = Some ?p" using acc Cons.prems(2) by (simp add: proc_exec_def)
  moreover have "[i..<i + length (c # chunks)] = i # [Suc i..<Suc i + length chunks]" by (subst upt_conv_Cons) simp_all
  ultimately show ?case using Cons.IH [of ?p "i + 1" n1] rest by simp
qed

lemma run_peers:
  assumes "rebalance_peers ext fetch clock (local_of p) ring peers (tot, ns_store (pr_node p)) = Inr (n, st)"
    "pr_phase p = Pulling ring peers None tot"
  shows "\<exists>ls. list_all rebalancer_label ls
     \<and> proc_run ext fetch p ls (with_store st (p\<lparr>pr_phase := Pulling ring [] None n\<rparr>))"
  using assms
proof (induction peers arbitrary: tot p)
  case Nil
  then have "p = with_store st (p\<lparr>pr_phase := Pulling ring [] None n\<rparr>)" by simp
  then show ?case by (intro exI [of _ "[]"]) simp
next
  case (Cons peer peers)
  have next_peer: ?case
    if "list_all rebalancer_label ls1" "proc_run ext fetch p ls1 p1" "pr_phase p1 = Pulling ring peers None tot1"
      "rebalance_peers ext fetch clock (local_of p1) ring peers (tot1, ns_store (pr_node p1)) = Inr (n, st)"
      "with_store st (p1\<lparr>pr_phase := Pulling ring [] None n\<rparr>) = with_store st (p\<lparr>pr_phase := Pulling ring [] None n\<rparr>)" for ls1 p1 tot1
  proof -
    note hyps = that
    obtain ls where "list_all rebalancer_label ls" "proc_run ext fetch p1 ls (with_store st (p\<lparr>pr_phase := Pulling ring [] None n\<rparr>))"
      using Cons.IH [OF hyps(4,3)] unfolding hyps(5) by blast
    then show ?thesis using hyps(1) proc_run_append [OF hyps(2)] by (intro exI [of _ "ls1 @ ls"]) simp
  qed
  let ?skip = "p\<lparr>pr_phase := Pulling ring peers None tot\<rparr>"
  consider "ni_id peer = local_of p \<or> (\<exists>e. fetch (ni_addr peer) = Inl e)"
    | chunks lost where "ni_id peer \<noteq> local_of p" "fetch (ni_addr peer) = Inr (chunks, lost)"
    by (cases "fetch (ni_addr peer)") auto
  then show ?case
  proof cases
    case 1
    have "proc_run ext fetch p [Connect] ?skip" using 1 Cons.prems(2) by (auto simp: proc_exec_def)
    then show ?thesis
      using next_peer [of "[Connect]" ?skip tot] 1 Cons.prems(1) by (auto simp: pull_keys_from_def split: if_splits)
  next
    case (2 chunks lost)
    obtain c st1 where pull: "pull_chunks ext (clock (ni_addr peer)) (local_of p) ring 0 chunks (0, ns_store (pr_node p)) = Inr (c, st1)"
      and rest: "rebalance_peers ext fetch clock (local_of p) ring peers (case lost of None \<Rightarrow> tot + c | Some e \<Rightarrow> tot, st1) = Inr (n, st)"
      using Cons.prems(1) 2 by (auto simp: pull_keys_from_def and_then_Inr_conv split: option.splits)
    let ?p0 = "p\<lparr>pr_phase := Pulling ring peers (Some (chunks, lost, 0)) tot\<rparr>"
    let ?p1 = "with_store st1 (?p0\<lparr>pr_phase := Pulling ring peers (Some ([], lost, c)) tot\<rparr>)"
    let ?p2 = "?p1\<lparr>pr_phase := Pulling ring peers None (case lost of None \<Rightarrow> tot + c | Some e \<Rightarrow> tot)\<rparr>"
    let ?cs = "map (\<lambda>j. Chunk (clock (ni_addr peer) j)) [0..<0 + length chunks]"
    have "proc_exec ext fetch Connect p = Some ?p0" using 2 Cons.prems(2) by (simp add: proc_exec_def)
    moreover have cs: "proc_run ext fetch ?p0 ?cs ?p1" using run_chunks [of ext "clock (ni_addr peer)" ?p0 ring 0 chunks 0 c st1] pull by simp
    moreover have "proc_run ext fetch ?p1 [EndOfStream] ?p2" by (simp add: proc_exec_def)
    note proc_run_append [OF cs this]
    ultimately have "proc_run ext fetch p (Connect # ?cs @ [EndOfStream]) ?p2" by (intro proc_run.step)
    then show ?thesis using rest by (intro next_peer [of "Connect # ?cs @ [EndOfStream]" ?p2]) (auto simp: list_all_iff)
  qed
qed

lemma run_purge:
  assumes "pr_phase p = Purging ks tot"
  shows "proc_run ext fetch p (replicate (length ks) Purge)
           (with_store (fold (\<lambda>k st. snd (store_delete k st)) ks (ns_store (pr_node p))) (p\<lparr>pr_phase := Purging [] tot\<rparr>))"
  using assms
proof (induction ks arbitrary: p)
  case Nil
  then have "p = with_store (ns_store (pr_node p)) (p\<lparr>pr_phase := Purging [] tot\<rparr>)" by simp
  then show ?case by (simp add: proc_run.none)
next
  case (Cons k ks)
  let ?p = "with_store (snd (store_delete k (ns_store (pr_node p)))) (p\<lparr>pr_phase := Purging ks tot\<rparr>)"
  have "proc_exec ext fetch Purge p = Some ?p" using Cons.prems by (simp add: proc_exec_def)
  then show ?case using Cons.IH [of ?p] by simp
qed

lemma rebalancer_run:
  assumes "pr_phase p = Polling"
    and "wait_and_rebalance ext fetch clock (local_of p) [ns_table (pr_node p)] (pr_node p) = Some (Inr (n, s'))"
  shows "\<exists>ls. list_all rebalancer_label ls \<and> proc_run ext fetch p ls (p\<lparr>pr_phase := Finished n, pr_node := s'\<rparr>)"
proof -
  let ?s = "pr_node p"
  let ?t = "ns_table (pr_node p)"
  let ?ring = "live_ring ext (local_of p) ?t" and ?peers = "map me_info (routable_peers ?t)"
  have ready: "routable_peers ?t \<noteq> []" using assms(2) by (auto simp: wait_and_rebalance_def split: if_splits)
  then obtain st where st: "rebalance ext fetch clock (local_of p) ?peers ?ring (ns_store ?s) = Inr (n, st)"
    and s': "s' = complete_rebalance (?s\<lparr>ns_store := st\<rparr>)"
    using assms(2) by (auto simp: wait_and_rebalance_def and_then_Inr_conv)
  let ?p1 = "p\<lparr>pr_phase := Pulling ?ring ?peers None 0\<rparr>" and ?p2 = "with_store st (p\<lparr>pr_phase := Pulling ?ring [] None n\<rparr>)"
  have "proc_run ext fetch p [Poll, Rebuild] ?p1" using assms(1) ready by (simp add: proc_exec_def Let_def)
  moreover obtain ls where ls: "list_all rebalancer_label ls" "proc_run ext fetch ?p1 ls ?p2"
    using run_peers [of ext fetch clock ?p1 ?ring ?peers 0 n st] st by (auto simp: rebalance_def)
  moreover have "proc_run ext fetch ?p2 [BeginPurge] (?p2\<lparr>pr_phase := Purging (ns_tombstones ?s) n\<rparr>)" by (simp add: proc_exec_def)
  moreover note run_purge [of "?p2\<lparr>pr_phase := Purging (ns_tombstones ?s) n\<rparr>" "ns_tombstones ?s" n ext fetch]
  moreover have "proc_run ext fetch (with_store st2 (p\<lparr>pr_phase := Purging [] n\<rparr>)) [Announce]
      (with_table (mark_self_alive ?t) (with_store st2 (p\<lparr>pr_phase := Finished n\<rparr>)))" for st2
    by (simp add: proc_exec_def)
  ultimately have "proc_run ext fetch p ([Poll, Rebuild] @ ls @ [BeginPurge] @ replicate (length (ns_tombstones ?s)) Purge @ [Announce])
      (with_table (mark_self_alive ?t) (with_store (fold (\<lambda>k st. snd (store_delete k st)) (ns_tombstones ?s) st) (p\<lparr>pr_phase := Finished n\<rparr>)))"
    by (intro proc_run_append) (assumption | simp)+
  then show ?thesis
    using ls(1) by (intro exI [of _ "[Poll, Rebuild] @ ls @ [BeginPurge] @ replicate (length (ns_tombstones ?s)) Purge @ [Announce]"])
      (auto simp: s' complete_rebalance_def apply_tombstones_def Let_def list_all_iff)
qed

section \<open>The first poll\<close>

lemma seeds_entries:
  assumes "hm_invar m"
  shows "let m' = fold (\<lambda>n m. if ni_id n \<noteq> l then hm_insert (ni_id n) (seed_entry now n) m else m) seeds m
         in hm_invar m' \<and> (distinct (map ni_id seeds) \<longrightarrow>
              (\<forall>nid. nid \<noteq> l \<longrightarrow> hm_get m' nid = (case List.find (\<lambda>n. ni_id n = nid) seeds of
                 Some n \<Rightarrow> Some (seed_entry now n) | None \<Rightarrow> hm_get m nid)))"
  using assms
proof (induction seeds arbitrary: m)
  case (Cons n seeds)
  let ?m = "if ni_id n \<noteq> l then hm_insert (ni_id n) (seed_entry now n) m else m"
  have inv: "hm_invar ?m" using Cons.prems by simp
  have "List.find (\<lambda>m. ni_id m = ni_id n) seeds = None" if "ni_id n \<notin> ni_id ` set seeds" using that by (auto simp: find_None_conv image_iff)
  with Cons.IH [OF inv] show ?case
    using Cons.prems by (auto simp: Let_def split: option.splits)
qed (simp add: hm_get_def)

text \<open>The seeds are routable from the start: nothing has been heard from them, nor is it checked.\<close>
lemma routable_new:
  assumes "distinct (map ni_id seeds)" "nid \<notin> ni_id ` set seeds"
  shows "me_info ` set (routable_peers (table_new now nid seeds)) = set seeds"
proof -
  let ?t = "table_new now nid seeds"
  have inv: "table_inv ?t" by (rule table_inv_new)
  have get: "hm_get (mt_members ?t) i = map_option (seed_entry now) (List.find (\<lambda>n. ni_id n = i) seeds)" if "i \<noteq> nid" for i
  proof -
    obtain self where t: "mt_members ?t = fold (\<lambda>n m. if ni_id n \<noteq> nid then hm_insert (ni_id n) (seed_entry now n) m else m) seeds (hm_insert nid self [])"
      by (simp add: table_new_def Let_def)
    show ?thesis
      using seeds_entries [of "hm_insert nid self []" nid now seeds] assms(1) that unfolding t by (simp add: Let_def split: option.split)
  qed
  have a: "n \<in> me_info ` set (routable_peers ?t) \<longleftrightarrow> (\<exists>i e. i \<noteq> nid \<and> hm_get (mt_members ?t) i = Some e \<and> me_status e = Alive \<and> me_info e = n)" for n
    using inv hm.get_entries [of "mt_members ?t"] by (fastforce simp: routable_peers_def table_inv_def image_iff)
  have b: "(\<exists>i e. i \<noteq> nid \<and> hm_get (mt_members ?t) i = Some e \<and> me_status e = Alive \<and> me_info e = n) \<longleftrightarrow> n \<in> set seeds" for n
  proof -
    have found: "List.find (\<lambda>m. ni_id m = ni_id n) seeds = Some n" if "n \<in> set seeds"
      using that assms(1) by (induction seeds) (auto simp: image_iff)
    show ?thesis
    proof
      assume "\<exists>i e. i \<noteq> nid \<and> hm_get (mt_members ?t) i = Some e \<and> me_status e = Alive \<and> me_info e = n"
      then obtain i e where "i \<noteq> nid" "hm_get (mt_members ?t) i = Some e" "me_info e = n" by blast
      then have "List.find (\<lambda>m. ni_id m = i) seeds = Some n" using get by (auto simp: seed_entry_def)
      then show "n \<in> set seeds" by (blast dest: find_Some_in_set)
    next
      assume n: "n \<in> set seeds"
      then have "ni_id n \<noteq> nid" using assms(2) by auto
      with found [OF n] get [of "ni_id n"] show "\<exists>i e. i \<noteq> nid \<and> hm_get (mt_members ?t) i = Some e \<and> me_status e = Alive \<and> me_info e = n"
        by (intro exI [of _ "ni_id n"] exI [of _ "seed_entry now n"]) (simp add: seed_entry_def)
    qed
  qed
  show ?thesis by (rule set_eqI) (rule trans [OF a b])
qed

section \<open>A node to evaluate\<close>

text \<open>A node that joins with one seed, which streams one key.\<close>
definition joiner :: proc where
  "joiner = \<lparr>pr_node = node_new 0 (NodeId 1) [\<lparr>ni_id = NodeId 10, ni_addr = ''n7''\<rparr>], pr_phase = Polling, pr_checked = [], pr_removing = []\<rparr>"

definition one_key :: fetch where
  "one_key a = Inr ([\<lparr>tc_key = ''k'', tc_value = ''old'', tc_expires_at_ms = None\<rparr>], None)"

lemma joiner_main: "node_main demo_ext 0 (NodeId 1) (\<lambda>i. NodeId (word_of_nat i + 10)) None ''n7'' = Some joiner"
proof -
  have "seed_addrs ''n7'' = [''n7'']" by (simp add: seed_addrs_def trim_graphic graphic_def)
  then show ?thesis by (simp add: node_main_def seed_nodes_def joiner_def)
qed

lemma joiner_state: "routable_peers (ns_table (pr_node joiner)) = [seed_entry 0 \<lparr>ni_id = NodeId 10, ni_addr = ''n7''\<rparr>]"
  "is_self_joining (ns_table (pr_node joiner))" "local_of joiner = NodeId 1"
  by (simp_all add: joiner_def node_new_def table_new_def routable_peers_def seed_entry_def is_self_joining_def hm_insert_def hm_get_def Let_def)

lemma joiner_rebalances:
  assumes "routable_peers t = [seed_entry 0 \<lparr>ni_id = NodeId 10, ni_addr = ''n7''\<rparr>]"
  shows "\<exists>n s'. wait_and_rebalance demo_ext one_key (\<lambda>_ _. 5) (NodeId 1) [t] s = Some (Inr (n, s')) \<and> ns_table s' = mark_self_alive t"
proof -
  have "5 < 2 ^ 62 * nanos_per_sec" by (simp add: nanos_per_sec_def)
  then have "\<exists>n st'. rebalance demo_ext one_key (\<lambda>_ _. 5) (NodeId 1) [\<lparr>ni_id = NodeId 10, ni_addr = ''n7''\<rparr>] ring st = Inr (n, st')" for ring st
    by (simp add: rebalance_def pull_keys_from_def one_key_def accept_chunk_total)
  then obtain n st' where "rebalance demo_ext one_key (\<lambda>_ _. 5) (NodeId 1) [\<lparr>ni_id = NodeId 10, ni_addr = ''n7''\<rparr>]
      (live_ring demo_ext (NodeId 1) t) (ns_store s) = Inr (n, st')" by blast
  then show ?thesis using assms
    by (simp add: wait_and_rebalance_def seed_entry_def complete_rebalance_def Let_def apply_tombstones_def)
qed

text \<open>The node after a delete it refused; from there the rebalancer finishes.\<close>
definition after_delete :: proc where
  "after_delete = joiner\<lparr>pr_node := (pr_node joiner)\<lparr>ns_tombstones := [''k''], ns_store := snd (store_delete ''k'' (ns_store (pr_node joiner)))\<rparr>\<rparr>"

lemma after_delete_run:
  "proc_run ext fetch joiner [DeleteCheck ''k'', DeleteTomb ''k''] (joiner\<lparr>pr_node := (pr_node joiner)\<lparr>ns_tombstones := [''k'']\<rparr>, pr_removing := [''k'']\<rparr>)"
  "proc_exec ext fetch (DeleteStore ''k'') (joiner\<lparr>pr_node := (pr_node joiner)\<lparr>ns_tombstones := [''k'']\<rparr>, pr_removing := [''k'']\<rparr>) = Some after_delete"
  using joiner_state by (simp_all add: proc_exec_def after_delete_def) (simp_all add: joiner_def node_new_def tomb_insert_def)

lemma joiner_finishes:
  assumes "pr_phase p = Polling" "ns_table (pr_node p) = ns_table (pr_node joiner)"
  obtains ls n s' where "list_all rebalancer_label ls" "proc_run demo_ext one_key p ls (p\<lparr>pr_phase := Finished n, pr_node := s'\<rparr>)"
    "ns_table s' = mark_self_alive (ns_table (pr_node joiner))"
proof -
  obtain n s' where "wait_and_rebalance demo_ext one_key (\<lambda>_ _. 5) (local_of p) [ns_table (pr_node p)] (pr_node p) = Some (Inr (n, s'))"
    "ns_table s' = mark_self_alive (ns_table (pr_node joiner))"
    using joiner_rebalances [OF joiner_state(1), of "pr_node p"] joiner_state(3) assms(2) by auto
  then show thesis using rebalancer_run [OF assms(1)] that by blast
qed

text \<open>A finite run, continued by the sweeper for ever.\<close>
definition swept :: "proc \<Rightarrow> proc" where
  "swept p = with_store (sweep 0 (ns_store (pr_node p))) p"

lemma swept_keeps: "pr_phase ((swept ^^ i) p) = pr_phase p \<and> ns_table (pr_node ((swept ^^ i) p)) = ns_table (pr_node p)"
  by (induction i) (simp_all add: swept_def)

lemma run_continued:
  assumes "proc_run ext fetch p ls q"
  shows "\<exists>run lab. run 0 = p \<and> (\<forall>i. proc_exec ext fetch (lab i) (run i) = Some (run (Suc i))) \<and> (\<forall>i. run (length ls + i) = (swept ^^ i) q)"
  using assms
proof (induction rule: proc_run.induct)
  case (none p)
  have "proc_exec ext fetch (Sweep 0) ((swept ^^ i) p) = Some ((swept ^^ Suc i) p)" for i by (simp add: proc_exec_def swept_def)
  then show ?case by (intro exI [of _ "\<lambda>i. (swept ^^ i) p"] exI [of _ "\<lambda>i. Sweep 0"]) simp
next
  case (step l p p' ls p'')
  then obtain run lab where run: "run 0 = p'" "\<forall>i. proc_exec ext fetch (lab i) (run i) = Some (run (Suc i))" "\<forall>i. run (length ls + i) = (swept ^^ i) p''"
    by blast
  have "proc_exec ext fetch (case_nat l lab i) (case_nat p run i) = Some (case_nat p run (Suc i))" for i
    using step.hyps(1) run(1,2) by (cases i) simp_all
  then show ?case using run(3) by (intro exI [of _ "case_nat p run"] exI [of _ "case_nat l lab"]) simp
qed

section \<open>Properties\<close>

text \<open>C2: a delete refused with "node is joining" is final in every interleaving of the node's tasks: once its removal has
  been carried out, no order in which chunks arrive, tombstones are purged, reads are completed, values
  expire and gossip is merged brings the key back; when the join is over, only a new write of the key can
  have stored it.\<close>
theorem refused_delete_never_resurrected:
  assumes "node_main ext now drawn fresh id_arg seed_arg = Some p0" "proc_run ext fetch p0 before p"
    and "proc_exec ext fetch (DeleteStore k) p = Some p1" "proc_run ext fetch p1 rest p2"
    and "\<forall>l\<in>set rest. \<not> writes l k" "pr_phase p2 = Finished n"
  shows "visible (ns_store (pr_node p2)) t k = None"
proof -
  have inv: "proc_inv p" using proc_run_inv [OF assms(2) proc_inv_main [OF assms(1)]] .
  then have node: "node_inv (pr_node p)" by (simp add: proc_inv_def)
  have k: "k \<in> set (pr_removing p)" using assms(3) by (auto simp: proc_exec_def split: if_splits)
  have "content_of (ns_store (pr_node p1)) k = None"
    using assms(3) node by (auto simp: proc_exec_def node_inv_def content_delete split: if_splits)
  moreover have "k \<in> set (ns_tombstones (pr_node p1))"
    using proc_exec_inv(4) [OF assms(3) node] k inv by (auto simp: proc_inv_def)
  ultimately have "settled k p1" by (simp add: settled_def split: phase.split)
  then have "settled k p2" using settled_run [OF assms(4) proc_exec_inv(1) [OF assms(3) node] _ assms(5)] by blast
  then show ?thesis using assms(6) by (simp add: settled_def visible_def shown_None)
qed

theorem refused_delete_never_resurrected_witness:
  "\<exists>ls p2 n. proc_run demo_ext one_key after_delete ls p2 \<and> pr_phase p2 = Finished n \<and> visible (ns_store (pr_node p2)) 9 ''k'' = None"
proof -
  obtain ls n s' where ls: "list_all rebalancer_label ls" "proc_run demo_ext one_key after_delete ls (after_delete\<lparr>pr_phase := Finished n, pr_node := s'\<rparr>)"
    by (rule joiner_finishes [of after_delete]) (simp_all add: after_delete_def joiner_def)
  have "\<not> writes l ''k''" if "rebalancer_label l" for l using that by (cases l) simp_all
  then have "\<forall>l\<in>set ls. \<not> writes l ''k''" using ls(1) by (auto simp: list_all_iff)
  from refused_delete_never_resurrected [OF joiner_main after_delete_run ls(2) this] ls(2) show ?thesis by force
qed

text \<open>C25: a node leaves the Joining state for good: whatever its tasks do and whatever is gossiped about it, once it
  accepts writes it never refuses them again; it accepts them when its rebalance has finished, and always
  when it was started without seeds.\<close>
theorem joining_left_for_good:
  assumes "node_main ext now drawn fresh id_arg seed_arg = Some p0" "proc_run ext fetch p0 before p" "proc_run ext fetch p rest p'"
    and "\<not> is_self_joining (ns_table (pr_node p)) \<or> pr_phase p = Standalone \<or> (\<exists>n. pr_phase p = Finished n)"
  shows "\<not> is_self_joining (ns_table (pr_node p'))
         \<and> node_set now' req (pr_node p') \<noteq> Inr (Inl (Status Unavailable ''node is joining''), pr_node p')"
proof -
  have inv: "proc_inv p" using proc_run_inv [OF assms(2) proc_inv_main [OF assms(1)]] .
  then have "\<not> is_self_joining (ns_table (pr_node p))" using assms(4) by (auto simp: proc_inv_def)
  with assms(3) have "\<not> is_self_joining (ns_table (pr_node p'))"
    using inv
  proof (induction rule: proc_run.induct)
    case (step l p p' ls p'')
    then show ?case using proc_exec_inv(3) [OF step.hyps(1)] proc_inv_step [OF _ step.hyps(1)] by (auto simp: proc_inv_def)
  qed
  then show ?thesis by (auto simp: node_set_def and_then_Inr_conv)
qed

theorem joining_left_for_good_witness:
  "\<exists>ls p n. proc_run demo_ext one_key joiner ls p \<and> pr_phase p = Finished n \<and> \<not> is_self_joining (ns_table (pr_node p))"
proof -
  obtain ls n s' where ls: "proc_run demo_ext one_key joiner ls (joiner\<lparr>pr_phase := Finished n, pr_node := s'\<rparr>)"
    by (rule joiner_finishes [of joiner]) (simp_all add: joiner_def)
  then show ?thesis using joining_left_for_good [OF joiner_main ls proc_run.none] by fastforce
qed





text \<open>C40: the wait for gossip is over before any gossip has arrived: a node started with seeds finds its seeds routable at
  its first poll, and the ring by which it decides which keys to pull holds, besides itself without an
  address, the seeds under identifiers it has drawn itself, which no other process knows.\<close>
theorem join_uses_drawn_identifiers:
  assumes "node_main ext now drawn fresh id_arg seed_arg = Some p" "seed_addrs seed_arg \<noteq> []"
    and "inj_on fresh {..<length (seed_addrs seed_arg)}" "local_of p \<notin> fresh ` {..<length (seed_addrs seed_arg)}"
  shows "\<exists>ring peers. proc_run ext fetch p [Poll, Rebuild] (p\<lparr>pr_phase := Pulling ring peers None 0\<rparr>)
    \<and> set peers = {\<lparr>ni_id = fresh i, ni_addr = seed_addrs seed_arg ! i\<rparr> | i. i < length (seed_addrs seed_arg)}
    \<and> set (hr_nodes ring) = insert \<lparr>ni_id = local_of p, ni_addr = []\<rparr> (set peers)"
proof -
  let ?seeds = "seed_nodes fresh seed_arg"
  obtain nid where p: "p = \<lparr>pr_node = node_new now nid ?seeds, pr_phase = (if ?seeds \<noteq> [] then Polling else Standalone), pr_checked = [], pr_removing = []\<rparr>"
    using assms(1) by (auto simp: node_main_def Let_def split: option.splits)
  have l: "local_of p = nid" by (simp add: p node_new_def)
  have seeds: "set ?seeds = {\<lparr>ni_id = fresh i, ni_addr = seed_addrs seed_arg ! i\<rparr> | i. i < length (seed_addrs seed_arg)}"
    by (force simp: seed_nodes_def in_set_enumerate_eq)
  have ne: "?seeds \<noteq> []" using assms(2) by (simp add: seed_nodes_def enumerate_eq_zip)
  have "map ni_id ?seeds = map fresh [0..<length (seed_addrs seed_arg)]"
    by (rule nth_equalityI) (simp_all add: seed_nodes_def nth_enumerate_eq)
  then have dist: "distinct (map ni_id ?seeds)" using assms(3) by (simp add: distinct_map atLeast0LessThan)
  have fresh: "nid \<notin> ni_id ` set ?seeds" using assms(4) l by (auto simp: seeds)
  let ?t = "table_new now nid ?seeds"
  let ?ring = "live_ring ext nid ?t" and ?peers = "map me_info (routable_peers ?t)"
  have peers: "set ?peers = set ?seeds" using routable_new [OF dist fresh] by simp
  have "List.find (\<lambda>n. ni_id n = nid) ?seeds = None" using fresh by (auto simp: find_None_conv)
  then have addr: "local_addr ?t = []" by (simp add: local_addr_def table_new_get_local)
  have nodes: "hr_nodes (fold (\<lambda>e r. add_node ext (me_info e) r) es r) = hr_nodes r @ map me_info es" for es r
    by (induction es arbitrary: r) (simp_all add: add_node_def)
  have "hr_nodes (add_node ext \<lparr>ni_id = nid, ni_addr = []\<rparr> ring_new) = [\<lparr>ni_id = nid, ni_addr = []\<rparr>]" by (simp add: add_node_def ring_new_def)
  then have "hr_nodes ?ring = \<lparr>ni_id = nid, ni_addr = []\<rparr> # ?peers" by (simp add: live_ring_def addr nodes)
  moreover have "routable_peers ?t \<noteq> []" using peers ne by auto
  ultimately show ?thesis
    using ne seeds peers by (intro exI [of _ ?ring] exI [of _ ?peers]) (simp add: p proc_exec_def Let_def node_new_def)
qed

theorem join_uses_drawn_identifiers_witness:
  "\<exists>ring peers. proc_run demo_ext one_key joiner [Poll, Rebuild] (joiner\<lparr>pr_phase := Pulling ring peers None 0\<rparr>)
     \<and> set (hr_nodes ring) = insert \<lparr>ni_id = NodeId 1, ni_addr = []\<rparr> (set peers)"
proof -
  have "seed_addrs ''n7'' = [''n7'']" by (simp add: seed_addrs_def trim_graphic graphic_def)
  then show ?thesis using join_uses_drawn_identifiers [OF joiner_main, of one_key] joiner_state(3) by (auto simp: lessThan_Suc)
qed

end
