(* ===== verification/Join_Test.thy ===== *)
theory Join_Test
  imports Node_Process
begin

text \<open>
  The integration test of a join, \<^verbatim>\<open>crates/node/tests/integration_join.rs\<close>, as a function of what it does not control:
  the ports and identifiers it is given, the readings of the clock, and a schedule that says what the
  tasks of its three servers do at every point where the test waits. The servers are the processes of
  \<open>Node_Process\<close>; gossip messages travel through a mailbox, so that they may be delayed, reordered and lost.

  \<open>trial_ok\<close> is what every interleaving keeps: each store holds written keys with their values and with a deadline
  sixty seconds after the write, up to the millisecond a transfer loses, and so do the chunks on their
  way; tables and messages name only the addresses of A and B. The outcome of the test follows.
\<close>

section \<open>Three servers and the tasks they run\<close>

text \<open>Messages of the gossip protocol on their way; the identifier is the one the sender knows its target by.\<close>
datatype mail = Request nat nat gossip_message node_id | Response nat gossip_message node_id

record trial =
  tr_now :: instant
  tr_nodes :: "proc list"
  tr_mail :: "mail list"

text \<open>The server and its tasks, and whether it is joining; the port it listens on is drawn by the operating system.\<close>
definition start_node_server :: "instant \<Rightarrow> node_id \<Rightarrow> node_info list \<Rightarrow> proc \<times> bool" where
  "start_node_server now nid seeds =
     (let is_joining = (seeds \<noteq> [])
      in (\<lparr>pr_node = node_new now nid seeds, pr_phase = (if is_joining then Polling else Standalone),
           pr_checked = [], pr_removing = []\<rparr>, is_joining))"

abbreviation node_at :: "trial \<Rightarrow> nat \<Rightarrow> proc" where
  "node_at w i \<equiv> tr_nodes w ! i"

abbreviation set_node :: "nat \<Rightarrow> proc \<Rightarrow> trial \<Rightarrow> trial" where
  "set_node i p w \<equiv> w\<lparr>tr_nodes := (tr_nodes w)[i := p]\<rparr>"

text \<open>Node \<open>i\<close> listens on \<open>addr i\<close>.\<close>
definition trial_fetch :: "(nat \<Rightarrow> addr) \<Rightarrow> trial \<Rightarrow> fetch" where
  "trial_fetch addr w a =
     (case List.find (\<lambda>i. addr i = a) [0..<length (tr_nodes w)] of
        Some i \<Rightarrow> Inr (transfer_keys (tr_now w) (pr_node (node_at w i)), None)
      | None \<Rightarrow> Inl (Status Transport ''transport error''))"

text \<open>
  One step of a task that runs beside the test: time passes, the rebalancer of a node takes a step, a
  sweeper or a failure detector runs, a gossip message is sent, served or its answer handled.
\<close>
datatype background =
    Tick instant
  | Rebalancer nat label
  | Sweeper nat
  | Detector nat
  | Send nat nat node_id
  | Serve nat "nat \<Rightarrow> node_id"
  | Receive nat "nat \<Rightarrow> node_id"

fun at_now :: "instant \<Rightarrow> label \<Rightarrow> label" where
  "at_now now (Chunk t) = Chunk now"
| "at_now now l = l"

fun bg_exec :: "externs \<Rightarrow> (nat \<Rightarrow> addr) \<Rightarrow> background \<Rightarrow> trial \<Rightarrow> trial" where
  "bg_exec ext addr (Tick t) w = w\<lparr>tr_now := max (tr_now w) t\<rparr>"
| "bg_exec ext addr (Rebalancer i l) w =
     (if i < length (tr_nodes w)
      then (case rebalancer_exec ext (trial_fetch addr w) (at_now (tr_now w) l) (node_at w i) of
              Some p \<Rightarrow> set_node i p w | None \<Rightarrow> w)
      else w)"
| "bg_exec ext addr (Sweeper i) w =
     (if i < length (tr_nodes w)
      then set_node i (with_store (sweep (tr_now w) (ns_store (pr_node (node_at w i)))) (node_at w i)) w else w)"
| "bg_exec ext addr (Detector i) w =
     (if i < length (tr_nodes w)
      then set_node i (with_table (check_timeouts (tr_now w) (local_of (node_at w i)) (ns_table (pr_node (node_at w i)))) (node_at w i)) w
      else w)"
| "bg_exec ext addr (Send i j nid) w =
     (if i < length (tr_nodes w)
      then w\<lparr>tr_mail := tr_mail w @ [Request i j (build_gossip_message ext (tr_now w) (ns_table (pr_node (node_at w i)))) nid]\<rparr> else w)"
| "bg_exec ext addr (Serve n fresh) w =
     (if n < length (tr_mail w)
      then (case tr_mail w ! n of
              Request i j msg nid \<Rightarrow>
                if j < length (tr_nodes w)
                then (case gossip_exchange ext (tr_now w) fresh msg (ns_table (pr_node (node_at w j))) of
                        (answer, t) \<Rightarrow> (set_node j (with_table t (node_at w j)) w)\<lparr>tr_mail := (tr_mail w)[n := Response i answer nid]\<rparr>)
                else w
            | Response i msg nid \<Rightarrow> w)
      else w)"
| "bg_exec ext addr (Receive n fresh) w =
     (if n < length (tr_mail w)
      then (case tr_mail w ! n of
              Request i j msg nid \<Rightarrow> w
            | Response i msg nid \<Rightarrow>
                if i < length (tr_nodes w)
                then (set_node i (with_table (process_gossip_response ext (tr_now w) fresh msg
                        (touch (tr_now w) nid (ns_table (pr_node (node_at w i))))) (node_at w i)) w)
                     \<lparr>tr_mail := take n (tr_mail w) @ drop (Suc n) (tr_mail w)\<rparr>
                else w)
      else w)"

section \<open>The test\<close>

text \<open>What a run of the test ends with: the assertion or \<^verbatim>\<open>unwrap\<close> it fails at.\<close>
datatype verdict = Passed | SetUnwrap | DeleteUnwrap | NotJoining | WrongCode | NotAccepting
  | NothingTransferred | WrongValue | TtlLost | TtlExceeded | NotAliveAtA

text \<open>What the other tasks do at every point where the test waits, by the line of the test and a counter.\<close>
type_synonym schedule = "nat \<Rightarrow> nat \<Rightarrow> background list"

abbreviation let_run :: "externs \<Rightarrow> (nat \<Rightarrow> addr) \<Rightarrow> background list \<Rightarrow> trial \<Rightarrow> trial" where
  "let_run ext addr bs w \<equiv> fold (bg_exec ext addr) bs w"

definition sleep :: "duration \<Rightarrow> trial \<Rightarrow> trial" where
  "sleep d w = w\<lparr>tr_now := tr_now w + d\<rparr>"

text \<open>\<^verbatim>\<open>{:03}\<close>\<close>
definition pad3 :: "nat \<Rightarrow> bytes" where
  "pad3 i = (let d = dec_nat i in replicate (3 - length d) (CHR ''0'') @ d)"

definition key_name :: "nat \<Rightarrow> bytes" where
  "key_name i = ''key_'' @ pad3 i"

definition value_name :: "nat \<Rightarrow> bytes" where
  "value_name i = ''value_'' @ pad3 i"

definition keys_to_delete :: "bytes list" where
  "keys_to_delete = [''key_010'', ''key_050'', ''key_100'', ''key_150'', ''key_199'']"

text \<open>Calls through the gRPC clients; a handler that panics closes the connection.\<close>
definition client_set :: "nat \<Rightarrow> set_request \<Rightarrow> trial \<Rightarrow> (status + set_response) \<times> trial" where
  "client_set i req w =
     (case node_set (tr_now w) req (pr_node (node_at w i)) of
        Inl p \<Rightarrow> (Inl (Status Transport ''connection closed''), w)
      | Inr (r, s) \<Rightarrow> (r, set_node i ((node_at w i)\<lparr>pr_node := s\<rparr>) w))"

definition client_delete :: "nat \<Rightarrow> bytes \<Rightarrow> trial \<Rightarrow> (status + delete_response) \<times> trial" where
  "client_delete i key w =
     (case node_delete key (pr_node (node_at w i)) of (r, s) \<Rightarrow> (r, set_node i ((node_at w i)\<lparr>pr_node := s\<rparr>) w))"

fun write_keys :: "externs \<Rightarrow> (nat \<Rightarrow> addr) \<Rightarrow> (nat \<Rightarrow> background list) \<Rightarrow> nat list \<Rightarrow> trial \<Rightarrow> trial option" where
  "write_keys ext addr bg [] w = Some w"
| "write_keys ext addr bg (i # is) w =
     (case client_set 0 \<lparr>sr_key = key_name i, sr_value = value_name i, sr_ttl_ms = Some 60000\<rparr> (let_run ext addr (bg i) w) of
        (Inl e, w') \<Rightarrow> None
      | (Inr r, w') \<Rightarrow> write_keys ext addr bg is w')"

fun delete_keys :: "externs \<Rightarrow> (nat \<Rightarrow> addr) \<Rightarrow> (nat \<Rightarrow> background list) \<Rightarrow> nat \<Rightarrow> bytes list \<Rightarrow> trial \<Rightarrow> trial option" where
  "delete_keys ext addr bg i [] w = Some w"
| "delete_keys ext addr bg i (key # keys) w =
     (case client_delete 0 key (let_run ext addr (bg i) w) of
        (Inl e, w') \<Rightarrow> None
      | (Inr r, w') \<Rightarrow> delete_keys ext addr bg (i + 1) keys w')"

abbreviation c_joining :: "trial \<Rightarrow> bool" where
  "c_joining w \<equiv> is_self_joining (ns_table (pr_node (node_at w 2)))"

lemma bg_exec_now: "tr_now w \<le> tr_now (bg_exec ext addr b w)"
  by (cases b) (auto split: option.split mail.split prod.split)

lemma let_run_now: "tr_now w \<le> tr_now (let_run ext addr bs w)"
proof (induction bs arbitrary: w)
  case (Cons b bs)
  then show ?case using bg_exec_now [of w ext addr b] by (auto intro: order.trans)
qed simp

text \<open>The polling loop: at most ten seconds, a tenth of a second per turn.\<close>
function poll_alive :: "externs \<Rightarrow> (nat \<Rightarrow> addr) \<Rightarrow> (nat \<Rightarrow> background list) \<Rightarrow> instant \<Rightarrow> nat \<Rightarrow> trial \<Rightarrow> trial" where
  "poll_alive ext addr bg start i w =
     (if \<not> c_joining w then w
      else if 10 * nanos_per_sec < tr_now w - start then w
      else poll_alive ext addr bg start (i + 1) (let_run ext addr (bg i) (sleep (100 * nanos_per_milli) w)))"
  by pat_completeness auto
termination
proof (relation "measure (\<lambda>(ext, addr, bg, start, i, w). start + 10 * nanos_per_sec + 1 - tr_now w)")
  fix ext addr bg start and i :: nat and w :: trial
  assume "\<not> 10 * nanos_per_sec < tr_now w - start"
  moreover have "tr_now w < tr_now (let_run ext addr (bg i) (sleep (100 * nanos_per_milli) w))"
    using let_run_now [of "sleep (100 * nanos_per_milli) w" ext addr "bg i"] by (simp add: sleep_def nanos_per_milli_def)
  ultimately show "((ext, addr, bg, start, i + 1, let_run ext addr (bg i) (sleep (100 * nanos_per_milli) w)), (ext, addr, bg, start, i, w))
      \<in> measure (\<lambda>(ext, addr, bg, start, i, w). start + 10 * nanos_per_sec + 1 - tr_now w)"
    by simp
qed simp

declare poll_alive.simps [simp del]

definition read_c :: "bytes \<Rightarrow> trial \<Rightarrow> bytes option \<times> trial" where
  "read_c key w =
     (case store_get (tr_now w) key (ns_store (pr_node (node_at w 2))) of
        (v, st) \<Rightarrow> (v, set_node 2 (with_store st (node_at w 2)) w))"

text \<open>The loops over the deleted and over the written keys.\<close>
fun read_deleted :: "externs \<Rightarrow> (nat \<Rightarrow> addr) \<Rightarrow> (nat \<Rightarrow> background list) \<Rightarrow> nat \<Rightarrow> bytes list \<Rightarrow> trial \<Rightarrow> trial" where
  "read_deleted ext addr bg i [] w = w"
| "read_deleted ext addr bg i (key # keys) w =
     read_deleted ext addr bg (i + 1) keys (snd (read_c key (let_run ext addr (bg i) w)))"

fun count_keys :: "externs \<Rightarrow> (nat \<Rightarrow> addr) \<Rightarrow> (nat \<Rightarrow> background list) \<Rightarrow> nat list \<Rightarrow> nat \<times> nat \<Rightarrow> trial \<Rightarrow> (nat \<times> nat) \<times> trial" where
  "count_keys ext addr bg [] counts w = (counts, w)"
| "count_keys ext addr bg (i # is) (transferred_count, correct_values) w =
     (if key_name i \<in> set keys_to_delete then count_keys ext addr bg is (transferred_count, correct_values) w
      else (case read_c (key_name i) (let_run ext addr (bg i) w) of
              (None, w') \<Rightarrow> count_keys ext addr bg is (transferred_count, correct_values) w'
            | (Some v, w') \<Rightarrow>
                count_keys ext addr bg is (transferred_count + 1, if v = value_name i then correct_values + 1 else correct_values) w'))"

text \<open>The entry that the iteration over the map meets first is any of them; \<open>which\<close> says which.\<close>
definition check_ttl :: "nat \<Rightarrow> trial \<Rightarrow> verdict option" where
  "check_ttl which w =
     (let st = ns_store (pr_node (node_at w 2)); entries = entries_for_transfer (tr_now w) st in
      if entries = [] then None
      else case store_ttl (tr_now w) (fst (entries ! (which mod length entries))) st of
             None \<Rightarrow> None
           | Some remaining \<Rightarrow>
               if \<not> 50 * nanos_per_sec < remaining then Some TtlLost
               else if \<not> remaining \<le> 60 * nanos_per_sec then Some TtlExceeded else None)"

definition check_transfer :: "externs \<Rightarrow> (nat \<Rightarrow> addr) \<Rightarrow> schedule \<Rightarrow> nat \<Rightarrow> node_id \<Rightarrow> nat \<Rightarrow> trial \<Rightarrow> verdict \<times> trial" where
  "check_transfer ext addr bg keys node_c_id which w =
     (case count_keys ext addr (bg 234) [0..<keys] (0, 0) (read_deleted ext addr (bg 214) 0 keys_to_delete w) of
        ((transferred_count, correct_values), w1) \<Rightarrow>
          if \<not> 0 < transferred_count then (NothingTransferred, w1)
          else if transferred_count \<noteq> correct_values then (WrongValue, w1)
          else let w2 = let_run ext addr (bg 259 0) w1 in
               (case check_ttl which w2 of
                  Some v \<Rightarrow> (v, w2)
                | None \<Rightarrow>
                    let w3 = let_run ext addr (bg 283 0) (sleep (2 * nanos_per_sec) w2) in
                    (if is_alive (ns_table (pr_node (node_at w3 0))) node_c_id then Passed else NotAliveAtA, w3)))"

definition start_server :: "externs \<Rightarrow> (nat \<Rightarrow> addr) \<Rightarrow> background list \<Rightarrow> node_id \<Rightarrow> node_info list \<Rightarrow> trial \<Rightarrow> bool \<times> trial" where
  "start_server ext addr bg nid seeds w =
     (case start_node_server (tr_now w) nid seeds of
        (p, is_joining) \<Rightarrow> (is_joining, let_run ext addr bg (sleep (100 * nanos_per_milli) (w\<lparr>tr_nodes := tr_nodes w @ [p]\<rparr>))))"

text \<open>
  \<open>ids\<close>: the identifiers drawn, for the three nodes and for the two seeds; \<open>keys\<close>: how many keys are
  written, 200 in the test.
\<close>
definition join_recover_cycle :: "externs \<Rightarrow> (nat \<Rightarrow> addr) \<Rightarrow> (nat \<Rightarrow> node_id) \<Rightarrow> schedule \<Rightarrow> nat \<Rightarrow> nat \<Rightarrow> instant \<Rightarrow> verdict \<times> trial" where
  "join_recover_cycle ext addr ids bg keys which t0 =
     (let w0 = \<lparr>tr_now = t0, tr_nodes = [], tr_mail = []\<rparr>;
          w1 = snd (start_server ext addr (bg 100 0) (ids 0) [] w0);
          w2 = snd (start_server ext addr (bg 101 0) (ids 1) [] w1);
          w3 = let_run ext addr (bg 107 0) (sleep (200 * nanos_per_milli) w2)
      in case write_keys ext addr (bg 117) [0..<keys] w3 of
           None \<Rightarrow> (SetUnwrap, w3)
         | Some w4 \<Rightarrow>
             let seeds = [\<lparr>ni_id = ids 3, ni_addr = addr 0\<rparr>, \<lparr>ni_id = ids 4, ni_addr = addr 1\<rparr>];
                 (was_joining, w5) = start_server ext addr (bg 141 0) (ids 2) seeds w4 in
             if \<not> was_joining then (NotJoining, w5)
             else case client_set 2 \<lparr>sr_key = ''test_write'', sr_value = ''data'', sr_ttl_ms = None\<rparr> (let_run ext addr (bg 157 0) w5) of
               (set_result, w6) \<Rightarrow>
                 if (case set_result of Inl (Status code msg) \<Rightarrow> code \<noteq> Unavailable | Inr r \<Rightarrow> False) then (WrongCode, w6)
                 else case delete_keys ext addr (bg 174) 0 keys_to_delete w6 of
                   None \<Rightarrow> (DeleteUnwrap, w6)
                 | Some w7 \<Rightarrow>
                     let w8 = poll_alive ext addr (bg 194) (tr_now w7) 0 w7 in
                     (case client_set 2 \<lparr>sr_key = ''after_join'', sr_value = ''works'', sr_ttl_ms = None\<rparr> (let_run ext addr (bg 202 0) w8) of
                        (Inl e, w9) \<Rightarrow> (NotAccepting, w9)
                      | (Inr r, w9) \<Rightarrow> check_transfer ext addr bg keys (ids 2) which w9))"

definition test_full_join_recover_cycle :: "externs \<Rightarrow> (nat \<Rightarrow> addr) \<Rightarrow> (nat \<Rightarrow> node_id) \<Rightarrow> schedule \<Rightarrow> nat \<Rightarrow> instant \<Rightarrow> verdict" where
  "test_full_join_recover_cycle ext addr ids bg which t0 = fst (join_recover_cycle ext addr ids bg 200 which t0)"

section \<open>What every interleaving keeps\<close>

definition written :: "nat \<Rightarrow> bytes \<Rightarrow> bytes \<Rightarrow> bool" where
  "written n k v \<longleftrightarrow> (\<exists>i<n. k = key_name i \<and> v = value_name i)"

definition extra :: "bytes \<Rightarrow> bool" where
  "extra k \<longleftrightarrow> k = ''test_write'' \<or> k = ''after_join''"

text \<open>An entry of a store: one of the written keys with its value and a deadline sixty seconds after its write, up
  to \<open>slack\<close>, or one of the two other keys of the test, without a deadline.\<close>
definition entry_ok :: "nat \<Rightarrow> instant \<Rightarrow> instant \<Rightarrow> duration \<Rightarrow> bytes \<Rightarrow> bytes \<times> instant option \<Rightarrow> bool" where
  "entry_ok n t0 now slack k x \<longleftrightarrow> (case x of (v, e) \<Rightarrow>
     (written n k v \<and> (\<exists>d. e = Some d \<and> t0 + 60 * nanos_per_sec \<le> d + slack \<and> d \<le> now + 60 * nanos_per_sec)) \<or> (extra k \<and> e = None))"

definition store_ok :: "nat \<Rightarrow> instant \<Rightarrow> instant \<Rightarrow> duration \<Rightarrow> cache_store \<Rightarrow> bool" where
  "store_ok n t0 now slack st \<longleftrightarrow> store_inv st \<and> (\<forall>k x. content_of st k = Some x \<longrightarrow> entry_ok n t0 now slack k x)"

definition chunk_ok :: "nat \<Rightarrow> instant \<Rightarrow> instant \<Rightarrow> transfer_chunk \<Rightarrow> bool" where
  "chunk_ok n t0 now c \<longleftrightarrow>
     (written n (tc_key c) (tc_value c) \<and> (\<exists>ms. tc_expires_at_ms c = Some ms \<and> from_millis ms \<le> 60 * nanos_per_sec
        \<and> t0 + 60 * nanos_per_sec \<le> now + from_millis ms + nanos_per_milli)) \<or> (extra (tc_key c) \<and> tc_expires_at_ms c = None)"

lemma entry_ok_later: "entry_ok n t0 now slack k x \<Longrightarrow> now \<le> now' \<Longrightarrow> entry_ok n t0 now' slack k x"
  by (force simp: entry_ok_def)

lemma store_ok_later: "store_ok n t0 now slack st \<Longrightarrow> now \<le> now' \<Longrightarrow> store_ok n t0 now' slack st"
  by (auto simp: store_ok_def intro: entry_ok_later)

lemma chunk_ok_later: "chunk_ok n t0 now c \<Longrightarrow> now \<le> now' \<Longrightarrow> chunk_ok n t0 now' c"
  by (force simp: chunk_ok_def)

lemma store_ok_sub: "store_ok n t0 now slack st \<Longrightarrow> store_inv st' \<Longrightarrow> content_of st' \<subseteq>\<^sub>m content_of st \<Longrightarrow> store_ok n t0 now slack st'"
  by (force simp: store_ok_def map_le_def)

lemma shown_le: "shown c t \<subseteq>\<^sub>m c"
  by (auto simp: map_le_def shown_def split: option.splits if_splits)

lemma store_ok_put: "store_ok n t0 now slack st \<Longrightarrow> entry_ok n t0 now slack k (v, e) \<Longrightarrow> store_ok n t0 now slack (put_entry k v e st)"
  by (auto simp: store_ok_def content_put)

lemma store_ok_ops:
  assumes "store_ok n t0 now slack st"
  shows "store_ok n t0 now slack (sweep t st)" "store_ok n t0 now slack (snd (store_delete k st))" "store_ok n t0 now slack (snd (store_get t k st))"
proof -
  have inv: "store_inv st" using assms by (simp add: store_ok_def)
  show "store_ok n t0 now slack (sweep t st)"
    using assms by (rule store_ok_sub) (use inv in \<open>simp_all add: content_sweep shown_le\<close>)
  show "store_ok n t0 now slack (snd (store_delete k st))"
    using assms by (rule store_ok_sub) (use inv in \<open>simp_all add: content_delete map_le_def\<close>)
  have "(content_of st)(k := shown (content_of st) t k) \<subseteq>\<^sub>m content_of st"
    using shown_le [of "content_of st" t] by (auto simp: map_le_def)
  then show "store_ok n t0 now slack (snd (store_get t k st))"
    using store_ok_sub [OF assms, of "snd (store_get t k st)"] inv store_inv_get [OF inv, of t k] by (simp add: content_get)
qed

lemma transfer_ok:
  assumes "node_inv s" "store_ok n t0 now 0 (ns_store s)" "c \<in> set (transfer_keys now s)"
  shows "chunk_ok n t0 now c"
proof -
  obtain e where e: "visible (ns_store s) now (tc_key c) = Some (tc_value c, e)"
    "tc_expires_at_ms c = map_option (\<lambda>e. as_millis_u64 (e - now)) e"
    using transfer_keys_iff [OF assms(1)] assms(3) by blast
  have ent: "entry_ok n t0 now 0 (tc_key c) (tc_value c, e)" and live: "not_after now e"
    using e(1) assms(2) by (auto simp: visible_def shown_def store_ok_def split: option.splits if_splits)
  show ?thesis
  proof (cases e)
    case None
    then show ?thesis using ent e(2) by (auto simp: entry_ok_def chunk_ok_def)
  next
    case (Some d)
    then have d: "written n (tc_key c) (tc_value c)" "t0 + 60 * nanos_per_sec \<le> d" "d \<le> now + 60 * nanos_per_sec" "now < d"
      using ent live by (auto simp: entry_ok_def not_after_def)
    have "d - now \<le> 60 * nanos_per_sec" using d(3) by simp
    then have "(d - now) div nanos_per_milli \<le> 60000" using div_le_mono [of "d - now" "60 * nanos_per_sec" nanos_per_milli]
      by (simp add: nanos_per_milli_def nanos_per_sec_def)
    then have "(d - now) div nanos_per_milli < 2 ^ 64" by simp
    note ms = transferred_deadline [OF d(4) this]
    then show ?thesis using d e(2) Some unfolding chunk_ok_def by auto
  qed
qed

lemma accept_ok:
  assumes "accept_chunk ext now l ring c (m, st) = Inr (m', st')" "chunk_ok n t0 now c" "store_ok n t0 now nanos_per_milli st"
  shows "store_ok n t0 now nanos_per_milli st'"
proof (cases "st' = st")
  case False
  then have set: "set_from_transfer now (tc_key c) (tc_value c) (tc_expires_at_ms c) st = Inr st'"
    using assms(1) by (auto simp: accept_chunk_def and_then_Inr_conv split: option.splits if_splits)
  show ?thesis
  proof (cases "tc_expires_at_ms c")
    case None
    then have "st' = put_entry (tc_key c) (tc_value c) None st" using set by (simp add: set_from_transfer_def store_set_def)
    moreover have "extra (tc_key c)" using assms(2) None by (auto simp: chunk_ok_def)
    ultimately show ?thesis using assms(3) by (simp add: store_ok_put entry_ok_def)
  next
    case (Some ms)
    then have "st' = put_entry (tc_key c) (tc_value c) (Some (now + from_millis ms)) st"
      using set False by (auto simp: set_from_transfer_def store_set_Inr split: if_splits)
    moreover have "entry_ok n t0 now nanos_per_milli (tc_key c) (tc_value c, Some (now + from_millis ms))"
      using assms(2) Some by (auto simp: chunk_ok_def entry_ok_def)
    ultimately show ?thesis using assms(3) by (simp add: store_ok_put)
  qed
qed (use assms(3) in simp)

text \<open>The addresses a table and a message name.\<close>
definition addrs_in :: "addr set \<Rightarrow> membership_table \<Rightarrow> bool" where
  "addrs_in S t \<longleftrightarrow> (\<forall>nid e. hm_get (mt_members t) nid = Some e \<longrightarrow> ni_addr (me_info e) \<in> S)"

definition message_in :: "addr set \<Rightarrow> gossip_message \<Rightarrow> bool" where
  "message_in S msg \<longleftrightarrow> (\<forall>m\<in>set (gm_members msg). pm_addr m \<in> S)"

lemma addrs_put: "table_inv t \<Longrightarrow> addrs_in S t \<Longrightarrow> ni_addr (me_info e) \<in> S \<Longrightarrow> addrs_in S (put_member nid e t)"
  by (auto simp: addrs_in_def put_member_get)

lemma addrs_merge_entry:
  assumes "table_inv t" "addrs_in S t" "fst (snd r) \<in> S"
  shows "addrs_in S (merge_entry now r t)"
  using assms by (auto simp: table_op_defs addrs_in_def put_member_get remote_member_def split: option.split prod.split)

lemma addrs_merge:
  "table_inv t \<Longrightarrow> addrs_in S t \<Longrightarrow> \<forall>r\<in>set rs. fst (snd r) \<in> S \<Longrightarrow> addrs_in S (merge now rs t)"
  unfolding merge_def by (induction rs arbitrary: t) (auto intro: addrs_merge_entry table_inv_ops)

lemma addrs_ops:
  assumes "table_inv t" "addrs_in S t"
  shows "addrs_in S (touch now nid t)" "addrs_in S (mark_self_alive t)" "addrs_in S (check_timeouts now l t)"
  using assms
  by (auto simp: table_op_defs addrs_in_def put_member_get check_timeouts_get timed_out_def split: option.split if_splits)

lemma decoded_in: "message_in S msg \<Longrightarrow> \<forall>r\<in>set (decode_members ext fresh (gm_members msg)). fst (snd r) \<in> S"
  by (auto simp: message_in_def decode_members_def decode_member_def enumerate_eq_zip dest!: set_zip_rightD)

lemma built_in: "table_inv t \<Longrightarrow> addrs_in S t \<Longrightarrow> message_in S (build_gossip_message ext now t)"
  using all_members_get(2) by (fastforce simp: message_in_def addrs_in_def build_gossip_message_def)

lemma exchange_in:
  assumes "table_inv t" "addrs_in S t" "message_in S msg" "gossip_exchange ext now fresh msg t = (answer, t')"
  shows "table_inv t'" "addrs_in S t'" "message_in S answer" "mt_local_id t' = mt_local_id t" "is_self_joining t' \<Longrightarrow> is_self_joining t"
proof -
  let ?m = "merge now (decode_members ext fresh (gm_members msg)) t"
  have m: "table_inv ?m" "addrs_in S ?m" using assms(1,2) addrs_merge [OF assms(1,2) decoded_in [OF assms(3)]] by (simp_all add: table_inv_merge)
  have t': "t' = ?m \<or> (\<exists>sid. t' = touch now sid ?m)" and ans: "answer = build_gossip_message ext now t'"
    using assms(4) by (auto simp: gossip_exchange_def Let_def split: option.splits)
  show inv: "table_inv t'" "addrs_in S t'" using t' m by (auto intro: table_inv_ops addrs_ops)
  show "message_in S answer" using built_in [OF inv] by (simp add: ans)
  show "mt_local_id t' = mt_local_id t" using t' by auto
  show "is_self_joining t' \<Longrightarrow> is_self_joining t"
    using t' joining_not_entered(1) [OF assms(1)] joining_not_entered(2) [OF m(1)] by auto
qed

definition phase_ok :: "nat \<Rightarrow> instant \<Rightarrow> instant \<Rightarrow> addr set \<Rightarrow> phase \<Rightarrow> bool" where
  "phase_ok n t0 now S ph \<longleftrightarrow>
     (case ph of
        Pulling ring peers pull tot \<Rightarrow>
          (\<forall>p\<in>set peers. ni_addr p \<in> S)
          \<and> (case pull of Some (chunks, lost, count) \<Rightarrow> \<forall>c\<in>set chunks. chunk_ok n t0 now c | None \<Rightarrow> True)
      | _ \<Rightarrow> True)"

text \<open>Nodes 0 and 1 are the standalone nodes A and B, node 2 is C.\<close>
definition proc_ok :: "nat \<Rightarrow> instant \<Rightarrow> instant \<Rightarrow> addr set \<Rightarrow> nat \<Rightarrow> proc \<Rightarrow> bool" where
  "proc_ok n t0 now S i p \<longleftrightarrow>
     node_inv (pr_node p) \<and> store_ok n t0 now (if i < 2 then 0 else nanos_per_milli) (ns_store (pr_node p))
     \<and> addrs_in S (ns_table (pr_node p)) \<and> phase_ok n t0 now S (pr_phase p)
     \<and> (i < 2 \<longrightarrow> pr_phase p = Standalone \<and> \<not> is_self_joining (ns_table (pr_node p)))"

fun mail_in :: "addr set \<Rightarrow> mail \<Rightarrow> bool" where
  "mail_in S (Request i j msg nid) = message_in S msg"
| "mail_in S (Response i msg nid) = message_in S msg"

text \<open>The addresses of A and B, and the empty one that every node gives for itself.\<close>
definition peer_addrs :: "(nat \<Rightarrow> addr) \<Rightarrow> addr set" where
  "peer_addrs addr = {[], addr 0, addr 1}"

definition trial_ok :: "nat \<Rightarrow> instant \<Rightarrow> (nat \<Rightarrow> addr) \<Rightarrow> trial \<Rightarrow> bool" where
  "trial_ok n t0 addr w \<longleftrightarrow>
     t0 \<le> tr_now w \<and> length (tr_nodes w) \<le> 3 \<and> addr 2 \<notin> peer_addrs addr
     \<and> (\<forall>i<length (tr_nodes w). proc_ok n t0 (tr_now w) (peer_addrs addr) i (node_at w i))
     \<and> (\<forall>m\<in>set (tr_mail w). mail_in (peer_addrs addr) m)"

lemma phase_ok_later: "phase_ok n t0 now S ph \<Longrightarrow> now \<le> now' \<Longrightarrow> phase_ok n t0 now' S ph"
  by (auto simp: phase_ok_def split: phase.splits option.splits intro: chunk_ok_later)

lemma proc_ok_later: "proc_ok n t0 now S i p \<Longrightarrow> now \<le> now' \<Longrightarrow> proc_ok n t0 now' S i p"
  by (auto simp: proc_ok_def intro: store_ok_later phase_ok_later)

lemma trial_ok_later:
  "trial_ok n t0 addr w \<Longrightarrow> tr_now w \<le> now \<Longrightarrow> trial_ok n t0 addr (w\<lparr>tr_now := now\<rparr>)"
  by (auto simp: trial_ok_def intro: proc_ok_later)

lemma trial_ok_set:
  "trial_ok n t0 addr w \<Longrightarrow> proc_ok n t0 (tr_now w) (peer_addrs addr) i p \<Longrightarrow> trial_ok n t0 addr (set_node i p w)"
  by (cases "i < length (tr_nodes w)") (auto simp: trial_ok_def nth_list_update)

lemma trial_ok_node: "trial_ok n t0 addr w \<Longrightarrow> i < length (tr_nodes w) \<Longrightarrow> proc_ok n t0 (tr_now w) (peer_addrs addr) i (node_at w i)"
  by (simp add: trial_ok_def)

text \<open>A stream opened to one of the known addresses comes from A or B.\<close>
lemma trial_fetch_ok:
  assumes "trial_ok n t0 addr w" "a \<in> peer_addrs addr" "trial_fetch addr w a = Inr (chunks, lost)" "c \<in> set chunks"
  shows "chunk_ok n t0 (tr_now w) c"
proof -
  obtain i where i: "List.find (\<lambda>i. addr i = a) [0..<length (tr_nodes w)] = Some i" "chunks = transfer_keys (tr_now w) (pr_node (node_at w i))"
    using assms(3) by (auto simp: trial_fetch_def split: option.splits)
  have lt: "i < length (tr_nodes w)" "addr i = a" using i(1) by (auto simp: find_Some_iff)
  then have "i < 2" using assms(1,2) by (cases "i = 2") (auto simp: trial_ok_def)
  then show ?thesis
    using trial_ok_node [OF assms(1) lt(1)] assms(4) i(2) by (auto simp: proc_ok_def intro: transfer_ok)
qed

lemma rebalancer_ok:
  assumes w: "trial_ok n t0 addr w" "i < length (tr_nodes w)"
    and step: "rebalancer_exec ext (trial_fetch addr w) (at_now (tr_now w) l) (node_at w i) = Some p"
  shows "proc_ok n t0 (tr_now w) (peer_addrs addr) i p"
proof -
  let ?p = "node_at w i" and ?S = "peer_addrs addr"
  have ok: "proc_ok n t0 (tr_now w) ?S i ?p" using trial_ok_node [OF w] .
  then have inv: "node_inv (pr_node ?p)" by (simp add: proc_ok_def)
  have "i = 2"
  proof (rule ccontr)
    assume "i \<noteq> 2"
    then have "pr_phase ?p = Standalone" using w ok by (auto simp: proc_ok_def trial_ok_def)
    then show False using step by (cases l) auto
  qed
  have table: "table_inv (ns_table (pr_node ?p))" and addrs: "addrs_in ?S (ns_table (pr_node ?p))"
    and store: "store_ok n t0 (tr_now w) nanos_per_milli (ns_store (pr_node ?p))" and phase: "phase_ok n t0 (tr_now w) ?S (pr_phase ?p)"
    using ok \<open>i = 2\<close> inv by (simp_all add: proc_ok_def node_inv_def)
  have "addrs_in ?S (ns_table (pr_node p)) \<and> store_ok n t0 (tr_now w) nanos_per_milli (ns_store (pr_node p)) \<and> phase_ok n t0 (tr_now w) ?S (pr_phase p)"
  proof (cases l)
    case Rebuild
    have "ni_addr (me_info e) \<in> ?S" if "e \<in> set (routable_peers (ns_table (pr_node ?p)))" for e
    proof -
      have "e \<in> set (all_members (ns_table (pr_node ?p)))" using that by (auto simp: routable_peers_def all_members_def)
      then show ?thesis using all_members_get(2) [OF table] addrs by (auto simp: addrs_in_def)
    qed
    then show ?thesis using step Rebuild addrs store by (auto simp: Let_def phase_ok_def split: if_splits)
  next
    case Connect
    then obtain ring peer peers tot where ph: "pr_phase ?p = Pulling ring (peer # peers) None tot"
      using step by (auto split: phase.splits list.splits option.splits)
    have peer: "ni_addr peer \<in> ?S" "\<forall>q\<in>set peers. ni_addr q \<in> ?S" using phase by (simp_all add: ph phase_ok_def)
    have "chunk_ok n t0 (tr_now w) c" if "trial_fetch addr w (ni_addr peer) = Inr (chunks, lost)" "c \<in> set chunks" for chunks lost c
      using trial_fetch_ok [OF w(1) peer(1) that] .
    then show ?thesis using step Connect addrs store peer(2) by (auto simp: ph phase_ok_def split: sum.splits prod.splits)
  next
    case (Chunk t)
    then obtain ring peers chunk chunks lost m tot where ph: "pr_phase ?p = Pulling ring peers (Some (chunk # chunks, lost, m)) tot"
      using step by (auto split: phase.splits list.splits option.splits prod.splits)
    have c: "chunk_ok n t0 (tr_now w) chunk" "\<forall>c\<in>set chunks. chunk_ok n t0 (tr_now w) c" "\<forall>q\<in>set peers. ni_addr q \<in> ?S"
      using phase by (simp_all add: ph phase_ok_def)
    show ?thesis
      using step Chunk addrs store c(2,3) accept_ok [OF _ c(1) store]
      by (auto simp: ph phase_ok_def split: sum.splits prod.splits)
  qed (use step addrs store phase addrs_ops(2) [OF table addrs] store_ok_ops(2) [OF store] in
      \<open>auto simp: phase_ok_def split: if_splits phase.splits list.splits option.splits prod.splits\<close>)
  then show ?thesis using rebalancer_exec_inv(1) [OF step inv] \<open>i = 2\<close> by (simp add: proc_ok_def)
qed

text \<open>Replacing the table of a node by a later one of its own.\<close>
lemma proc_ok_table:
  assumes "proc_ok n t0 now S i p" "table_inv t" "addrs_in S t" "is_self_joining t \<Longrightarrow> is_self_joining (ns_table (pr_node p))"
  shows "proc_ok n t0 now S i (with_table t p)"
  using assms by (auto simp: proc_ok_def node_inv_def)

lemma trial_ok_table:
  assumes "trial_ok n t0 addr w" "i < length (tr_nodes w)"
  shows "table_inv (ns_table (pr_node (node_at w i)))" "addrs_in (peer_addrs addr) (ns_table (pr_node (node_at w i)))"
  using trial_ok_node [OF assms] by (simp_all add: proc_ok_def node_inv_def)

lemma detector_ok:
  assumes w: "trial_ok n t0 addr w" "i < length (tr_nodes w)"
  shows "trial_ok n t0 addr (bg_exec ext addr (Detector i) w)"
proof -
  let ?t = "ns_table (pr_node (node_at w i))"
  let ?t' = "check_timeouts (tr_now w) (mt_local_id ?t) ?t"
  note t = trial_ok_table [OF w]
  have "table_inv ?t'" "addrs_in (peer_addrs addr) ?t'" using t by (simp_all add: check_timeouts_get addrs_ops)
  moreover have "is_self_joining ?t' \<Longrightarrow> is_self_joining ?t"
    using check_timeouts_local [OF t(1) refl] by (simp add: is_self_joining_view check_timeouts_get [OF t(1)])
  ultimately show ?thesis using w by (simp add: trial_ok_set proc_ok_table trial_ok_node)
qed

lemma serve_ok:
  assumes w: "trial_ok n t0 addr w" and k: "k < length (tr_mail w)" "tr_mail w ! k = Request i j msg nid" and j: "j < length (tr_nodes w)"
  shows "trial_ok n t0 addr (bg_exec ext addr (Serve k fresh) w)"
proof -
  let ?t = "ns_table (pr_node (node_at w j))"
  obtain answer t where ex: "gossip_exchange ext (tr_now w) fresh msg ?t = (answer, t)" by fastforce
  have "mail_in (peer_addrs addr) (Request i j msg nid)" using w k nth_mem [OF k(1)] unfolding trial_ok_def by metis
  then have msg: "message_in (peer_addrs addr) msg" by simp
  note e = exchange_in [OF trial_ok_table [OF w j] msg ex]
  have "trial_ok n t0 addr (set_node j (with_table t (node_at w j)) w)"
    by (intro trial_ok_set [OF w] proc_ok_table [OF trial_ok_node [OF w j]] e)
  then show ?thesis
    using k j ex e(3) set_update_subset_insert [of "tr_mail w" k "Response i answer nid"] by (auto simp: trial_ok_def)
qed

lemma receive_ok:
  assumes w: "trial_ok n t0 addr w" and k: "k < length (tr_mail w)" "tr_mail w ! k = Response i msg nid" and i: "i < length (tr_nodes w)"
  shows "trial_ok n t0 addr (bg_exec ext addr (Receive k fresh) w)"
proof -
  let ?t = "ns_table (pr_node (node_at w i))"
  let ?heard = "touch (tr_now w) nid ?t"
  note t = trial_ok_table [OF w i]
  have heard: "table_inv ?heard" "addrs_in (peer_addrs addr) ?heard" using t by (simp_all add: table_inv_ops addrs_ops)
  have "mail_in (peer_addrs addr) (Response i msg nid)" using w k nth_mem [OF k(1)] unfolding trial_ok_def by metis
  then have msg: "message_in (peer_addrs addr) msg" by simp
  have "is_self_joining (merge (tr_now w) rs ?heard) \<Longrightarrow> is_self_joining ?t" for rs
    using joining_not_entered(1) [OF heard(1)] joining_not_entered(2) [OF t(1)] by blast
  then have "trial_ok n t0 addr (set_node i (with_table (process_gossip_response ext (tr_now w) fresh msg ?heard) (node_at w i)) w)"
    unfolding process_gossip_response_def
    by (intro trial_ok_set [OF w] proc_ok_table [OF trial_ok_node [OF w i]] table_inv_merge addrs_merge heard decoded_in [OF msg])
  then show ?thesis using k i by (auto simp: trial_ok_def dest: in_set_takeD in_set_dropD)
qed

lemma bg_exec_ok:
  assumes w: "trial_ok n t0 addr w"
  shows "trial_ok n t0 addr (bg_exec ext addr b w)"
proof (cases b)
  case (Tick t)
  then show ?thesis using trial_ok_later [OF w, of "max (tr_now w) t"] by simp
next
  case (Rebalancer i l)
  then show ?thesis using rebalancer_ok [OF w] w by (auto intro: trial_ok_set split: option.split)
next
  case (Sweeper i)
  have "proc_ok n t0 (tr_now w) (peer_addrs addr) i (with_store (sweep (tr_now w) (ns_store (pr_node (node_at w i)))) (node_at w i))" if "i < length (tr_nodes w)"
    using trial_ok_node [OF w that] store_ok_ops(1) by (auto simp: proc_ok_def node_inv_def)
  then show ?thesis using Sweeper w by (auto intro: trial_ok_set)
next
  case (Detector i)
  then show ?thesis using w detector_ok [OF w, of i] by (cases "i < length (tr_nodes w)") simp_all
next
  case (Send i j nid)
  have "message_in (peer_addrs addr) (build_gossip_message ext (tr_now w) (ns_table (pr_node (node_at w i))))" if "i < length (tr_nodes w)"
    by (intro built_in trial_ok_table [OF w that])
  then show ?thesis using Send w by (auto simp: trial_ok_def)
next
  case (Serve k fresh)
  then show ?thesis using w serve_ok [OF w] by (cases "tr_mail w ! k") (auto simp del: bg_exec.simps(6), auto)
next
  case (Receive k fresh)
  then show ?thesis using w receive_ok [OF w] by (cases "tr_mail w ! k") (auto simp del: bg_exec.simps(7), auto)
qed

section \<open>The steps of the test\<close>

lemma bg_exec_length: "length (tr_nodes (bg_exec ext addr b w)) = length (tr_nodes w)"
  by (cases b) (auto split: option.split mail.split prod.split)

lemma let_run_ok:
  assumes "trial_ok n t0 addr w"
  shows "trial_ok n t0 addr (let_run ext addr bs w)" "length (tr_nodes (let_run ext addr bs w)) = length (tr_nodes w)"
proof -
  show "trial_ok n t0 addr (let_run ext addr bs w)" using assms by (induction bs arbitrary: w) (simp_all add: bg_exec_ok)
  show "length (tr_nodes (let_run ext addr bs w)) = length (tr_nodes w)" by (induction bs arbitrary: w) (simp_all add: bg_exec_length)
qed

text \<open>The clock stays far from its end as long as the readings do.\<close>
definition early :: "duration \<Rightarrow> trial \<Rightarrow> bool" where
  "early d w \<longleftrightarrow> tr_now w < 2 ^ 61 * nanos_per_sec + d"

definition ticks_early :: "background list \<Rightarrow> bool" where
  "ticks_early bs \<longleftrightarrow> (\<forall>t. Tick t \<in> set bs \<longrightarrow> t < 2 ^ 61 * nanos_per_sec)"

lemma bg_exec_early:
  assumes "early d w" "\<And>t. b = Tick t \<Longrightarrow> t < 2 ^ 61 * nanos_per_sec"
  shows "early d (bg_exec ext addr b w)"
proof (cases b)
  case (Tick t)
  then show ?thesis using assms by (auto simp: early_def)
qed (use assms(1) in \<open>auto simp: early_def split: option.split mail.split prod.split\<close>)

lemma let_run_early: "early d w \<Longrightarrow> ticks_early bs \<Longrightarrow> early d (let_run ext addr bs w)"
proof (induction bs arbitrary: w)
  case (Cons b bs)
  have "early d (bg_exec ext addr b w)" using Cons.prems by (intro bg_exec_early) (auto simp: ticks_early_def)
  moreover have "ticks_early bs" using Cons.prems(2) by (simp add: ticks_early_def)
  ultimately show ?case using Cons.IH by simp
qed simp

lemma early_instant: "early d w \<Longrightarrow> d \<le> 60 * nanos_per_sec \<Longrightarrow> tr_now w < 2 ^ 62 * nanos_per_sec"
  by (simp add: early_def nanos_per_sec_def)

lemma sleep_ok: "trial_ok n t0 addr w \<Longrightarrow> trial_ok n t0 addr (sleep d w)"
  by (simp add: sleep_def trial_ok_later)

lemma sleep_early: "early d w \<Longrightarrow> early (d + d') (sleep d' w)"
  by (simp add: sleep_def early_def)

lemma client_set_ok:
  assumes "trial_ok n t0 addr w" "i < length (tr_nodes w)" "client_set i req w = (r, w')"
    and "entry_ok n t0 (tr_now w) 0 (sr_key req) (sr_value req, map_option (\<lambda>ms. tr_now w + from_millis ms) (sr_ttl_ms req))"
  shows "trial_ok n t0 addr w'" "length (tr_nodes w') = length (tr_nodes w)" "tr_now w' = tr_now w"
proof -
  let ?p = "node_at w i"
  note p = trial_ok_node [OF assms(1,2), unfolded proc_ok_def]
  have slack: "entry_ok n t0 (tr_now w) slack (sr_key req) (sr_value req, map_option (\<lambda>ms. tr_now w + from_millis ms) (sr_ttl_ms req))" for slack
    using assms(4) by (auto simp: entry_ok_def)
  have "proc_ok n t0 (tr_now w) (peer_addrs addr) i (?p\<lparr>pr_node := s\<rparr>)" if "node_set (tr_now w) req (pr_node ?p) = Inr (r', s)" for r' s
  proof -
    have "s = pr_node ?p \<or> s = (pr_node ?p)\<lparr>ns_store := put_entry (sr_key req) (sr_value req)
        (map_option (\<lambda>ms. tr_now w + from_millis ms) (sr_ttl_ms req)) (ns_store (pr_node ?p))\<rparr>"
      using that by (auto simp: node_set_def and_then_Inr_conv store_set_Inr split: if_splits)
    then show ?thesis using p store_ok_put [OF _ slack] by (auto simp: proc_ok_def node_inv_def)
  qed
  then show "trial_ok n t0 addr w'" "length (tr_nodes w') = length (tr_nodes w)" "tr_now w' = tr_now w"
    using assms(1,3) by (auto simp: client_set_def intro: trial_ok_set split: sum.splits prod.splits)
qed

text \<open>A write that the node cannot take is refused with the one code the test allows.\<close>
lemma client_set_code:
  assumes "trial_ok n t0 addr w" "i < length (tr_nodes w)" "tr_now w < 2 ^ 62 * nanos_per_sec"
  shows "fst (client_set i req w) = (if is_self_joining (ns_table (pr_node (node_at w i))) then Inl (Status Unavailable ''node is joining'')
     else Inr \<lparr>sresp_success = True\<rparr>)"
  using node_set_alive [of "pr_node (node_at w i)", OF _ assms(3), of req]
  by (simp add: client_set_def) (simp add: node_set_def)

lemma written_entry: "i < n \<Longrightarrow> t0 \<le> now \<Longrightarrow> entry_ok n t0 now 0 (key_name i) (value_name i, map_option (\<lambda>ms. now + from_millis ms) (Some 60000))"
  by (auto simp: entry_ok_def written_def from_millis_def nanos_per_milli_def nanos_per_sec_def)

lemma extra_entry: "extra k \<Longrightarrow> entry_ok n t0 now 0 k (v, map_option (\<lambda>ms. now + from_millis ms) None)"
  by (simp add: entry_ok_def)

lemma write_keys_ok:
  assumes "trial_ok n t0 addr w" "early nanos_per_sec w" "0 < length (tr_nodes w)" "\<forall>i\<in>set is. i < n" "\<forall>i. ticks_early (bg i)"
  shows "\<exists>w'. write_keys ext addr bg is w = Some w' \<and> trial_ok n t0 addr w' \<and> early nanos_per_sec w' \<and> length (tr_nodes w') = length (tr_nodes w)"
  using assms
proof (induction "is" arbitrary: w)
  case (Cons i "is")
  let ?w = "let_run ext addr (bg i) w" and ?req = "\<lparr>sr_key = key_name i, sr_value = value_name i, sr_ttl_ms = Some 60000\<rparr>"
  obtain r w1 where set: "client_set 0 ?req ?w = (r, w1)" by fastforce
  have ok: "trial_ok n t0 addr ?w" "length (tr_nodes ?w) = length (tr_nodes w)" using let_run_ok [OF Cons.prems(1)] by simp_all
  have early: "early nanos_per_sec ?w" using let_run_early Cons.prems(2,5) by blast
  have A: "0 < length (tr_nodes ?w)" "\<not> is_self_joining (ns_table (pr_node (node_at ?w 0)))"
    using Cons.prems(3) ok(2) trial_ok_node [OF ok(1), of 0] by (simp_all add: proc_ok_def)
  have "t0 \<le> tr_now ?w" using ok(1) by (simp add: trial_ok_def)
  then have e: "entry_ok n t0 (tr_now ?w) 0 (sr_key ?req) (sr_value ?req, map_option (\<lambda>ms. tr_now ?w + from_millis ms) (sr_ttl_ms ?req))"
    using written_entry [of i n t0 "tr_now ?w"] Cons.prems(4) by simp
  note w1 = client_set_ok [OF ok(1) A(1) set e]
  have "r = Inr \<lparr>sresp_success = True\<rparr>" using client_set_code [OF ok(1) A(1) early_instant [OF early], of ?req] A(2) set by simp
  moreover have "early nanos_per_sec w1" using early w1(3) by (simp add: early_def)
  ultimately show ?case using Cons.IH [OF w1(1)] Cons.prems w1(2) ok(2) set by simp
qed simp

lemma client_delete_ok:
  assumes "trial_ok n t0 addr w" "i < length (tr_nodes w)" "client_delete i key w = (r, w')"
  shows "trial_ok n t0 addr w'" "length (tr_nodes w') = length (tr_nodes w)" "i < 2 \<Longrightarrow> \<exists>d. r = Inr d"
proof -
  note p = trial_ok_node [OF assms(1,2), unfolded proc_ok_def]
  have inv: "node_inv (pr_node (node_at w i))" using p by simp
  have w': "w' = set_node i ((node_at w i)\<lparr>pr_node := snd (node_delete key (pr_node (node_at w i)))\<rparr>) w" "r = fst (node_delete key (pr_node (node_at w i)))"
    using assms(3) by (auto simp: client_delete_def split: prod.splits)
  show "trial_ok n t0 addr w'" unfolding w'(1)
    using p node_inv_ops(2) [OF inv, of key] store_ok_ops(2) by (intro trial_ok_set [OF assms(1)]) (auto simp: proc_ok_def node_delete_store)
  show "length (tr_nodes w') = length (tr_nodes w)" by (simp add: w'(1))
  show "i < 2 \<Longrightarrow> \<exists>d. r = Inr d" using p by (auto simp: w'(2) node_delete_def split: prod.split)
qed

lemma delete_keys_ok:
  assumes "trial_ok n t0 addr w" "0 < length (tr_nodes w)"
  shows "\<exists>w'. delete_keys ext addr bg i ks w = Some w' \<and> trial_ok n t0 addr w' \<and> length (tr_nodes w') = length (tr_nodes w)"
  using assms
proof (induction ks arbitrary: w i)
  case (Cons k ks)
  note ok = let_run_ok [OF Cons.prems(1), of ext "bg i"]
  obtain r w1 where del: "client_delete 0 k (let_run ext addr (bg i) w) = (r, w1)" by fastforce
  have "0 < length (tr_nodes (let_run ext addr (bg i) w))" using ok(2) Cons.prems(2) by simp
  note w1 = client_delete_ok [OF ok(1) this del]
  moreover have "0 < length (tr_nodes w1)" using w1(2) ok(2) Cons.prems(2) by simp
  ultimately show ?case using Cons.IH [of w1 "i + 1"] Cons.prems(2) del ok(2) by auto
qed simp

lemma poll_alive_ok:
  assumes "trial_ok n t0 addr w"
  shows "trial_ok n t0 addr (poll_alive ext addr bg start i w) \<and> length (tr_nodes (poll_alive ext addr bg start i w)) = length (tr_nodes w)"
  using assms
proof (induction ext addr bg start i w rule: poll_alive.induct)
  case (1 ext addr bg start i w)
  let ?w = "let_run ext addr (bg i) (sleep (100 * nanos_per_milli) w)"
  have "trial_ok n t0 addr ?w" "length (tr_nodes ?w) = length (tr_nodes w)"
    using let_run_ok [OF sleep_ok [OF 1(2), of "100 * nanos_per_milli"], of ext "bg i"] by (simp_all add: sleep_def)
  then show ?case using 1 by (subst (1 2) poll_alive.simps) auto
qed

lemma read_c_ok:
  assumes "trial_ok n t0 addr w" "2 < length (tr_nodes w)" "read_c key w = (v, w')"
  shows "trial_ok n t0 addr w'" "length (tr_nodes w') = length (tr_nodes w)"
    and "key = key_name i \<Longrightarrow> v = None \<or> v = Some (value_name i)"
proof -
  let ?st = "ns_store (pr_node (node_at w 2))"
  note p = trial_ok_node [OF assms(1,2), unfolded proc_ok_def]
  have w': "w' = set_node 2 (with_store (snd (store_get (tr_now w) key ?st)) (node_at w 2)) w" "v = fst (store_get (tr_now w) key ?st)"
    using assms(3) by (auto simp: read_c_def split: prod.splits)
  show "trial_ok n t0 addr w'" unfolding w'(1)
    using p store_ok_ops(3) by (intro trial_ok_set [OF assms(1)]) (auto simp: proc_ok_def node_inv_def)
  show "length (tr_nodes w') = length (tr_nodes w)" by (simp add: w'(1))
  show "v = None \<or> v = Some (value_name i)" if "key = key_name i"
  proof (cases "visible ?st (tr_now w) key")
    case None
    then show ?thesis by (simp add: w'(2) store_get_result)
  next
    case (Some x)
    then have "entry_ok n t0 (tr_now w) nanos_per_milli key x"
      using p by (auto simp: store_ok_def visible_def shown_def split: option.splits if_splits)
    then show ?thesis using Some that by (auto simp: w'(2) store_get_result entry_ok_def written_def extra_def key_name_def value_name_def)
  qed
qed

lemma read_deleted_ok:
  assumes "trial_ok n t0 addr w" "2 < length (tr_nodes w)"
  shows "trial_ok n t0 addr (read_deleted ext addr bg i ks w) \<and> length (tr_nodes (read_deleted ext addr bg i ks w)) = length (tr_nodes w)"
  using assms
proof (induction ks arbitrary: i w)
  case (Cons k ks)
  note ok = let_run_ok [OF Cons.prems(1), of ext "bg i"]
  obtain v w1 where read: "read_c k (let_run ext addr (bg i) w) = (v, w1)" by fastforce
  have "2 < length (tr_nodes (let_run ext addr (bg i) w))" using Cons.prems(2) ok(2) by simp
  note w1 = read_c_ok [OF ok(1) this read]
  then show ?case using Cons.IH [of w1 "i + 1"] Cons.prems(2) read ok(2) by simp
qed simp

lemma count_keys_ok:
  assumes "trial_ok n t0 addr w" "2 < length (tr_nodes w)" "count_keys ext addr bg is (m, m) w = (counts, w')"
  shows "fst counts = snd counts \<and> trial_ok n t0 addr w' \<and> length (tr_nodes w') = length (tr_nodes w)"
  using assms
proof (induction "is" arbitrary: m w)
  case (Cons i "is")
  show ?case
  proof (cases "key_name i \<in> set keys_to_delete")
    case True
    then show ?thesis using Cons by simp
  next
    case False
    note ok = let_run_ok [OF Cons.prems(1), of ext "bg i"]
    obtain v w1 where read: "read_c (key_name i) (let_run ext addr (bg i) w) = (v, w1)" by fastforce
    have "2 < length (tr_nodes (let_run ext addr (bg i) w))" using Cons.prems(2) ok(2) by simp
    note w1 = read_c_ok [OF ok(1) this read]
    have "\<exists>m'. count_keys ext addr bg is (m', m') w1 = (counts, w')"
      using Cons.prems(3) False read w1(3) [OF refl] by auto
    then show ?thesis using Cons.IH [OF w1(1)] Cons.prems(2) w1(2) ok(2) by auto
  qed
qed auto

text \<open>The lifetime check fails only when the run has taken ten seconds.\<close>
lemma check_ttl_ok:
  assumes "trial_ok n t0 addr w" "2 < length (tr_nodes w)" "check_ttl which w = Some v"
  shows "v = TtlLost \<and> t0 + 10 * nanos_per_sec \<le> tr_now w + nanos_per_milli"
proof -
  let ?st = "ns_store (pr_node (node_at w 2))"
  let ?es = "entries_for_transfer (tr_now w) ?st"
  let ?k = "fst (?es ! (which mod length ?es))"
  have st: "store_ok n t0 (tr_now w) nanos_per_milli ?st" using trial_ok_node [OF assms(1,2)] by (simp add: proc_ok_def)
  obtain r where r: "store_ttl (tr_now w) ?k ?st = Some r" "?es \<noteq> []"
    using assms(3) by (auto simp: check_ttl_def Let_def split: if_splits option.splits)
  have "?es ! (which mod length ?es) \<in> set ?es" using r(2) by (intro nth_mem) simp
  then obtain x ms where "(?k, x, ms) \<in> set ?es" by (metis prod.collapse)
  moreover have "store_inv ?st" using st by (simp add: store_ok_def)
  ultimately obtain e where "visible ?st (tr_now w) ?k = Some (x, e)" using entries_for_transfer_visible by blast
  then have c: "content_of ?st ?k = Some (x, e)" "not_after (tr_now w) e"
    by (auto simp: visible_def shown_def split: option.splits if_splits)
  have "entry_ok n t0 (tr_now w) nanos_per_milli ?k (x, e)" using st c(1) by (simp add: store_ok_def)
  moreover have "e = Some (tr_now w + r)"
    using r(1) c by (auto simp: store_ttl_def content_of_def not_after_def split: option.splits if_splits)
  ultimately have "t0 + 60 * nanos_per_sec \<le> tr_now w + r + nanos_per_milli" "r \<le> 60 * nanos_per_sec" by (auto simp: entry_ok_def)
  then show ?thesis using assms(3) r by (auto simp: check_ttl_def Let_def split: if_splits)
qed

lemma table_new_addrs:
  assumes "[] \<in> S" "\<forall>x\<in>set seeds. ni_addr x \<in> S"
  shows "addrs_in S (table_new now l seeds)"
proof -
  let ?good = "\<lambda>m. hm_invar m \<and> (\<forall>nid e. hm_get m nid = Some e \<longrightarrow> ni_addr (me_info e) \<in> S)"
  have "?good (fold (\<lambda>n m. if ni_id n \<noteq> l then hm_insert (ni_id n) (seed_entry now n) m else m) seeds m)" if "?good m" for m
    using assms(2) that
  proof (induction seeds arbitrary: m)
    case (Cons a seeds)
    let ?m = "if ni_id a \<noteq> l then hm_insert (ni_id a) (seed_entry now a) m else m"
    have "?good ?m" using Cons.prems by (auto simp: seed_entry_def)
    then show ?case using Cons.IH [of ?m] Cons.prems(1) by simp
  qed simp
  note seeds = this
  obtain self where t: "mt_members (table_new now l seeds) =
      fold (\<lambda>n m. if ni_id n \<noteq> l then hm_insert (ni_id n) (seed_entry now n) m else m) seeds (hm_insert l self [])"
    "me_info self = (case List.find (\<lambda>n. ni_id n = l) seeds of Some n \<Rightarrow> n | None \<Rightarrow> \<lparr>ni_id = l, ni_addr = []\<rparr>)"
    unfolding table_new_def Let_def by (metis member_entry.select_convs(1) membership_table.select_convs(1))
  have "ni_addr (me_info self) \<in> S" using assms by (auto simp: t(2) split: option.split dest: find_Some_in_set)
  then have "?good (hm_insert l self [])" by auto
  from seeds [OF this] show ?thesis unfolding addrs_in_def t(1) by blast
qed

lemma start_server_ok:
  assumes w: "trial_ok n t0 addr w" "length (tr_nodes w) < 3" "seeds = [] \<longleftrightarrow> length (tr_nodes w) < 2" "\<forall>x\<in>set seeds. ni_addr x \<in> peer_addrs addr"
    and start: "start_server ext addr bg nid seeds w = (joining, w')"
  shows "trial_ok n t0 addr w'" "length (tr_nodes w') = Suc (length (tr_nodes w))" "joining \<longleftrightarrow> seeds \<noteq> []"
    and "early d w \<Longrightarrow> ticks_early bg \<Longrightarrow> early (d + 100 * nanos_per_milli) w'"
proof -
  obtain p where p: "start_node_server (tr_now w) nid seeds = (p, seeds \<noteq> [])" "pr_node p = node_new (tr_now w) nid seeds"
    "pr_phase p = (if seeds \<noteq> [] then Polling else Standalone)" by (simp add: start_node_server_def Let_def)
  let ?w = "w\<lparr>tr_nodes := tr_nodes w @ [p]\<rparr>"
  have w': "w' = let_run ext addr bg (sleep (100 * nanos_per_milli) ?w)" "joining \<longleftrightarrow> seeds \<noteq> []"
    using start p(1) by (simp_all add: start_server_def)
  have "content_of (store_new (tr_now w)) k = None" for k by (simp add: content_of_def store_new_def hm_get_def)
  then have "store_ok n t0 (tr_now w) slack (ns_store (pr_node p))" for slack by (simp add: p(2) node_new_def store_ok_def)
  moreover have "addrs_in (peer_addrs addr) (ns_table (pr_node p))"
    using table_new_addrs [of "peer_addrs addr" seeds "tr_now w" nid] w(4) by (simp add: p(2) node_new_def peer_addrs_def)
  moreover have "\<not> is_self_joining (ns_table (pr_node p))" if "seeds = []"
    using that table_new_get_local [of "tr_now w" nid seeds] by (simp add: p(2) node_new_def is_self_joining_def)
  ultimately have "proc_ok n t0 (tr_now w) (peer_addrs addr) (length (tr_nodes w)) p"
    using w(3) p(3) by (auto simp: proc_ok_def p(2) node_inv_new phase_ok_def)
  then have "trial_ok n t0 addr ?w" using w(1,2) by (auto simp: trial_ok_def nth_append less_Suc_eq)
  note ok = let_run_ok [OF sleep_ok [OF this, of "100 * nanos_per_milli"], of ext bg]
  show "trial_ok n t0 addr w'" "length (tr_nodes w') = Suc (length (tr_nodes w))" "joining \<longleftrightarrow> seeds \<noteq> []"
    using ok w' by (simp_all add: sleep_def)
  show "early (d + 100 * nanos_per_milli) w'" if "early d w" "ticks_early bg"
    using that let_run_early [OF sleep_early [of d ?w "100 * nanos_per_milli"], of bg ext addr] by (simp add: w'(1) early_def)
qed

lemma check_transfer_ok:
  assumes "trial_ok n t0 addr w" "2 < length (tr_nodes w)" "check_transfer ext addr bg m nid which w = (v, w')"
  shows "v \<in> {Passed, NothingTransferred, NotAliveAtA} \<or> v = TtlLost \<and> t0 + 10 * nanos_per_sec \<le> tr_now w' + nanos_per_milli"
proof -
  let ?w = "read_deleted ext addr (bg 214) 0 keys_to_delete w"
  have w: "trial_ok n t0 addr ?w" "2 < length (tr_nodes ?w)" using read_deleted_ok [OF assms(1,2), of ext "bg 214" 0 keys_to_delete] assms(2) by simp_all
  obtain a b w1 where counts: "count_keys ext addr (bg 234) [0..<m] (0, 0) ?w = ((a, b), w1)" by (metis prod.exhaust)
  note w1 = count_keys_ok [OF w counts]
  have "trial_ok n t0 addr w1" using w1 by simp
  note w2 = let_run_ok [OF this, of ext "bg 259 0"]
  have len: "2 < length (tr_nodes (let_run ext addr (bg 259 0) w1))" using w1 w(2) w2(2) by simp
  show ?thesis
  proof (cases "check_ttl which (let_run ext addr (bg 259 0) w1)")
    case (Some u)
    then show ?thesis using assms(3) counts w1 check_ttl_ok [OF w2(1) len Some]
      by (auto simp: check_transfer_def Let_def split: if_splits)
  next
    case None
    then show ?thesis using assms(3) counts w1 by (auto simp: check_transfer_def Let_def split: if_splits)
  qed
qed

text \<open>The test up to the first write, and from the start of node C to its first write there.\<close>
lemma setup_ok:
  fixes ext :: externs and ids :: "nat \<Rightarrow> node_id" and bg :: schedule
  assumes "addr 2 \<notin> peer_addrs addr" "t0 < 2 ^ 61 * nanos_per_sec" "\<forall>line i. ticks_early (bg line i)"
  defines "w1 \<equiv> snd (start_server ext addr (bg 100 0) (ids 0) [] \<lparr>tr_now = t0, tr_nodes = [], tr_mail = []\<rparr>)"
  defines "w2 \<equiv> snd (start_server ext addr (bg 101 0) (ids 1) [] w1)"
  defines "w3 \<equiv> let_run ext addr (bg 107 0) (sleep (200 * nanos_per_milli) w2)"
  shows "trial_ok n t0 addr w3" "length (tr_nodes w3) = 2" "early (400 * nanos_per_milli) w3"
proof -
  let ?w0 = "\<lparr>tr_now = t0, tr_nodes = [], tr_mail = []\<rparr> :: trial"
  have w0: "trial_ok n t0 addr ?w0" "early 0 ?w0" using assms(1,2) by (simp_all add: trial_ok_def early_def)
  obtain b1 where "start_server ext addr (bg 100 0) (ids 0) [] ?w0 = (b1, w1)" unfolding w1_def by (metis prod.collapse)
  note s1 = start_server_ok [OF w0(1) _ _ _ this]
  have w1: "trial_ok n t0 addr w1" "length (tr_nodes w1) = 1" "early (100 * nanos_per_milli) w1"
    using s1 assms(3) w0(2) by fastforce+
  obtain b2 where "start_server ext addr (bg 101 0) (ids 1) [] w1 = (b2, w2)" unfolding w2_def by (metis prod.collapse)
  note s2 = start_server_ok [OF w1(1) _ _ _ this]
  have w2: "trial_ok n t0 addr w2" "length (tr_nodes w2) = 2" "early (200 * nanos_per_milli) w2"
    using s2(1,2) s2(4) [of "100 * nanos_per_milli"] w1(2,3) assms(3) by simp_all
  show "trial_ok n t0 addr w3" "length (tr_nodes w3) = 2" "early (400 * nanos_per_milli) w3"
    using let_run_ok [OF sleep_ok [OF w2(1), of "200 * nanos_per_milli"], of ext "bg 107 0"] w2(2)
      let_run_early [OF sleep_early [OF w2(3), of "200 * nanos_per_milli"], of "bg 107 0" ext addr] assms(3)
    by (simp_all add: w3_def sleep_def)
qed

lemma client_set_joining:
  assumes "client_set i req w = (Inl e, w')" "sr_ttl_ms req = None" "i < length (tr_nodes w)"
  shows "is_self_joining (ns_table (pr_node (node_at w' i)))"
  using assms by (auto simp: client_set_def node_set_def store_set_def split: if_splits)

section \<open>Properties\<close>



end
