(* ===== verification/Health_Monitor.thy ===== *)
theory Health_Monitor
  imports Common_Types
begin

text \<open>
  The router's view of node health, \<^verbatim>\<open>crates/router/src/health/mod.rs\<close>: a state per node with a 32-bit count of
  consecutive failures. Every method holds the lock for its whole body. A pass of the health checker
  probes the configured nodes in order; a probe's outcome is a parameter. Shown here: the count says
  exactly how many failures in a row were seen, a node is given up after the threshold and not before,
  and any success brings it back.
\<close>

datatype node_health = HAlive | HSuspect | HDead | HJoining

record node_health_entry =
  nh_health :: node_health
  nh_last_checked :: instant
  nh_consecutive_failures :: u32

record health_monitor =
  hm_nodes :: "(node_id, node_health_entry) hmap"
  hm_failure_threshold :: u32

definition monitor_new :: health_monitor where
  "monitor_new = \<lparr>hm_nodes = [], hm_failure_threshold = 3\<rparr>"

definition with_failure_threshold :: "u32 \<Rightarrow> health_monitor \<Rightarrow> health_monitor" where
  "with_failure_threshold threshold m = m\<lparr>hm_failure_threshold := threshold\<rparr>"

definition health_mark_alive :: "instant \<Rightarrow> node_id \<Rightarrow> health_monitor \<Rightarrow> health_monitor" where
  "health_mark_alive now nid m =
     m\<lparr>hm_nodes := hm_insert nid \<lparr>nh_health = HAlive, nh_last_checked = now, nh_consecutive_failures = 0\<rparr> (hm_nodes m)\<rparr>"

definition health_mark_joining :: "instant \<Rightarrow> node_id \<Rightarrow> health_monitor \<Rightarrow> health_monitor" where
  "health_mark_joining now nid m =
     m\<lparr>hm_nodes := hm_insert nid \<lparr>nh_health = HJoining, nh_last_checked = now, nh_consecutive_failures = 0\<rparr> (hm_nodes m)\<rparr>"

text \<open>The body of \<^verbatim>\<open>record_failure\<close> on an entry; \<^verbatim>\<open>consecutive_failures += 1\<close> wraps.\<close>
definition fail_entry :: "instant \<Rightarrow> u32 \<Rightarrow> node_health_entry \<Rightarrow> node_health_entry" where
  "fail_entry now threshold e =
     (let e' = e\<lparr>nh_consecutive_failures := nh_consecutive_failures e + 1, nh_last_checked := now\<rparr> in
      case nh_health e' of
        HAlive \<Rightarrow> e'\<lparr>nh_health := HSuspect\<rparr>
      | HJoining \<Rightarrow> e'\<lparr>nh_health := HSuspect\<rparr>
      | HSuspect \<Rightarrow> if threshold \<le> nh_consecutive_failures e' then e'\<lparr>nh_health := HDead\<rparr> else e'
      | HDead \<Rightarrow> e')"

definition record_failure :: "instant \<Rightarrow> node_id \<Rightarrow> health_monitor \<Rightarrow> health_monitor" where
  "record_failure now nid m =
     (let entry = (case hm_get (hm_nodes m) nid of
                     Some e \<Rightarrow> e
                   | None \<Rightarrow> \<lparr>nh_health = HAlive, nh_last_checked = now, nh_consecutive_failures = 0\<rparr>)
      in m\<lparr>hm_nodes := hm_insert nid (fail_entry now (hm_failure_threshold m) entry) (hm_nodes m)\<rparr>)"

definition health_is_alive :: "health_monitor \<Rightarrow> node_id \<Rightarrow> bool" where
  "health_is_alive m nid =
     (case hm_get (hm_nodes m) nid of
        Some e \<Rightarrow> nh_health e \<noteq> HDead \<and> nh_health e \<noteq> HJoining
      | None \<Rightarrow> True)"

definition health_dead_nodes :: "health_monitor \<Rightarrow> node_id list" where
  "health_dead_nodes m = map fst (filter (\<lambda>(_, e). nh_health e = HDead) (hm_nodes m))"

definition all_health :: "health_monitor \<Rightarrow> (node_id, node_health) hmap" where
  "all_health m = map (\<lambda>(i, e). (i, nh_health e)) (hm_nodes m)"

section \<open>Invariant\<close>

definition health_of :: "health_monitor \<Rightarrow> node_id \<Rightarrow> (node_health \<times> u32) option" where
  "health_of m nid = map_option (\<lambda>e. (nh_health e, nh_consecutive_failures e)) (hm_get (hm_nodes m) nid)"

text \<open>
  A node in good standing has no failures; a suspect one has at least one and, unless it is the first,
  fewer than the threshold.
\<close>
definition standing_ok :: "u32 \<Rightarrow> node_health \<times> u32 \<Rightarrow> bool" where
  "standing_ok T hc = (case hc of (h, c) \<Rightarrow>
     (h = HAlive \<or> h = HJoining \<longrightarrow> c = 0) \<and> (h = HSuspect \<longrightarrow> 0 < c \<and> (c = 1 \<or> c < T)))"

definition health_inv :: "health_monitor \<Rightarrow> bool" where
  "health_inv m \<longleftrightarrow> hm_invar (hm_nodes m) \<and> (\<forall>nid hc. health_of m nid = Some hc \<longrightarrow> standing_ok (hm_failure_threshold m) hc)"

fun fail_standing :: "u32 \<Rightarrow> node_health \<times> u32 \<Rightarrow> node_health \<times> u32" where
  "fail_standing T (h, c) =
     (if h = HAlive \<or> h = HJoining then (HSuspect, c + 1)
      else if h = HSuspect \<and> T \<le> c + 1 then (HDead, c + 1)
      else (h, c + 1))"

lemma health_of_mark_alive: "hm_invar (hm_nodes m) \<Longrightarrow> health_of (health_mark_alive now nid m) = (health_of m)(nid \<mapsto> (HAlive, 0))"
  by (auto simp: health_of_def health_mark_alive_def fun_eq_iff)

lemma health_of_mark_joining: "hm_invar (hm_nodes m) \<Longrightarrow> health_of (health_mark_joining now nid m) = (health_of m)(nid \<mapsto> (HJoining, 0))"
  by (auto simp: health_of_def health_mark_joining_def fun_eq_iff)

lemma fail_entry_standing:
  "(nh_health (fail_entry now T e), nh_consecutive_failures (fail_entry now T e))
   = fail_standing T (nh_health e, nh_consecutive_failures e)"
  by (cases "nh_health e") (simp_all add: fail_entry_def Let_def)

lemma health_of_record_failure:
  assumes "hm_invar (hm_nodes m)"
  shows "health_of (record_failure now nid m)
         = (health_of m)(nid \<mapsto> fail_standing (hm_failure_threshold m) (case health_of m nid of Some hc \<Rightarrow> hc | None \<Rightarrow> (HAlive, 0)))"
proof -
  let ?e = "case hm_get (hm_nodes m) nid of Some e \<Rightarrow> e
            | None \<Rightarrow> \<lparr>nh_health = HAlive, nh_last_checked = now, nh_consecutive_failures = 0\<rparr>"
  have "(nh_health ?e, nh_consecutive_failures ?e) = (case health_of m nid of Some hc \<Rightarrow> hc | None \<Rightarrow> (HAlive, 0))"
    by (simp add: health_of_def split: option.split)
  then show ?thesis
    using assms fail_entry_standing [of now "hm_failure_threshold m" ?e]
    by (auto simp: health_of_def record_failure_def Let_def fun_eq_iff)
qed

lemma monitor_ops_keep [simp]:
  "hm_failure_threshold (health_mark_alive now nid m) = hm_failure_threshold m"
  "hm_failure_threshold (health_mark_joining now nid m) = hm_failure_threshold m"
  "hm_failure_threshold (record_failure now nid m) = hm_failure_threshold m"
  "hm_invar (hm_nodes m) \<Longrightarrow> hm_invar (hm_nodes (health_mark_alive now nid m))"
  "hm_invar (hm_nodes m) \<Longrightarrow> hm_invar (hm_nodes (health_mark_joining now nid m))"
  "hm_invar (hm_nodes m) \<Longrightarrow> hm_invar (hm_nodes (record_failure now nid m))"
  by (simp_all add: health_mark_alive_def health_mark_joining_def record_failure_def Let_def)

lemma fail_standing_ok: "standing_ok T hc \<Longrightarrow> standing_ok T (fail_standing T hc)"
  by (cases hc) (auto simp: standing_ok_def not_le word_neq_0_conv [symmetric] dest: word_inc_nonzero)

lemma health_inv_ops [wf_intros]:
  assumes "health_inv m"
  shows "health_inv (health_mark_alive now nid m)" "health_inv (health_mark_joining now nid m)"
    "health_inv (record_failure now nid m)"
proof -
  let ?hc = "case health_of m nid of Some hc \<Rightarrow> hc | None \<Rightarrow> (HAlive, 0)"
  have "standing_ok (hm_failure_threshold m) ?hc"
    using assms by (auto simp: health_inv_def standing_ok_def split: option.split)
  then have "standing_ok (hm_failure_threshold m) (fail_standing (hm_failure_threshold m) ?hc)"
    by (rule fail_standing_ok)
  then show "health_inv (record_failure now nid m)"
    using assms by (auto simp: health_inv_def health_of_record_failure simp del: fail_standing.simps split_paired_All)
  show "health_inv (health_mark_alive now nid m)" "health_inv (health_mark_joining now nid m)"
    using assms by (simp_all add: health_inv_def health_of_mark_alive health_of_mark_joining standing_ok_def)
qed

lemma health_inv_new [wf_intros]: "health_inv monitor_new"
  by (simp add: health_inv_def monitor_new_def health_of_def)

lemma is_alive_standing: "health_is_alive m nid \<longleftrightarrow> (case health_of m nid of Some (h, c) \<Rightarrow> h \<noteq> HDead \<and> h \<noteq> HJoining | None \<Rightarrow> True)"
  by (simp add: health_is_alive_def health_of_def split: option.split)

section \<open>Runs of failures\<close>

lemma fold_record_failure:
  assumes "hm_invar (hm_nodes m)" "ts \<noteq> []"
  shows "health_of (fold (\<lambda>now. record_failure now nid) ts m) nid
    = Some ((fail_standing (hm_failure_threshold m) ^^ length ts) (case health_of m nid of Some hc \<Rightarrow> hc | None \<Rightarrow> (HAlive, 0)))"
  using assms
proof (induction ts arbitrary: m)
  case (Cons now ts)
  let ?hc = "case health_of m nid of Some hc \<Rightarrow> hc | None \<Rightarrow> (HAlive, 0)" and ?T = "hm_failure_threshold m"
  have one: "health_of (record_failure now nid m) nid = Some (fail_standing ?T ?hc)"
    using Cons.prems(1) by (simp add: health_of_record_failure del: fail_standing.simps)
  show ?case
  proof (cases "ts = []")
    case True
    then show ?thesis using one by (simp del: fail_standing.simps)
  next
    case False
    have "(fail_standing ?T ^^ length ts) (fail_standing ?T ?hc) = (fail_standing ?T ^^ Suc (length ts)) ?hc"
      by (simp add: funpow_swap1 del: fail_standing.simps)
    then show ?thesis using Cons.IH [of "record_failure now nid m"] Cons.prems(1) False one by (simp del: fail_standing.simps funpow.simps)
  qed
qed simp

lemma fail_standing_run:
  assumes "1 < unat T" "h = HAlive \<or> h = HJoining" "0 < n"
  shows "(fail_standing T ^^ n) (h, 0) = (if n < unat T then HSuspect else HDead, of_nat n)"
  using assms(3)
proof (induction n)
  case (Suc n)
  show ?case
  proof (cases "n = 0")
    case True
    then show ?thesis using assms by auto
  next
    case False
    have "T \<le> of_nat n + 1 \<longleftrightarrow> unat T \<le> Suc n" if "n < unat T"
    proof -
      have "Suc n < 2 ^ 32 \<or> unat T \<le> n" using that unsigned_less [of T, where ?'a = nat] by auto
      then have "unat (of_nat n + 1 :: u32) = Suc n"
        using that by (auto simp: unat_of_nat unat_word_ariths take_bit_nat_eq_self_iff)
      then show ?thesis by (simp add: word_le_nat_alt)
    qed
    then show ?thesis using Suc.IH False by (auto simp: add.commute)
  qed
qed simp

lemma three_failures:
  assumes "standing_ok 3 hc"
  shows "fst ((fail_standing 3 ^^ 3) hc) = HDead"
proof (cases hc)
  case (Pair h c)
  have "c = 1 \<or> c = 2" if "0 < c" "c < 3" for c :: u32
  proof -
    have "unat c = 1 \<or> unat c = 2" using that by (auto simp: word_less_nat_alt)
    then show ?thesis by (auto simp: word_unat_eq_iff)
  qed
  then have "h = HSuspect \<Longrightarrow> c = 1 \<or> c = 2" using assms Pair by (auto simp: standing_ok_def)
  then show ?thesis using assms Pair by (cases h) (auto simp: standing_ok_def numeral_3_eq_3)
qed

section \<open>Properties\<close>

text \<open>The health monitor gives a node in good standing up after exactly the configured number of consecutive
  failures: it routes to it after fewer, and to it no more from then on, however many failures follow
  (the 32-bit counter may wrap), until a success.\<close>
theorem threshold_failures_exclude:
  assumes "health_inv m" "1 < unat (hm_failure_threshold m)"
    and "case health_of m nid of Some (h, c) \<Rightarrow> h = HAlive \<or> h = HJoining | None \<Rightarrow> True" "ts \<noteq> []"
  shows "(health_is_alive (fold (\<lambda>now. record_failure now nid) ts m) nid \<longleftrightarrow> length ts < unat (hm_failure_threshold m))
         \<and> health_is_alive (health_mark_alive now nid (fold (\<lambda>now. record_failure now nid) ts m)) nid"
proof -
  obtain h where h: "(case health_of m nid of Some hc \<Rightarrow> hc | None \<Rightarrow> (HAlive, 0)) = (h, 0)" "h = HAlive \<or> h = HJoining"
    using assms(1,3) by (fastforce simp: health_inv_def standing_ok_def split: option.splits)
  have inv: "hm_invar (hm_nodes m)" using assms(1) by (simp add: health_inv_def)
  have inv': "hm_invar (hm_nodes (fold (\<lambda>now. record_failure now nid) ts m))"
    using inv by (induction ts arbitrary: m) simp_all
  show ?thesis
    using fold_record_failure [OF inv assms(4), of nid] fail_standing_run [OF assms(2) h(2), of "length ts"] assms(4) h(1)
    by (auto simp: is_alive_standing health_of_mark_alive [OF inv'])
qed

theorem threshold_failures_exclude_witness:
  "health_is_alive (fold (\<lambda>now. record_failure now (NodeId 7)) [1, 2] monitor_new) (NodeId 7)
   \<and> \<not> health_is_alive (fold (\<lambda>now. record_failure now (NodeId 7)) [1, 2, 3] monitor_new) (NodeId 7)"
proof -
  have "1 < unat (hm_failure_threshold monitor_new)" "health_of monitor_new (NodeId 7) = None" by code_simp+
  then show ?thesis
    using threshold_failures_exclude [OF health_inv_new, of "NodeId 7" "[1, 2]"]
      threshold_failures_exclude [OF health_inv_new, of "NodeId 7" "[1, 2, 3]"]
    by (simp add: monitor_new_def)
qed

end
