(* ===== verification/Replication.thy ===== *)
theory Replication
  imports Hash_Ring Health_Monitor
begin

text \<open>
  The replication coordinator of the router, \<^verbatim>\<open>crates/router/src/replication/coordinator.rs\<close>, with its
  configuration, \<^verbatim>\<open>config.rs\<close>, and the client pool, \<^verbatim>\<open>crates/router/src/client.rs\<close>. The gRPC client is third-party
  code and the nodes are other processes, so an RPC is a function of the address, the request and the
  state of the world, collected in the record \<open>network\<close>; the coordinator threads the world through its calls.

  What the coordinator needs of the nodes is the locale \<open>replica_net\<close>; it is interpreted on a cluster of the
  modelled node services in the theory \<open>Cluster\<close>.
\<close>

record 'w network =
  net_connect :: "addr \<Rightarrow> 'w \<Rightarrow> (status + unit) \<times> 'w"
  net_set :: "addr \<Rightarrow> set_request \<Rightarrow> 'w \<Rightarrow> (status + set_response) \<times> 'w"
  net_get :: "addr \<Rightarrow> bytes \<Rightarrow> 'w \<Rightarrow> (status + get_response) \<times> 'w"
  net_delete :: "addr \<Rightarrow> bytes \<Rightarrow> 'w \<Rightarrow> (status + delete_response) \<times> 'w"
  net_heartbeat :: "addr \<Rightarrow> 'w \<Rightarrow> (status + heartbeat_response) \<times> 'w"

text \<open>The pool's cached clients, by address, beside the world they talk to.\<close>
record 'w link =
  lk_pool :: "addr list"
  lk_world :: 'w

definition get_client :: "externs \<Rightarrow> 'w network \<Rightarrow> addr \<Rightarrow> 'w link \<Rightarrow> ((status + unit) \<times> 'w link) run" where
  "get_client ext net a k =
     (if a \<in> set (lk_pool k) then Inr (Inr (), k)
      else if \<not> uri_ok ext (''http://'' @ a) then Inl InvalidAddress
      else (case net_connect net a (lk_world k) of
              (Inl e, w) \<Rightarrow> Inr (Inl e, k\<lparr>lk_world := w\<rparr>)
            | (Inr _, w) \<Rightarrow> Inr (Inr (), k\<lparr>lk_world := w, lk_pool := a # lk_pool k\<rparr>)))"

section \<open>Choosing replicas\<close>

record replication_config =
  rc_replication_factor :: nat
  rc_max_retries :: nat

definition replication_default :: replication_config where
  "replication_default = \<lparr>rc_replication_factor = 3, rc_max_retries = 1\<rparr>"

text \<open>The loop over the candidates, with the nodes found so far.\<close>
fun take_alive :: "health_monitor \<Rightarrow> nat \<Rightarrow> node_info list \<Rightarrow> node_info list \<Rightarrow> node_info list" where
  "take_alive m rf [] acc = acc"
| "take_alive m rf (node # nodes) acc =
     (let acc' = (if health_is_alive m (ni_id node) then acc @ [node] else acc)
      in if rf \<le> length acc' then acc' else take_alive m rf nodes acc')"

definition alive_preference_list ::
    "externs \<Rightarrow> replication_config \<Rightarrow> hash_ring \<Rightarrow> health_monitor \<Rightarrow> bytes \<Rightarrow> node_info list" where
  "alive_preference_list ext cfg ring m key =
     take_alive m (rc_replication_factor cfg) (get_preference_list ext ring key (rc_replication_factor cfg + 2)) []"

section \<open>Writing\<close>

text \<open>The loop over attempts: what is left of it, and whether it succeeded.\<close>
fun set_attempts :: "externs \<Rightarrow> 'w network \<Rightarrow> addr \<Rightarrow> set_request \<Rightarrow> nat \<Rightarrow> 'w link \<Rightarrow> (bool \<times> 'w link) run" where
  "set_attempts ext net a req 0 k = Inr (False, k)"
| "set_attempts ext net a req (Suc n) k =
     and_then (get_client ext net a k) (\<lambda>(r, k1).
       case r of
         Inl e \<Rightarrow> set_attempts ext net a req n k1
       | Inr _ \<Rightarrow>
           (case net_set net a req (lk_world k1) of
              (Inr resp, w) \<Rightarrow> Inr (sresp_success resp, k1\<lparr>lk_world := w\<rparr>)
            | (Inl e, w) \<Rightarrow> set_attempts ext net a req n (k1\<lparr>lk_world := w\<rparr>)))"

fun set_nodes :: "externs \<Rightarrow> 'w network \<Rightarrow> nat \<Rightarrow> set_request \<Rightarrow> node_info list \<Rightarrow> 'w link \<Rightarrow> (bool list \<times> 'w link) run" where
  "set_nodes ext net retries req [] k = Inr ([], k)"
| "set_nodes ext net retries req (node # nodes) k =
     and_then (set_attempts ext net (ni_addr node) req retries k) (\<lambda>(success, k1).
       and_then (set_nodes ext net retries req nodes k1) (\<lambda>(results, k2). Inr (success # results, k2)))"

definition coordinator_set ::
    "externs \<Rightarrow> 'w network \<Rightarrow> replication_config \<Rightarrow> hash_ring \<Rightarrow> health_monitor \<Rightarrow> bytes \<Rightarrow> bytes \<Rightarrow> u64 option
     \<Rightarrow> 'w link \<Rightarrow> ((bytes + set_response) \<times> 'w link) run" where
  "coordinator_set ext net cfg ring m key val ttl_ms k =
     (let pref_list = alive_preference_list ext cfg ring m key in
      if pref_list = [] then Inr (Inl ''No alive nodes available for write'', k)
      else and_then (set_nodes ext net (rc_max_retries cfg) \<lparr>sr_key = key, sr_value = val, sr_ttl_ms = ttl_ms\<rparr> pref_list k)
             (\<lambda>(results, k'). Inr (if (case results of [] \<Rightarrow> False | r # _ \<Rightarrow> r)
                                   then Inr \<lparr>sresp_success = True\<rparr> else Inl ''Primary write failed'', k')))"

section \<open>Reading\<close>

text \<open>\<open>Some\<close> is the response \<^verbatim>\<open>get\<close> returns at once.\<close>
fun get_attempts :: "externs \<Rightarrow> 'w network \<Rightarrow> addr \<Rightarrow> bytes \<Rightarrow> nat \<Rightarrow> 'w link \<Rightarrow> (get_response option \<times> 'w link) run" where
  "get_attempts ext net a key 0 k = Inr (None, k)"
| "get_attempts ext net a key (Suc n) k =
     and_then (get_client ext net a k) (\<lambda>(r, k1).
       case r of
         Inl e \<Rightarrow> get_attempts ext net a key n k1
       | Inr _ \<Rightarrow>
           (case net_get net a key (lk_world k1) of
              (Inr resp, w) \<Rightarrow> Inr (if gr_found resp then Some resp else None, k1\<lparr>lk_world := w\<rparr>)
            | (Inl e, w) \<Rightarrow> get_attempts ext net a key n (k1\<lparr>lk_world := w\<rparr>)))"

fun get_nodes :: "externs \<Rightarrow> 'w network \<Rightarrow> nat \<Rightarrow> bytes \<Rightarrow> node_info list \<Rightarrow> 'w link \<Rightarrow> (get_response \<times> 'w link) run" where
  "get_nodes ext net retries key [] k = Inr (\<lparr>gr_value = None, gr_found = False\<rparr>, k)"
| "get_nodes ext net retries key (node # nodes) k =
     and_then (get_attempts ext net (ni_addr node) key retries k) (\<lambda>(r, k1).
       case r of Some resp \<Rightarrow> Inr (resp, k1) | None \<Rightarrow> get_nodes ext net retries key nodes k1)"

definition coordinator_get ::
    "externs \<Rightarrow> 'w network \<Rightarrow> replication_config \<Rightarrow> hash_ring \<Rightarrow> health_monitor \<Rightarrow> bytes
     \<Rightarrow> 'w link \<Rightarrow> ((bytes + get_response) \<times> 'w link) run" where
  "coordinator_get ext net cfg ring m key k =
     (let pref_list = alive_preference_list ext cfg ring m key in
      if pref_list = [] then Inr (Inl ''No alive nodes available for read'', k)
      else and_then (get_nodes ext net (rc_max_retries cfg) key pref_list k) (\<lambda>(resp, k'). Inr (Inr resp, k')))"

section \<open>Deleting\<close>

fun delete_attempts :: "externs \<Rightarrow> 'w network \<Rightarrow> addr \<Rightarrow> bytes \<Rightarrow> nat \<Rightarrow> 'w link \<Rightarrow> (bool \<times> 'w link) run" where
  "delete_attempts ext net a key 0 k = Inr (False, k)"
| "delete_attempts ext net a key (Suc n) k =
     and_then (get_client ext net a k) (\<lambda>(r, k1).
       case r of
         Inl e \<Rightarrow> Inr (False, k1)
       | Inr _ \<Rightarrow>
           (case net_delete net a key (lk_world k1) of
              (Inr resp, w) \<Rightarrow> Inr (dr_deleted resp, k1\<lparr>lk_world := w\<rparr>)
            | (Inl e, w) \<Rightarrow> delete_attempts ext net a key n (k1\<lparr>lk_world := w\<rparr>)))"

fun delete_nodes :: "externs \<Rightarrow> 'w network \<Rightarrow> nat \<Rightarrow> bytes \<Rightarrow> node_info list \<Rightarrow> bool \<Rightarrow> 'w link \<Rightarrow> (bool \<times> 'w link) run" where
  "delete_nodes ext net retries key [] any_deleted k = Inr (any_deleted, k)"
| "delete_nodes ext net retries key (node # nodes) any_deleted k =
     and_then (delete_attempts ext net (ni_addr node) key retries k) (\<lambda>(deleted, k1).
       delete_nodes ext net retries key nodes (any_deleted \<or> deleted) k1)"

definition coordinator_delete ::
    "externs \<Rightarrow> 'w network \<Rightarrow> replication_config \<Rightarrow> hash_ring \<Rightarrow> health_monitor \<Rightarrow> bytes
     \<Rightarrow> 'w link \<Rightarrow> ((bytes + delete_response) \<times> 'w link) run" where
  "coordinator_delete ext net cfg ring m key k =
     (let pref_list = alive_preference_list ext cfg ring m key in
      if pref_list = [] then Inr (Inl ''No alive nodes available for delete'', k)
      else and_then (delete_nodes ext net (rc_max_retries cfg) key pref_list False k)
             (\<lambda>(any_deleted, k'). Inr (Inr \<lparr>dr_deleted = any_deleted\<rparr>, k')))"

section \<open>The replicas chosen\<close>

lemma take_alive_take:
  assumes "length acc < max 1 rf"
  shows "take_alive m rf nodes acc
    = (if rf = 0 then acc @ filter (\<lambda>n. health_is_alive m (ni_id n)) (take 1 nodes)
       else acc @ take (rf - length acc) (filter (\<lambda>n. health_is_alive m (ni_id n)) nodes))"
  using assms
proof (induction nodes arbitrary: acc)
  case (Cons node nodes)
  show ?case
  proof (cases "rf \<le> length (if health_is_alive m (ni_id node) then acc @ [node] else acc)")
    case True
    then show ?thesis using Cons.prems by (auto simp: Let_def take_Cons' split: if_splits)
  next
    case False
    then show ?thesis
      using Cons.IH [of "if health_is_alive m (ni_id node) then acc @ [node] else acc"] Cons.prems
      by (auto simp: Let_def Suc_diff_le take_Cons')
  qed
qed simp

lemma alive_preference_list_take:
  assumes "0 < rc_replication_factor cfg"
  shows "alive_preference_list ext cfg ring m key =
    take (rc_replication_factor cfg)
      (filter (\<lambda>n. health_is_alive m (ni_id n)) (get_preference_list ext ring key (rc_replication_factor cfg + 2)))"
  using assms by (simp add: alive_preference_list_def take_alive_take)

text \<open>When nodes are given up or removed from the ring, the survivors of a replica set stay the first choices.\<close>
lemma alive_preference_list_removed:
  assumes "ring_inv ring" "0 < rc_replication_factor cfg" "\<And>nid. health_is_alive m' nid \<Longrightarrow> health_is_alive m nid"
  shows "\<exists>spare. alive_preference_list ext cfg (fold remove_node gone ring) m' key =
           filter (\<lambda>n. health_is_alive m' (ni_id n) \<and> ni_id n \<notin> set gone) (alive_preference_list ext cfg ring m key) @ spare"
proof -
  let ?rf = "rc_replication_factor cfg" and ?c = "clockwise_nodes ext ring key"
  let ?up = "\<lambda>n. health_is_alive m (ni_id n)" and ?up' = "\<lambda>n. health_is_alive m' (ni_id n)" and ?in = "\<lambda>n. ni_id n \<notin> set gone"
  let ?keep = "\<lambda>n. ?up' n \<and> ?in n"
  have prefix: "\<exists>zs. take n (filter P xs) = filter P (take n xs) @ zs" for n P and xs :: "node_info list"
  proof -
    have "filter P xs = filter P (take n xs) @ filter P (drop n xs)" by (metis append_take_drop_id filter_append)
    moreover have "length (filter P (take n xs)) \<le> n" by (rule order.trans [OF length_filter_le]) simp
    ultimately show ?thesis by (metis take_all take_append)
  qed
  have pref: "get_preference_list ext (fold remove_node gone ring) key (?rf + 2) = take (?rf + 2) (filter ?in ?c)"
    "get_preference_list ext ring key (?rf + 2) = take (?rf + 2) ?c"
    using assms(1) by (simp_all add: preference_list_take ring_inv_removes clockwise_nodes_removes)
  have keep: "filter ?up' (filter ?in xs) = filter ?keep (filter ?up xs)" for xs
    unfolding filter_filter using assms(3) by (intro filter_cong) auto
  obtain zs where "take (?rf + 2) (filter ?in ?c) = filter ?in (take (?rf + 2) ?c) @ zs" using prefix by blast
  then have "filter ?up' (take (?rf + 2) (filter ?in ?c)) = filter ?keep (filter ?up (take (?rf + 2) ?c)) @ filter ?up' zs"
    by (simp only: filter_append keep)
  moreover have "filter ?keep (filter ?up (take (?rf + 2) ?c))
      = filter ?keep (take ?rf (filter ?up (take (?rf + 2) ?c))) @ filter ?keep (drop ?rf (filter ?up (take (?rf + 2) ?c)))"
    by (simp only: filter_append [symmetric] append_take_drop_id)
  ultimately have whole: "filter ?up' (take (?rf + 2) (filter ?in ?c))
      = filter ?keep (take ?rf (filter ?up (take (?rf + 2) ?c))) @ filter ?keep (drop ?rf (filter ?up (take (?rf + 2) ?c))) @ filter ?up' zs"
    by (simp only: append_assoc)
  have "length (filter ?keep (take ?rf (filter ?up (take (?rf + 2) ?c)))) \<le> ?rf"
    by (rule order.trans [OF length_filter_le]) simp
  then show ?thesis
    by (simp only: alive_preference_list_take [OF assms(2)] pref whole take_append) auto
qed

section \<open>What the coordinator relies on, and what it gives\<close>

text \<open>
  \<open>reach\<close>: the address answers; \<open>accepts\<close>: the node there is not joining; \<open>holds\<close>: what a read of a key
  would return there. Connecting and failed calls leave the world as it is.
\<close>
locale replica_net =
  fixes net :: "'w network"
    and wf :: "'w \<Rightarrow> bool"
    and reach :: "'w \<Rightarrow> addr \<Rightarrow> bool"
    and accepts :: "'w \<Rightarrow> addr \<Rightarrow> bool"
    and holds :: "'w \<Rightarrow> addr \<Rightarrow> bytes \<Rightarrow> bytes option"
  assumes connect: "\<exists>r. net_connect net a w = (r, w) \<and> ((\<exists>u. r = Inr u) \<longleftrightarrow> reach w a)"
    and set_down: "wf w \<Longrightarrow> \<not> (reach w a \<and> accepts w a) \<Longrightarrow> \<exists>e. net_set net a req w = (Inl e, w)"
    and set_up: "wf w \<Longrightarrow> reach w a \<Longrightarrow> accepts w a \<Longrightarrow> sr_ttl_ms req \<noteq> Some 0 \<Longrightarrow>
       \<exists>w'. net_set net a req w = (Inr \<lparr>sresp_success = True\<rparr>, w') \<and> wf w' \<and> reach w' = reach w \<and> accepts w' = accepts w
            \<and> holds w' = (\<lambda>b k. if b = a \<and> k = sr_key req then Some (sr_value req) else holds w b k)"
    and get_down: "wf w \<Longrightarrow> \<not> reach w a \<Longrightarrow> \<exists>e. net_get net a key w = (Inl e, w)"
    and get_up: "wf w \<Longrightarrow> reach w a \<Longrightarrow>
       \<exists>w'. net_get net a key w = (Inr \<lparr>gr_value = holds w a key, gr_found = (holds w a key \<noteq> None)\<rparr>, w')
            \<and> wf w' \<and> reach w' = reach w \<and> accepts w' = accepts w \<and> holds w' = holds w"
    and delete_down: "wf w \<Longrightarrow> \<not> reach w a \<Longrightarrow> \<exists>e. net_delete net a key w = (Inl e, w)"
    and delete_up: "wf w \<Longrightarrow> reach w a \<Longrightarrow>
       \<exists>r w'. net_delete net a key w = (r, w') \<and> wf w' \<and> reach w' = reach w \<and> accepts w' = accepts w
            \<and> holds w' = (\<lambda>b k. if b = a \<and> k = key then None else holds w b k)"
begin

lemma client:
  assumes "uri_ok ext (''http://'' @ a)"
  shows "\<exists>r pool. get_client ext net a k = Inr (r, k\<lparr>lk_pool := pool\<rparr>) \<and> (reach (lk_world k) a \<longrightarrow> r = Inr ())"
proof (cases "a \<in> set (lk_pool k)")
  case True
  then show ?thesis by (auto simp: get_client_def intro!: exI [of _ "lk_pool k"])
next
  case False
  obtain r where r: "net_connect net a (lk_world k) = (r, lk_world k)" "(\<exists>u. r = Inr u) \<longleftrightarrow> reach (lk_world k) a"
    using connect by blast
  show ?thesis
  proof (cases r)
    case (Inl e)
    then show ?thesis using r False assms by (auto simp: get_client_def intro!: exI [of _ "lk_pool k"])
  next
    case (Inr u)
    then show ?thesis using r False assms by (auto simp: get_client_def intro!: exI [of _ "a # lk_pool k"])
  qed
qed

lemma set_attempts_down:
  assumes "wf (lk_world k)" "uri_ok ext (''http://'' @ a)" "\<not> (reach (lk_world k) a \<and> accepts (lk_world k) a)"
  shows "\<exists>pool. set_attempts ext net a req n k = Inr (False, k\<lparr>lk_pool := pool\<rparr>)"
  using assms
proof (induction n arbitrary: k)
  case 0
  then show ?case by (auto intro!: exI [of _ "lk_pool k"])
next
  case (Suc n)
  obtain r pool where c: "get_client ext net a k = Inr (r, k\<lparr>lk_pool := pool\<rparr>)" using client [OF Suc.prems(2)] by blast
  obtain e where e: "net_set net a req (lk_world k) = (Inl e, lk_world k)" using set_down Suc.prems by blast
  have "(k\<lparr>lk_pool := pool\<rparr>)\<lparr>lk_world := lk_world k\<rparr> = k\<lparr>lk_pool := pool\<rparr>" by simp
  then show ?case using Suc.IH [of "k\<lparr>lk_pool := pool\<rparr>"] Suc.prems c e by (cases r) auto
qed

lemma set_attempts_up:
  assumes "wf (lk_world k)" "uri_ok ext (''http://'' @ a)" "reach (lk_world k) a" "accepts (lk_world k) a" "sr_ttl_ms req \<noteq> Some 0"
  shows "\<exists>k'. set_attempts ext net a req (Suc n) k = Inr (True, k') \<and> wf (lk_world k')
     \<and> reach (lk_world k') = reach (lk_world k) \<and> accepts (lk_world k') = accepts (lk_world k)
     \<and> holds (lk_world k') = (\<lambda>b key. if b = a \<and> key = sr_key req then Some (sr_value req) else holds (lk_world k) b key)"
  using client [OF assms(2), of k] set_up [OF assms(1,3,4,5)] assms(3) by auto

text \<open>A write goes to every listed replica that answers and is not joining, and reports which did.\<close>
lemma set_nodes_spec:
  assumes "wf (lk_world k)" "\<forall>node\<in>set nodes. uri_ok ext (''http://'' @ ni_addr node)" "sr_ttl_ms req \<noteq> Some 0"
  shows "\<exists>k'. set_nodes ext net (Suc n) req nodes k
        = Inr (map (\<lambda>node. reach (lk_world k) (ni_addr node) \<and> accepts (lk_world k) (ni_addr node)) nodes, k')
     \<and> wf (lk_world k') \<and> reach (lk_world k') = reach (lk_world k) \<and> accepts (lk_world k') = accepts (lk_world k)
     \<and> holds (lk_world k') = (\<lambda>b key. if b \<in> ni_addr ` set nodes \<and> reach (lk_world k) b \<and> accepts (lk_world k) b \<and> key = sr_key req
                                      then Some (sr_value req) else holds (lk_world k) b key)"
  using assms
proof (induction nodes arbitrary: k)
  case (Cons node nodes)
  let ?a = "ni_addr node"
  let ?ok = "\<lambda>w a. reach w a \<and> accepts w a"
  have uri: "uri_ok ext (''http://'' @ ?a)" using Cons.prems(2) by simp
  obtain k1 where k1: "set_attempts ext net ?a req (Suc n) k = Inr (?ok (lk_world k) ?a, k1)" "wf (lk_world k1)"
    "reach (lk_world k1) = reach (lk_world k)" "accepts (lk_world k1) = accepts (lk_world k)"
    "holds (lk_world k1) = (\<lambda>b key. if ?ok (lk_world k) ?a \<and> b = ?a \<and> key = sr_key req then Some (sr_value req) else holds (lk_world k) b key)"
  proof (cases "?ok (lk_world k) ?a")
    case True
    then show ?thesis using that set_attempts_up [OF Cons.prems(1) uri _ _ Cons.prems(3), of n] by auto
  next
    case False
    obtain pool where "set_attempts ext net ?a req (Suc n) k = Inr (False, k\<lparr>lk_pool := pool\<rparr>)"
      using set_attempts_down [OF Cons.prems(1) uri False] by blast
    then show ?thesis using that [of "k\<lparr>lk_pool := pool\<rparr>"] False Cons.prems(1) by auto
  qed
  obtain k2 where k2: "set_nodes ext net (Suc n) req nodes k1 = Inr (map (\<lambda>node. ?ok (lk_world k) (ni_addr node)) nodes, k2)"
    "wf (lk_world k2)" "reach (lk_world k2) = reach (lk_world k)" "accepts (lk_world k2) = accepts (lk_world k)"
    "holds (lk_world k2) = (\<lambda>b key. if b \<in> ni_addr ` set nodes \<and> reach (lk_world k) b \<and> accepts (lk_world k) b \<and> key = sr_key req
                                      then Some (sr_value req) else holds (lk_world k1) b key)"
    using Cons.IH [OF k1(2) _ Cons.prems(3)] Cons.prems(2) by (auto simp: k1(3,4))
  show ?case
    by (rule exI [of _ k2]) (auto simp: k1(1) k2 k1(5) fun_eq_iff simp del: set_attempts.simps)
qed simp

lemma get_attempts_down:
  assumes "wf (lk_world k)" "uri_ok ext (''http://'' @ a)" "\<not> reach (lk_world k) a"
  shows "\<exists>pool. get_attempts ext net a key n k = Inr (None, k\<lparr>lk_pool := pool\<rparr>)"
  using assms
proof (induction n arbitrary: k)
  case 0
  then show ?case by (auto intro!: exI [of _ "lk_pool k"])
next
  case (Suc n)
  obtain r pool where c: "get_client ext net a k = Inr (r, k\<lparr>lk_pool := pool\<rparr>)" using client [OF Suc.prems(2)] by blast
  obtain e where e: "net_get net a key (lk_world k) = (Inl e, lk_world k)" using get_down Suc.prems by blast
  have "(k\<lparr>lk_pool := pool\<rparr>)\<lparr>lk_world := lk_world k\<rparr> = k\<lparr>lk_pool := pool\<rparr>" by simp
  then show ?case using Suc.IH [of "k\<lparr>lk_pool := pool\<rparr>"] Suc.prems c e by (cases r) auto
qed

definition answers :: "'w \<Rightarrow> bytes \<Rightarrow> node_info list \<Rightarrow> bytes list" where
  "answers w key nodes = List.map_filter (\<lambda>node. if reach w (ni_addr node) then holds w (ni_addr node) key else None) nodes"

text \<open>A read returns the first answer in preference order among the replicas that can be reached.\<close>
lemma get_nodes_spec:
  assumes "wf (lk_world k)" "\<forall>node\<in>set nodes. uri_ok ext (''http://'' @ ni_addr node)"
  shows "\<exists>k'. get_nodes ext net (Suc n) key nodes k
        = Inr (case answers (lk_world k) key nodes of [] \<Rightarrow> \<lparr>gr_value = None, gr_found = False\<rparr>
               | v # _ \<Rightarrow> \<lparr>gr_value = Some v, gr_found = True\<rparr>, k')
     \<and> wf (lk_world k') \<and> reach (lk_world k') = reach (lk_world k) \<and> accepts (lk_world k') = accepts (lk_world k)
     \<and> holds (lk_world k') = holds (lk_world k)"
  using assms
proof (induction nodes arbitrary: k)
  case Nil
  then show ?case by (simp add: answers_def map_filter_simps)
next
  case (Cons node nodes)
  let ?a = "ni_addr node"
  have uri: "uri_ok ext (''http://'' @ ?a)" using Cons.prems(2) by simp
  let ?hit = "if reach (lk_world k) ?a then holds (lk_world k) ?a key else None"
  obtain k1 where k1: "get_attempts ext net ?a key (Suc n) k
        = Inr (map_option (\<lambda>v. \<lparr>gr_value = Some v, gr_found = True\<rparr>) ?hit, k1)" "wf (lk_world k1)"
    "reach (lk_world k1) = reach (lk_world k)" "accepts (lk_world k1) = accepts (lk_world k)" "holds (lk_world k1) = holds (lk_world k)"
  proof (cases "reach (lk_world k) ?a")
    case True
    then show ?thesis
      using that client [OF uri, of k] get_up [OF Cons.prems(1) True, of key] by (cases "holds (lk_world k) ?a key") auto
  next
    case False
    obtain pool where "get_attempts ext net ?a key (Suc n) k = Inr (None, k\<lparr>lk_pool := pool\<rparr>)"
      using get_attempts_down [OF Cons.prems(1) uri False] by blast
    then show ?thesis using that [of "k\<lparr>lk_pool := pool\<rparr>"] False Cons.prems(1) by auto
  qed
  have same: "answers (lk_world k1) key nodes = answers (lk_world k) key nodes" by (simp only: answers_def k1(3,5))
  show ?case
  proof (cases ?hit)
    case None
    obtain k2 where "get_nodes ext net (Suc n) key nodes k1
        = Inr (case answers (lk_world k) key nodes of [] \<Rightarrow> \<lparr>gr_value = None, gr_found = False\<rparr>
               | v # _ \<Rightarrow> \<lparr>gr_value = Some v, gr_found = True\<rparr>, k2)"
      "wf (lk_world k2)" "reach (lk_world k2) = reach (lk_world k)" "accepts (lk_world k2) = accepts (lk_world k)"
      "holds (lk_world k2) = holds (lk_world k)"
      using Cons.IH [OF k1(2)] Cons.prems(2) by (auto simp: k1(3-5) same)
    then show ?thesis
      using k1(1) None by (auto simp: answers_def map_filter_simps simp del: get_attempts.simps split: if_splits)
  next
    case (Some v)
    then show ?thesis
      using k1 by (auto simp: answers_def map_filter_simps simp del: get_attempts.simps split: if_splits)
  qed
qed

lemma delete_attempts_down:
  assumes "wf (lk_world k)" "uri_ok ext (''http://'' @ a)" "\<not> reach (lk_world k) a"
  shows "\<exists>pool. delete_attempts ext net a key n k = Inr (False, k\<lparr>lk_pool := pool\<rparr>)"
  using assms
proof (induction n arbitrary: k)
  case 0
  then show ?case by (auto intro!: exI [of _ "lk_pool k"])
next
  case (Suc n)
  obtain r pool where c: "get_client ext net a k = Inr (r, k\<lparr>lk_pool := pool\<rparr>)" using client [OF Suc.prems(2)] by blast
  obtain e where e: "net_delete net a key (lk_world k) = (Inl e, lk_world k)" using delete_down Suc.prems by blast
  have "(k\<lparr>lk_pool := pool\<rparr>)\<lparr>lk_world := lk_world k\<rparr> = k\<lparr>lk_pool := pool\<rparr>" by simp
  then show ?case using Suc.IH [of "k\<lparr>lk_pool := pool\<rparr>"] Suc.prems c e by (cases r) auto
qed

lemma delete_attempts_up:
  assumes "wf (lk_world k)" "uri_ok ext (''http://'' @ a)" "reach (lk_world k) a"
  shows "\<exists>b k'. delete_attempts ext net a key (Suc n) k = Inr (b, k') \<and> wf (lk_world k')
     \<and> reach (lk_world k') = reach (lk_world k) \<and> accepts (lk_world k') = accepts (lk_world k)
     \<and> holds (lk_world k') = (\<lambda>b k''. if b = a \<and> k'' = key then None else holds (lk_world k) b k'')"
  using assms
proof (induction n arbitrary: k)
  case 0
  then show ?case using client [OF 0(2), of k] delete_up [OF 0(1,3), of key] by (auto split: sum.split)
next
  case (Suc n)
  obtain pool where c: "get_client ext net a k = Inr (Inr (), k\<lparr>lk_pool := pool\<rparr>)"
    using client [OF Suc.prems(2), of k] Suc.prems(3) by auto
  obtain r w where w: "net_delete net a key (lk_world k) = (r, w)" "wf w" "reach w = reach (lk_world k)" "accepts w = accepts (lk_world k)"
    "holds w = (\<lambda>b k'. if b = a \<and> k' = key then None else holds (lk_world k) b k')"
    using delete_up [OF Suc.prems(1,3), of key] by blast
  show ?case
  proof (cases r)
    case (Inl e)
    then show ?thesis
      using Suc.IH [of "k\<lparr>lk_pool := pool, lk_world := w\<rparr>"] Suc.prems c w
      by (subst delete_attempts.simps) (auto simp: fun_eq_iff simp del: delete_attempts.simps)
  next
    case (Inr resp)
    then show ?thesis using c w by auto
  qed
qed

text \<open>A delete removes the key from every listed replica that can be reached, and from no other.\<close>
lemma delete_nodes_spec:
  assumes "wf (lk_world k)" "\<forall>node\<in>set nodes. uri_ok ext (''http://'' @ ni_addr node)"
  shows "\<exists>b k'. delete_nodes ext net (Suc n) key nodes any k = Inr (b, k')
     \<and> wf (lk_world k') \<and> reach (lk_world k') = reach (lk_world k) \<and> accepts (lk_world k') = accepts (lk_world k)
     \<and> holds (lk_world k') = (\<lambda>b k''. if b \<in> ni_addr ` set nodes \<and> reach (lk_world k) b \<and> k'' = key then None else holds (lk_world k) b k'')"
  using assms
proof (induction nodes arbitrary: any k)
  case (Cons node nodes)
  let ?a = "ni_addr node"
  have uri: "uri_ok ext (''http://'' @ ?a)" using Cons.prems(2) by simp
  obtain d k1 where k1: "delete_attempts ext net ?a key (Suc n) k = Inr (d, k1)" "wf (lk_world k1)"
    "reach (lk_world k1) = reach (lk_world k)" "accepts (lk_world k1) = accepts (lk_world k)"
    "holds (lk_world k1) = (\<lambda>b k''. if reach (lk_world k) ?a \<and> b = ?a \<and> k'' = key then None else holds (lk_world k) b k'')"
  proof (cases "reach (lk_world k) ?a")
    case True
    then show ?thesis using that delete_attempts_up [OF Cons.prems(1) uri True, of key n] by auto
  next
    case False
    obtain pool where "delete_attempts ext net ?a key (Suc n) k = Inr (False, k\<lparr>lk_pool := pool\<rparr>)"
      using delete_attempts_down [OF Cons.prems(1) uri False] by blast
    then show ?thesis using that [of False "k\<lparr>lk_pool := pool\<rparr>"] False Cons.prems(1) by auto
  qed
  have "\<exists>b k2. delete_nodes ext net (Suc n) key nodes (any \<or> d) k1 = Inr (b, k2)
     \<and> wf (lk_world k2) \<and> reach (lk_world k2) = reach (lk_world k) \<and> accepts (lk_world k2) = accepts (lk_world k)
     \<and> holds (lk_world k2) = (\<lambda>b k''. if b \<in> ni_addr ` set nodes \<and> reach (lk_world k) b \<and> k'' = key then None else holds (lk_world k1) b k'')"
    using Cons.IH [OF k1(2), of "any \<or> d"] Cons.prems(2) by (simp add: k1(3,4))
  then show ?case
    using k1(1,5) by (auto simp: fun_eq_iff simp del: delete_attempts.simps)
qed simp

end

end
