(* ===== verification/Router.thy ===== *)
theory Router
  imports Replication Node_Service
begin

text \<open>
  The router process: \<^verbatim>\<open>crates/router/src/router.rs\<close>, its gRPC service \<^verbatim>\<open>grpc/service.rs\<close>, the health checker loop
  of \<^verbatim>\<open>health/mod.rs\<close>, the passive gossip client \<^verbatim>\<open>gossip/mod.rs\<close>, the cluster configuration \<^verbatim>\<open>membership/mod.rs\<close>
  and the way \<^verbatim>\<open>main.rs\<close> builds the ring. The world the router talks to is again a \<open>network\<close>. Shown
  here: whatever gossip arrives, the ring stays well formed and lists every node once.
\<close>

section \<open>Start-up\<close>

record node_config_entry =
  nc_id :: bytes
  nc_addr :: addr

fun to_node_infos :: "externs \<Rightarrow> node_config_entry list \<Rightarrow> node_info list run" where
  "to_node_infos ext [] = Inr []"
| "to_node_infos ext (n # ns) =
     (case parse_node_id ext (nc_id n) of
        None \<Rightarrow> Inl InvalidUuid
      | Some nid \<Rightarrow> and_then (to_node_infos ext ns) (\<lambda>infos. Inr (\<lparr>ni_id = nid, ni_addr = nc_addr n\<rparr> # infos)))"

definition build_ring :: "externs \<Rightarrow> node_info list \<Rightarrow> hash_ring" where
  "build_ring ext members = fold (add_node ext) members ring_new"

section \<open>Routing\<close>

record router =
  rt_ring :: hash_ring
  rt_health :: health_monitor
  rt_config :: replication_config

text \<open>\<^verbatim>\<open>Box<dyn Error>\<close>: a message of the router's own, or the error of a connection or an RPC.\<close>
datatype router_error = RouterMsg bytes | RpcError status

definition resolve_addr :: "router \<Rightarrow> node_id option \<Rightarrow> bytes + addr" where
  "resolve_addr rt target =
     (case target of
        Some nid \<Rightarrow>
          (case List.find (\<lambda>n. ni_id n = nid) (hr_nodes (rt_ring rt)) of
             Some node \<Rightarrow> Inr (ni_addr node)
           | None \<Rightarrow> Inl ''target node not found in ring'')
      | None \<Rightarrow> Inl ''resolve_addr called without target'')"

text \<open>The direct path of the three operations: resolve, connect, call; every error is passed on.\<close>
definition direct_call ::
    "externs \<Rightarrow> 'w network \<Rightarrow> router \<Rightarrow> node_id option \<Rightarrow> (addr \<Rightarrow> 'w \<Rightarrow> (status + 'r) \<times> 'w) \<Rightarrow> 'w link
     \<Rightarrow> ((router_error + 'r) \<times> 'w link) run" where
  "direct_call ext net rt target rpc k =
     (case resolve_addr rt target of
        Inl e \<Rightarrow> Inr (Inl (RouterMsg e), k)
      | Inr a \<Rightarrow>
          and_then (get_client ext net a k) (\<lambda>(c, k1).
            case c of
              Inl e \<Rightarrow> Inr (Inl (RpcError e), k1)
            | Inr _ \<Rightarrow>
                (case rpc a (lk_world k1) of
                   (Inl e, w) \<Rightarrow> Inr (Inl (RpcError e), k1\<lparr>lk_world := w\<rparr>)
                 | (Inr resp, w) \<Rightarrow> Inr (Inr resp, k1\<lparr>lk_world := w\<rparr>))))"

definition lift_msg :: "((bytes + 'r) \<times> 'w link) run \<Rightarrow> ((router_error + 'r) \<times> 'w link) run" where
  "lift_msg x = and_then x (\<lambda>(r, k). Inr (map_sum RouterMsg id r, k))"

definition router_set ::
    "externs \<Rightarrow> 'w network \<Rightarrow> router \<Rightarrow> bytes \<Rightarrow> bytes \<Rightarrow> u64 option \<Rightarrow> node_id option \<Rightarrow> 'w link
     \<Rightarrow> ((router_error + set_response) \<times> 'w link) run" where
  "router_set ext net rt key val ttl_ms target k =
     (if target \<noteq> None
      then direct_call ext net rt target (\<lambda>a. net_set net a \<lparr>sr_key = key, sr_value = val, sr_ttl_ms = ttl_ms\<rparr>) k
      else lift_msg (coordinator_set ext net (rt_config rt) (rt_ring rt) (rt_health rt) key val ttl_ms k))"

definition router_get ::
    "externs \<Rightarrow> 'w network \<Rightarrow> router \<Rightarrow> bytes \<Rightarrow> node_id option \<Rightarrow> 'w link
     \<Rightarrow> ((router_error + get_response) \<times> 'w link) run" where
  "router_get ext net rt key target k =
     (if target \<noteq> None then direct_call ext net rt target (\<lambda>a. net_get net a key) k
      else lift_msg (coordinator_get ext net (rt_config rt) (rt_ring rt) (rt_health rt) key k))"

definition router_delete ::
    "externs \<Rightarrow> 'w network \<Rightarrow> router \<Rightarrow> bytes \<Rightarrow> node_id option \<Rightarrow> 'w link
     \<Rightarrow> ((router_error + delete_response) \<times> 'w link) run" where
  "router_delete ext net rt key target k =
     (if target \<noteq> None then direct_call ext net rt target (\<lambda>a. net_delete net a key) k
      else lift_msg (coordinator_delete ext net (rt_config rt) (rt_ring rt) (rt_health rt) key k))"

section \<open>The router's service\<close>

text \<open>\<open>display\<close> prints a \<^verbatim>\<open>tonic::Status\<close> or transport error.\<close>
fun show_error :: "(status \<Rightarrow> bytes) \<Rightarrow> router_error \<Rightarrow> bytes" where
  "show_error display (RouterMsg m) = m"
| "show_error display (RpcError s) = display s"

definition answer_call :: "(status \<Rightarrow> bytes) \<Rightarrow> bytes \<Rightarrow> ((router_error + 'r) \<times> 'w link) run \<Rightarrow> ((status + 'r) \<times> 'w link) run" where
  "answer_call display prefix_text x =
     and_then x (\<lambda>(r, k). Inr (case r of Inr resp \<Rightarrow> Inr resp
                                       | Inl e \<Rightarrow> Inl (Status Internal (prefix_text @ show_error display e)), k))"

definition service_set ::
    "externs \<Rightarrow> (status \<Rightarrow> bytes) \<Rightarrow> 'w network \<Rightarrow> router \<Rightarrow> set_request \<Rightarrow> 'w link \<Rightarrow> ((status + set_response) \<times> 'w link) run" where
  "service_set ext display net rt req k =
     answer_call display ''router set failed: '' (router_set ext net rt (sr_key req) (sr_value req) (sr_ttl_ms req) None k)"

definition service_get ::
    "externs \<Rightarrow> (status \<Rightarrow> bytes) \<Rightarrow> 'w network \<Rightarrow> router \<Rightarrow> bytes \<Rightarrow> 'w link \<Rightarrow> ((status + get_response) \<times> 'w link) run" where
  "service_get ext display net rt key k = answer_call display ''router get failed: '' (router_get ext net rt key None k)"

definition service_delete ::
    "externs \<Rightarrow> (status \<Rightarrow> bytes) \<Rightarrow> 'w network \<Rightarrow> router \<Rightarrow> bytes \<Rightarrow> 'w link \<Rightarrow> ((status + delete_response) \<times> 'w link) run" where
  "service_delete ext display net rt key k = answer_call display ''router delete failed: '' (router_delete ext net rt key None k)"

definition service_heartbeat :: "status + heartbeat_response" where
  "service_heartbeat = Inr \<lparr>hr_ok = True\<rparr>"

definition service_replicate_write :: "replicate_request \<Rightarrow> status + replicate_response" where
  "service_replicate_write req = Inl (Status Unimplemented ''replicate_write not supported on router'')"

definition service_transfer_keys :: "status + transfer_chunk list" where
  "service_transfer_keys = Inl (Status Unimplemented ''transfer_keys not supported on router'')"

section \<open>The health checker\<close>

definition probe_node ::
    "externs \<Rightarrow> 'w network \<Rightarrow> instant \<Rightarrow> node_id \<times> addr \<Rightarrow> health_monitor \<times> 'w link \<Rightarrow> (health_monitor \<times> 'w link) run" where
  "probe_node ext net now target mk =
     (case target of (nid, a) \<Rightarrow> case mk of (m, k) \<Rightarrow>
        and_then (get_client ext net a k) (\<lambda>(c, k1).
          case c of
            Inl e \<Rightarrow> Inr (record_failure now nid m, k1)
          | Inr _ \<Rightarrow>
              (case net_heartbeat net a (lk_world k1) of
                 (Inr _, w) \<Rightarrow> Inr (health_mark_alive now nid m, k1\<lparr>lk_world := w\<rparr>)
               | (Inl e, w) \<Rightarrow> Inr (record_failure now nid m, k1\<lparr>lk_world := w\<rparr>))))"

text \<open>One tick of the checker: every configured node in turn.\<close>
fun health_pass ::
    "externs \<Rightarrow> 'w network \<Rightarrow> instant \<Rightarrow> (node_id \<times> addr) list \<Rightarrow> health_monitor \<times> 'w link \<Rightarrow> (health_monitor \<times> 'w link) run" where
  "health_pass ext net now [] mk = Inr mk"
| "health_pass ext net now (target # targets) mk =
     and_then (probe_node ext net now target mk) (health_pass ext net now targets)"

section \<open>The gossip client\<close>

type_synonym membership_view = "hash_ring \<times> health_monitor"

definition apply_member :: "externs \<Rightarrow> instant \<Rightarrow> proto_member \<Rightarrow> membership_view \<Rightarrow> membership_view" where
  "apply_member ext now member rh =
     (case rh of (ring, m) \<Rightarrow>
        (case parse_node_id ext (pm_node_id member) of
           None \<Rightarrow> (ring, m)
         | Some nid \<Rightarrow>
             (case proto_status_try_from (pm_status member) of
                None \<Rightarrow> (ring, m)
              | Some ProtoAlive \<Rightarrow>
                  (if list_ex (\<lambda>n. ni_id n = nid) (hr_nodes ring) then ring
                   else add_node ext \<lparr>ni_id = nid, ni_addr = pm_addr member\<rparr> ring,
                   health_mark_alive now nid m)
              | Some ProtoJoining \<Rightarrow> (ring, health_mark_joining now nid m)
              | Some ProtoSuspect \<Rightarrow> (ring, record_failure now nid m)
              | Some ProtoDead \<Rightarrow>
                  (if list_ex (\<lambda>n. ni_id n = nid) (hr_nodes ring) then remove_node nid ring else ring,
                   record_failure now nid (record_failure now nid (record_failure now nid m))))))"

text \<open>The message the router sends: it has no members of its own.\<close>
definition router_gossip_request :: gossip_message where
  "router_gossip_request = \<lparr>gm_members = [], gm_sender_id = ''router''\<rparr>"

text \<open>\<open>response\<close>: what connecting to the address and calling \<^verbatim>\<open>GossipExchange\<close> gave.\<close>
definition exchange_gossip ::
    "externs \<Rightarrow> instant \<Rightarrow> status + gossip_message \<Rightarrow> membership_view \<Rightarrow> (status + unit) \<times> membership_view" where
  "exchange_gossip ext now response rh =
     (case response of
        Inl e \<Rightarrow> (Inl e, rh)
      | Inr msg \<Rightarrow> (Inr (), fold (apply_member ext now) (gm_members msg) rh))"

text \<open>One tick of \<^verbatim>\<open>run\<close>: \<open>targets\<close> are the one or two addresses the random generator picked.\<close>
definition router_gossip_tick ::
    "externs \<Rightarrow> instant \<Rightarrow> (addr \<Rightarrow> status + gossip_message) \<Rightarrow> addr list \<Rightarrow> membership_view \<Rightarrow> membership_view" where
  "router_gossip_tick ext now responses targets rh =
     fold (\<lambda>a rh. snd (exchange_gossip ext now (responses a) rh)) targets rh"

section \<open>The router's membership view\<close>

definition view_inv :: "membership_view \<Rightarrow> bool" where
  "view_inv rh \<longleftrightarrow> ring_inv (fst rh) \<and> distinct (map ni_id (hr_nodes (fst rh))) \<and> health_inv (snd rh)"

lemma add_node_fresh_distinct:
  "distinct (map ni_id (hr_nodes r)) \<Longrightarrow> \<not> contains_node r (ni_id info) \<Longrightarrow> distinct (map ni_id (hr_nodes (add_node ext info r)))"
  by (auto simp: add_node_def contains_node_conv)

lemma remove_node_distinct: "distinct (map ni_id (hr_nodes r)) \<Longrightarrow> distinct (map ni_id (hr_nodes (remove_node nid r)))"
  by (simp add: remove_node_def distinct_map_filter)

lemma view_inv_apply_member: "view_inv rh \<Longrightarrow> view_inv (apply_member ext now member rh)"
  by (cases rh)
    (auto simp: apply_member_def view_inv_def contains_node_def [symmetric] add_node_fresh_distinct remove_node_distinct
       intro: ring_inv_add_node ring_inv_remove_node health_inv_ops split: option.split proto_status.split)

lemma view_inv_members: "view_inv rh \<Longrightarrow> view_inv (fold (apply_member ext now) members rh)"
  by (induction members arbitrary: rh) (simp_all add: view_inv_apply_member)

lemma view_inv_tick: "view_inv rh \<Longrightarrow> view_inv (router_gossip_tick ext now responses targets rh)"
  unfolding router_gossip_tick_def
  by (induction targets arbitrary: rh) (auto simp: exchange_gossip_def view_inv_members split: sum.split)

lemma build_ring_nodes: "hr_nodes (fold (add_node ext) members r) = hr_nodes r @ members"
  by (induction members arbitrary: r) (simp_all add: add_node_def)

lemma ring_inv_adds [wf_intros]: "ring_inv r \<Longrightarrow> ring_inv (fold (add_node ext) members r)"
  by (induction members arbitrary: r) (simp_all add: ring_inv_add_node)

lemma view_inv_build: "distinct (map ni_id members) \<Longrightarrow> view_inv (build_ring ext members, monitor_new)"
  using ring_inv_adds [OF ring_inv_new(1)] health_inv_new
  by (simp add: view_inv_def build_ring_def build_ring_nodes) (simp add: ring_new_def)

lemma record_failure3:
  "record_failure t3 nid (record_failure t2 nid (record_failure t1 nid m)) = fold (\<lambda>now. record_failure now nid) [t1, t2, t3] m"
  by simp

lemma three_reports_kill:
  assumes "health_inv m" "hm_failure_threshold m = 3"
  shows "\<not> health_is_alive (fold (\<lambda>now. record_failure now nid) [t1, t2, t3] m) nid"
proof -
  let ?hc = "case health_of m nid of Some hc \<Rightarrow> hc | None \<Rightarrow> (HAlive, 0)"
  have "standing_ok 3 ?hc" using assms by (auto simp: health_inv_def standing_ok_def split: option.split)
  then have "fst ((fail_standing 3 ^^ length [t1, t2, t3]) ?hc) = HDead" using three_failures by (simp add: numeral_3_eq_3)
  then show ?thesis
    using fold_record_failure [of m "[t1, t2, t3]" nid] assms
    by (cases "(fail_standing 3 ^^ length [t1, t2, t3]) ?hc") (simp add: is_alive_standing health_inv_def del: fold_simps)
qed

lemma view_threshold: "hm_failure_threshold (snd (apply_member ext now member rh)) = hm_failure_threshold (snd rh)"
  by (cases rh) (simp add: apply_member_def split: option.split proto_status.split)

section \<open>Properties\<close>

text \<open>Whatever the nodes gossip, at whatever ticks, the router's ring stays well formed and lists every node at
  most once, so lookups and preference lists keep their guarantees; the health counters stay consistent.\<close>
theorem router_view_invariant:
  assumes "distinct (map ni_id members)"
  shows "case fold (\<lambda>(now, responses, targets). router_gossip_tick ext now responses targets) ticks (build_ring ext members, monitor_new) of
           (ring, m) \<Rightarrow> ring_inv ring \<and> distinct (map ni_id (hr_nodes ring)) \<and> health_inv m"
proof -
  have "view_inv rh \<Longrightarrow> view_inv (fold (\<lambda>(now, responses, targets). router_gossip_tick ext now responses targets) ticks rh)" for rh
  proof (induction ticks arbitrary: rh)
    case (Cons tick ticks)
    then show ?case by (cases tick) (simp add: view_inv_tick)
  qed simp
  from this [OF view_inv_build [OF assms, of ext]] show ?thesis by (auto simp: view_inv_def split: prod.split)
qed

theorem router_view_invariant_witness:
  "case fold (\<lambda>(now, responses, targets). router_gossip_tick demo_ext now responses targets)
          [(1, \<lambda>_. Inr \<lparr>gm_members = [\<lparr>pm_node_id = ''7'', pm_addr = ''n7'', pm_status = 0, pm_incarnation = 0, pm_last_seen_ms = 0\<rparr>],
                        gm_sender_id = ''7''\<rparr>, [''n7''])]
          (build_ring demo_ext [], monitor_new) of
     (ring, m) \<Rightarrow> ring_inv ring \<and> distinct (map ni_id (hr_nodes ring)) \<and> health_inv m"
  by (rule router_view_invariant) simp

text \<open>Once gossip reports a node dead, the router neither finds it by a ring lookup for any key nor considers it
  alive, with the default threshold.\<close>
theorem dead_report_removes_node:
  assumes "view_inv rh" "hm_failure_threshold (snd rh) = 3"
    and "parse_node_id ext (pm_node_id member) = Some nid" "pm_status member = 2"
    and "apply_member ext now member rh = (ring, m)"
  shows "\<not> contains_node ring nid \<and> \<not> health_is_alive m nid
         \<and> (\<forall>key n. nid \<notin> ni_id ` set (get_preference_list ext ring key n))
         \<and> (\<forall>key info. get_node ext ring key = Some info \<longrightarrow> ni_id info \<noteq> nid)"
proof -
  obtain ring0 m0 where rh: "rh = (ring0, m0)" by (cases rh)
  have m: "m = fold (\<lambda>now. record_failure now nid) [now, now, now] m0"
    and ring: "ring = (if contains_node ring0 nid then remove_node nid ring0 else ring0)"
    using assms(3-5) by (auto simp: rh apply_member_def proto_status_try_from_def contains_node_def)
  have inv: "ring_inv ring" using assms(1) by (auto simp: ring rh view_inv_def intro: ring_inv_remove_node)
  have gone: "\<not> contains_node ring nid" using not_contains_remove [of nid ring0] by (simp add: ring)
  have "\<not> health_is_alive m nid" unfolding m using assms(1,2) by (intro three_reports_kill) (simp_all add: rh view_inv_def)
  moreover have "nid \<notin> ni_id ` set (get_preference_list ext ring key n)" for key n
    using ring.prefs_members [OF inv, of ext key n] gone by (auto simp: contains_node_conv)
  moreover have "ni_id info \<noteq> nid" if "get_node ext ring key = Some info" for key info
    using ring.owner_member [OF inv that] gone by (auto simp: contains_node_conv)
  ultimately show ?thesis using gone by blast
qed

definition dead_report :: proto_member where
  "dead_report = \<lparr>pm_node_id = ''7'', pm_addr = ''n7'', pm_status = 2, pm_incarnation = 0, pm_last_seen_ms = 0\<rparr>"

theorem dead_report_removes_node_witness:
  "\<not> contains_node (fst (apply_member demo_ext 1 dead_report (ring_new, monitor_new))) (NodeId 7)
   \<and> \<not> health_is_alive (snd (apply_member demo_ext 1 dead_report (ring_new, monitor_new))) (NodeId 7)"
proof -
  have "view_inv (ring_new, monitor_new)"
    using ring_inv_new(1) health_inv_new by (simp add: view_inv_def) (simp add: ring_new_def)
  moreover have "parse_node_id demo_ext (pm_node_id dead_report) = Some (NodeId 7)" by code_simp
  ultimately show ?thesis
    using dead_report_removes_node [of "(ring_new, monitor_new)" demo_ext dead_report "NodeId 7" 1]
    by (cases "apply_member demo_ext 1 dead_report (ring_new, monitor_new)") (simp add: monitor_new_def dead_report_def)
qed

text \<open>Three gossip messages in a row that report a node suspect are enough for the router to stop routing to it:
  no node considers it dead, and it is still in the ring.\<close>
theorem three_suspect_reports_exclude:
  assumes "view_inv (ring, m)" "hm_failure_threshold m = 3"
    and "parse_node_id ext (pm_node_id member) = Some nid" "pm_status member = 1"
  shows "case fold (\<lambda>now. apply_member ext now member) [t1, t2, t3] (ring, m) of
           (ring', m') \<Rightarrow> ring' = ring \<and> \<not> health_is_alive m' nid"
proof -
  have one: "apply_member ext now member (r, h) = (r, record_failure now nid h)" for now r h
    using assms(3,4) by (simp add: apply_member_def proto_status_try_from_def)
  show ?thesis using three_reports_kill [of m nid t1 t2 t3] assms(1,2) by (simp add: one view_inv_def)
qed

theorem three_suspect_reports_exclude_witness:
  "case fold (\<lambda>now. apply_member demo_ext now (dead_report\<lparr>pm_status := 1\<rparr>)) [1, 2, 3] (ring_new, monitor_new) of
     (ring', m') \<Rightarrow> ring' = ring_new \<and> \<not> health_is_alive m' (NodeId 7)"
proof (rule three_suspect_reports_exclude)
  show "view_inv (ring_new, monitor_new)"
    using ring_inv_new(1) health_inv_new by (simp add: view_inv_def) (simp add: ring_new_def)
  show "parse_node_id demo_ext (pm_node_id (dead_report\<lparr>pm_status := 1\<rparr>)) = Some (NodeId 7)" by code_simp
qed (simp_all add: monitor_new_def)

end
