(* ===== verification/Cluster.thy ===== *)
theory Cluster
  imports Router
begin

text \<open>
  Router and nodes together: the network of the coordinator, instantiated with node services at
  addresses. A node that is down answers nothing; a node that is joining answers reads. The
  interpretation of \<open>replica_net\<close> on this network turns the coordinator's lemmas into statements about
  client-visible behaviour: reads after writes, under failures, after deletes.
\<close>

record cluster =
  cl_nodes :: "addr \<Rightarrow> node_state option"
  cl_up :: "addr \<Rightarrow> bool"
  cl_now :: instant

definition no_route :: status where
  "no_route = Status Transport ''transport error''"

text \<open>A call of a service method at an address; a panicking handler looks like a lost connection.\<close>
definition call_node :: "(node_state \<Rightarrow> ((status + 'r) \<times> node_state) run) \<Rightarrow> addr \<Rightarrow> cluster \<Rightarrow> (status + 'r) \<times> cluster" where
  "call_node f a c =
     (case cl_nodes c a of
        Some s \<Rightarrow>
          if cl_up c a then
            (case f s of
               Inr (r, s') \<Rightarrow> (r, c\<lparr>cl_nodes := (cl_nodes c)(a \<mapsto> s')\<rparr>)
             | Inl p \<Rightarrow> (Inl no_route, c))
          else (Inl no_route, c)
      | None \<Rightarrow> (Inl no_route, c))"

definition cluster_net :: "cluster network" where
  "cluster_net =
     \<lparr>net_connect = (\<lambda>a c. (if cl_up c a \<and> cl_nodes c a \<noteq> None then Inr () else Inl no_route, c)),
      net_set = (\<lambda>a req c. call_node (node_set (cl_now c) req) a c),
      net_get = (\<lambda>a key c. call_node (\<lambda>s. Inr (node_get (cl_now c) key s)) a c),
      net_delete = (\<lambda>a key c. call_node (\<lambda>s. Inr (node_delete key s)) a c),
      net_heartbeat = (\<lambda>a c. call_node (\<lambda>s. Inr (node_heartbeat s)) a c)\<rparr>"

definition cluster_inv :: "cluster \<Rightarrow> bool" where
  "cluster_inv c \<longleftrightarrow> cl_now c < 2 ^ 62 * nanos_per_sec \<and> (\<forall>a s. cl_nodes c a = Some s \<longrightarrow> node_inv s)"

definition reachable :: "cluster \<Rightarrow> addr \<Rightarrow> bool" where
  "reachable c a \<longleftrightarrow> cl_up c a \<and> cl_nodes c a \<noteq> None"

definition accepting :: "cluster \<Rightarrow> addr \<Rightarrow> bool" where
  "accepting c a = (case cl_nodes c a of Some s \<Rightarrow> \<not> is_self_joining (ns_table s) | None \<Rightarrow> False)"

definition stored_at :: "cluster \<Rightarrow> addr \<Rightarrow> bytes \<Rightarrow> bytes option" where
  "stored_at c a key = (case cl_nodes c a of Some s \<Rightarrow> map_option fst (visible (ns_store s) (cl_now c) key) | None \<Rightarrow> None)"

lemma call_node_Inr:
  "cl_nodes c a = Some s \<Longrightarrow> cl_up c a \<Longrightarrow> f s = Inr (r, s') \<Longrightarrow>
     call_node f a c = (r, c\<lparr>cl_nodes := (cl_nodes c)(a \<mapsto> s')\<rparr>)"
  by (simp add: call_node_def)

lemma call_node_down: "\<not> reachable c a \<Longrightarrow> call_node f a c = (Inl no_route, c)"
  by (auto simp: call_node_def reachable_def split: option.split)

text \<open>Replacing a node's state by one with the same membership changes what is stored there and nothing else.\<close>
lemma cluster_put:
  assumes "cluster_inv c" "cl_nodes c a = Some s" "node_inv s'" "ns_table s' = ns_table s"
  defines "c' \<equiv> c\<lparr>cl_nodes := (cl_nodes c)(a \<mapsto> s')\<rparr>"
  shows "cluster_inv c'" "reachable c' = reachable c" "accepting c' = accepting c"
    "stored_at c' = (\<lambda>b key. if b = a then map_option fst (visible (ns_store s') (cl_now c) key) else stored_at c b key)"
  using assms by (auto simp: cluster_inv_def reachable_def accepting_def stored_at_def c'_def fun_eq_iff split: option.split)

interpretation nodes: replica_net cluster_net cluster_inv reachable accepting stored_at
proof
  fix c a key and req :: set_request
  show "\<exists>r. net_connect cluster_net a c = (r, c) \<and> ((\<exists>u. r = Inr u) \<longleftrightarrow> reachable c a)"
    by (simp add: cluster_net_def reachable_def)
  assume inv: "cluster_inv c"
  show "\<exists>e. net_get cluster_net a key c = (Inl e, c)" "\<exists>e. net_delete cluster_net a key c = (Inl e, c)" if "\<not> reachable c a"
    using that by (simp_all add: cluster_net_def call_node_down)
  show "\<exists>e. net_set cluster_net a req c = (Inl e, c)" if "\<not> (reachable c a \<and> accepting c a)"
  proof (cases "reachable c a")
    case True
    then obtain s where s: "cl_nodes c a = Some s" "cl_up c a" by (auto simp: reachable_def)
    have "is_self_joining (ns_table s)" using that True s by (simp add: accepting_def)
    moreover have "(cl_nodes c)(a \<mapsto> s) = cl_nodes c" using s(1) by (rule fun_upd_idem)
    ultimately show ?thesis using s by (simp add: cluster_net_def call_node_def node_set_def)
  qed (simp add: cluster_net_def call_node_down)
  assume up: "reachable c a"
  then obtain s where s: "cl_nodes c a = Some s" "cl_up c a" by (auto simp: reachable_def)
  have node: "node_inv s" and store: "store_inv (ns_store s)" and now: "cl_now c < 2 ^ 62 * nanos_per_sec"
    using inv s by (auto simp: cluster_inv_def node_inv_def)
  show "\<exists>c'. net_get cluster_net a key c = (Inr \<lparr>gr_value = stored_at c a key, gr_found = (stored_at c a key \<noteq> None)\<rparr>, c')
      \<and> cluster_inv c' \<and> reachable c' = reachable c \<and> accepting c' = accepting c \<and> stored_at c' = stored_at c"
  proof -
    let ?s = "snd (node_get (cl_now c) key s)"
    have "net_get cluster_net a key c = (fst (node_get (cl_now c) key s), c\<lparr>cl_nodes := (cl_nodes c)(a \<mapsto> ?s)\<rparr>)"
      using s by (simp add: cluster_net_def call_node_def split: prod.split)
    moreover have "fst (node_get (cl_now c) key s) = Inr \<lparr>gr_value = stored_at c a key, gr_found = (stored_at c a key \<noteq> None)\<rparr>"
      using s by (simp add: node_get_result stored_at_def split: option.split)
    ultimately show ?thesis
      using cluster_put [OF inv s(1) node_inv_ops(1) [OF node, of "cl_now c" key]] s
        node_get_visible [OF node order.refl, of "cl_now c" key]
      by (auto simp: stored_at_def fun_eq_iff)
  qed
  show "\<exists>r c'. net_delete cluster_net a key c = (r, c') \<and> cluster_inv c' \<and> reachable c' = reachable c \<and> accepting c' = accepting c
      \<and> stored_at c' = (\<lambda>b k. if b = a \<and> k = key then None else stored_at c b k)"
  proof -
    let ?s = "snd (node_delete key s)"
    have "net_delete cluster_net a key c = (fst (node_delete key s), c\<lparr>cl_nodes := (cl_nodes c)(a \<mapsto> ?s)\<rparr>)"
      using s by (simp add: cluster_net_def call_node_def split: prod.split)
    then show ?thesis
      using cluster_put [OF inv s(1) node_inv_ops(2) [OF node, of key]] s cs.look_del [OF store, of key "cl_now c"]
      by (auto simp: stored_at_def node_delete_store fun_eq_iff)
  qed
  assume open_node: "accepting c a" and ttl: "sr_ttl_ms req \<noteq> Some 0"
  let ?e = "map_option (\<lambda>ms. cl_now c + from_millis ms) (sr_ttl_ms req)"
  let ?s = "s\<lparr>ns_store := put_entry (sr_key req) (sr_value req) ?e (ns_store s)\<rparr>"
  have "node_set (cl_now c) req s = Inr (Inr \<lparr>sresp_success = True\<rparr>, ?s)"
    using node_set_alive [OF _ now] open_node s by (simp add: accepting_def)
  moreover have "node_inv ?s" using node by (simp add: node_inv_def)
  moreover have "not_after (cl_now c) ?e"
    using ttl by (auto simp: not_after_def from_millis_def nanos_per_milli_def unat_gt_0 split: option.split)
  ultimately show "\<exists>c'. net_set cluster_net a req c = (Inr \<lparr>sresp_success = True\<rparr>, c') \<and> cluster_inv c'
      \<and> reachable c' = reachable c \<and> accepting c' = accepting c
      \<and> stored_at c' = (\<lambda>b k. if b = a \<and> k = sr_key req then Some (sr_value req) else stored_at c b k)"
    using cluster_put [OF inv s(1), of ?s] s cs.look_put [OF store, of "sr_key req" "sr_value req" ?e "cl_now c"]
    by (auto simp: cluster_net_def call_node_Inr stored_at_def fun_eq_iff)
qed

section \<open>Operations through the router\<close>

abbreviation replicas :: "externs \<Rightarrow> router \<Rightarrow> bytes \<Rightarrow> node_info list" where
  "replicas ext rt key \<equiv> alive_preference_list ext (rt_config rt) (rt_ring rt) (rt_health rt) key"

text \<open>No listed address makes the client pool panic.\<close>
definition uris_ok :: "externs \<Rightarrow> node_info list \<Rightarrow> bool" where
  "uris_ok ext nodes \<longleftrightarrow> (\<forall>node\<in>set nodes. uri_ok ext (''http://'' @ ni_addr node))"

lemma router_set_spec:
  assumes "cluster_inv (lk_world k)" "uris_ok ext (replicas ext rt key)" "replicas ext rt key = p # rest"
    and "0 < rc_max_retries (rt_config rt)" "ttl \<noteq> Some 0"
  shows "\<exists>k'. router_set ext cluster_net rt key val ttl None k
        = Inr (if reachable (lk_world k) (ni_addr p) \<and> accepting (lk_world k) (ni_addr p)
               then Inr \<lparr>sresp_success = True\<rparr> else Inl (RouterMsg ''Primary write failed''), k')
     \<and> cluster_inv (lk_world k') \<and> reachable (lk_world k') = reachable (lk_world k) \<and> accepting (lk_world k') = accepting (lk_world k)
     \<and> stored_at (lk_world k') = (\<lambda>a q. if a \<in> ni_addr ` set (p # rest) \<and> reachable (lk_world k) a \<and> accepting (lk_world k) a \<and> q = key
                                        then Some val else stored_at (lk_world k) a q)"
proof -
  obtain n where n: "rc_max_retries (rt_config rt) = Suc n" using assms(4) gr0_implies_Suc by blast
  let ?req = "\<lparr>sr_key = key, sr_value = val, sr_ttl_ms = ttl\<rparr>"
  have uris: "\<forall>node\<in>set (p # rest). uri_ok ext (''http://'' @ ni_addr node)" using assms(2,3) by (simp add: uris_ok_def)
  from nodes.set_nodes_spec [OF assms(1) uris, of ?req n] assms(5)
  obtain k' where "set_nodes ext cluster_net (Suc n) ?req (p # rest) k
      = Inr (map (\<lambda>node. reachable (lk_world k) (ni_addr node) \<and> accepting (lk_world k) (ni_addr node)) (p # rest), k')"
    "cluster_inv (lk_world k')" "reachable (lk_world k') = reachable (lk_world k)" "accepting (lk_world k') = accepting (lk_world k)"
    "stored_at (lk_world k') = (\<lambda>a q. if a \<in> ni_addr ` set (p # rest) \<and> reachable (lk_world k) a \<and> accepting (lk_world k) a \<and> q = key
                                        then Some val else stored_at (lk_world k) a q)"
    by (auto simp del: set_nodes.simps cong: if_cong)
  then show ?thesis
    using assms(3) n by (auto simp: router_set_def coordinator_set_def lift_msg_def simp del: set_nodes.simps)
qed

lemma router_get_spec:
  assumes "cluster_inv (lk_world k)" "uris_ok ext (replicas ext rt key)" "replicas ext rt key \<noteq> []" "0 < rc_max_retries (rt_config rt)"
  shows "\<exists>k'. router_get ext cluster_net rt key None k
        = Inr (Inr (case nodes.answers (lk_world k) key (replicas ext rt key) of [] \<Rightarrow> \<lparr>gr_value = None, gr_found = False\<rparr>
                    | v # _ \<Rightarrow> \<lparr>gr_value = Some v, gr_found = True\<rparr>), k')
     \<and> stored_at (lk_world k') = stored_at (lk_world k)"
proof -
  obtain n where n: "rc_max_retries (rt_config rt) = Suc n" using assms(4) gr0_implies_Suc by blast
  from nodes.get_nodes_spec [OF assms(1) assms(2) [unfolded uris_ok_def], of n key] show ?thesis
    using assms(3) n by (auto simp: router_get_def coordinator_get_def lift_msg_def simp del: get_nodes.simps)
qed

lemma router_delete_spec:
  assumes "cluster_inv (lk_world k)" "uris_ok ext (replicas ext rt key)" "replicas ext rt key \<noteq> []" "0 < rc_max_retries (rt_config rt)"
  shows "\<exists>d k'. router_delete ext cluster_net rt key None k = Inr (Inr \<lparr>dr_deleted = d\<rparr>, k')
     \<and> cluster_inv (lk_world k') \<and> reachable (lk_world k') = reachable (lk_world k)
     \<and> stored_at (lk_world k') = (\<lambda>a q. if a \<in> ni_addr ` set (replicas ext rt key) \<and> reachable (lk_world k) a \<and> q = key
                                        then None else stored_at (lk_world k) a q)"
proof -
  obtain n where n: "rc_max_retries (rt_config rt) = Suc n" using assms(4) gr0_implies_Suc by blast
  from nodes.delete_nodes_spec [OF assms(1) assms(2) [unfolded uris_ok_def], of n key False] show ?thesis
    using assms(3) n by (auto simp: router_delete_def coordinator_delete_def lift_msg_def simp del: delete_nodes.simps)
qed

lemma answers_first:
  assumes "node \<in> set nodes" "reachable w (ni_addr node)"
    and "\<forall>node\<in>set nodes. reachable w (ni_addr node) \<longrightarrow> stored_at w (ni_addr node) key = Some v"
  shows "\<exists>more_answers. nodes.answers w key (nodes @ spare) = v # more_answers"
  using assms by (induction nodes) (auto simp: nodes.answers_def map_filter_simps)

lemma answers_none:
  "\<forall>node\<in>set nodes. reachable w (ni_addr node) \<longrightarrow> stored_at w (ni_addr node) key = None \<Longrightarrow> nodes.answers w key nodes = []"
  by (induction nodes) (auto simp: nodes.answers_def map_filter_simps)

lemma probe_node_spec:
  assumes "uri_ok ext (''http://'' @ a)" "hm_invar (hm_nodes m)"
  shows "\<exists>m' k'. probe_node ext cluster_net now (nid, a) (m, k) = Inr (m', k')
    \<and> hm_invar (hm_nodes m') \<and> hm_failure_threshold m' = hm_failure_threshold m \<and> reachable (lk_world k') = reachable (lk_world k)
    \<and> health_of m' = (health_of m)(nid \<mapsto> if reachable (lk_world k) a then (HAlive, 0)
        else fail_standing (hm_failure_threshold m) (case health_of m nid of Some hc \<Rightarrow> hc | None \<Rightarrow> (HAlive, 0)))"
proof -
  obtain r pool where c: "get_client ext cluster_net a k = Inr (r, k\<lparr>lk_pool := pool\<rparr>)" "reachable (lk_world k) a \<longrightarrow> r = Inr ()"
    using nodes.client [OF assms(1), of k] by blast
  show ?thesis
  proof (cases "reachable (lk_world k) a")
    case True
    then obtain s where "cl_nodes (lk_world k) a = Some s" "cl_up (lk_world k) a" by (auto simp: reachable_def)
    then have "net_heartbeat cluster_net a (lk_world k) = (Inr \<lparr>hr_ok = True\<rparr>, lk_world k)"
      by (simp add: cluster_net_def call_node_def node_heartbeat_def fun_upd_idem)
    then show ?thesis using c True assms(2) by (simp add: probe_node_def health_of_mark_alive)
  next
    case False
    then have "net_heartbeat cluster_net a (lk_world k) = (Inl no_route, lk_world k)"
      by (simp add: cluster_net_def call_node_down)
    then show ?thesis using c False assms(2) by (cases r) (simp_all add: probe_node_def health_of_record_failure del: fail_standing.simps)
  qed
qed

section \<open>A cluster to evaluate\<close>

definition demo_ring :: hash_ring where
  "demo_ring = add_node demo_ext \<lparr>ni_id = NodeId 10, ni_addr = ''n10''\<rparr> small_ring"

definition demo_router :: router where
  "demo_router = \<lparr>rt_ring = demo_ring, rt_health = monitor_new, rt_config = replication_default\<rparr>"

definition demo_cluster :: "bool \<Rightarrow> cluster" where
  "demo_cluster both = \<lparr>cl_nodes = [''n1'' \<mapsto> node_new 0 (NodeId 1) [], ''n10'' \<mapsto> node_new 0 (NodeId 10) []],
     cl_up = (\<lambda>a. both \<or> a = ''n10''), cl_now = 5\<rparr>"

lemma demo_replicas: "replicas demo_ext demo_router ''k'' = [\<lparr>ni_id = NodeId 1, ni_addr = ''n1''\<rparr>, \<lparr>ni_id = NodeId 10, ni_addr = ''n10''\<rparr>]"
  by code_simp

definition degraded_router :: router where
  "degraded_router = demo_router\<lparr>rt_ring := remove_node (NodeId 1) demo_ring\<rparr>"

lemma demo_ring_inv: "ring_inv demo_ring"
  by (simp add: demo_ring_def ring_inv_add_node small_ring_inv)

lemma degraded_replicas: "replicas demo_ext degraded_router ''k'' = [\<lparr>ni_id = NodeId 10, ni_addr = ''n10''\<rparr>]"
  by code_simp

lemma degraded_uris: "uris_ok demo_ext (replicas demo_ext degraded_router ''k'')"
  unfolding degraded_replicas by (simp add: uris_ok_def demo_ext_def)

lemma demo_uris: "uris_ok demo_ext (replicas demo_ext demo_router ''k'')"
  unfolding demo_replicas by (simp add: uris_ok_def demo_ext_def)

lemma demo_cluster_inv: "cluster_inv (demo_cluster both)"
  by (simp add: cluster_inv_def demo_cluster_def nanos_per_sec_def node_inv_new split: if_split)

lemma demo_not_joining: "\<not> is_self_joining (ns_table (node_new 0 nid []))"
  by (simp add: node_new_def is_self_joining_def table_new_def Let_def)

lemma demo_available:
  "reachable (demo_cluster both) ''n10''" "accepting (demo_cluster both) ''n10''" "accepting (demo_cluster both) ''n1''"
  "reachable (demo_cluster both) ''n1'' = both"
  by (simp_all add: reachable_def accepting_def demo_cluster_def demo_not_joining)

section \<open>Properties\<close>

text \<open>C13: a write through the router goes to every chosen replica that can be reached and is not joining, to no
  other node and no other key; it is reported as a success exactly when the first of them, the primary,
  took it. So an error report does not mean that nothing was written.\<close>
theorem write_reaches_replicas:
  assumes "cluster_inv (lk_world k)" "uris_ok ext (replicas ext rt key)" "replicas ext rt key = p # rest"
    and "0 < rc_max_retries (rt_config rt)" "ttl \<noteq> Some 0"
  shows "\<exists>k'. router_set ext cluster_net rt key val ttl None k
        = Inr (if reachable (lk_world k) (ni_addr p) \<and> accepting (lk_world k) (ni_addr p)
               then Inr \<lparr>sresp_success = True\<rparr> else Inl (RouterMsg ''Primary write failed''), k')
     \<and> stored_at (lk_world k') = (\<lambda>a q. if a \<in> ni_addr ` set (p # rest) \<and> reachable (lk_world k) a \<and> accepting (lk_world k) a \<and> q = key
                                        then Some val else stored_at (lk_world k) a q)"
  using router_set_spec [OF assms, of val] by blast

theorem write_reaches_replicas_witness:
  "\<exists>k'. router_set demo_ext cluster_net demo_router ''k'' ''v'' None None \<lparr>lk_pool = [], lk_world = demo_cluster False\<rparr>
        = Inr (Inl (RouterMsg ''Primary write failed''), k') \<and> stored_at (lk_world k') ''n10'' ''k'' = Some ''v''"
  using write_reaches_replicas [of "\<lparr>lk_pool = [], lk_world = demo_cluster False\<rparr>" demo_ext demo_router "''k''", OF _ demo_uris demo_replicas, of None "''v''"]
  by (fastforce simp: demo_cluster_inv demo_available demo_router_def replication_default_def)

text \<open>C1: a write that reached all its replicas survives failures: as long as one of them is still up and not given
  up by the health monitor, a read through the router returns the written value, whichever of the others
  have crashed, been declared dead or been removed from the ring meanwhile, and whatever the nodes further
  down the ring hold.\<close>
theorem read_survives_failures:
  assumes "cluster_inv (lk_world k)" "uris_ok ext (replicas ext rt key)" "replicas ext rt key \<noteq> []"
    and "0 < rc_max_retries (rt_config rt)" "ttl \<noteq> Some 0" "0 < rc_replication_factor (rt_config rt)"
    and "\<forall>n\<in>set (replicas ext rt key). reachable (lk_world k) (ni_addr n) \<and> accepting (lk_world k) (ni_addr n)"
    and "router_set ext cluster_net rt key val ttl None k = Inr (r, k1)"
    and "cluster_inv (lk_world k2)"
    and "\<forall>n\<in>set (replicas ext rt key). reachable (lk_world k2) (ni_addr n) \<longrightarrow>
           stored_at (lk_world k2) (ni_addr n) key = stored_at (lk_world k1) (ni_addr n) key"
    and "ring_inv (rt_ring rt)" "rt_ring rt2 = fold remove_node gone (rt_ring rt)" "rt_config rt2 = rt_config rt"
    and "\<forall>nid. health_is_alive (rt_health rt2) nid \<longrightarrow> health_is_alive (rt_health rt) nid" "uris_ok ext (replicas ext rt2 key)"
    and "survivor \<in> set (replicas ext rt key)" "ni_id survivor \<notin> set gone"
    and "health_is_alive (rt_health rt2) (ni_id survivor)" "reachable (lk_world k2) (ni_addr survivor)"
  shows "\<exists>k3. router_get ext cluster_net rt2 key None k2 = Inr (Inr \<lparr>gr_value = Some val, gr_found = True\<rparr>, k3)"
proof -
  obtain p rest where pr: "replicas ext rt key = p # rest" using assms(3) by (cases "replicas ext rt key") auto
  have written: "stored_at (lk_world k1) (ni_addr n) key = Some val" if "n \<in> set (replicas ext rt key)" for n
    using router_set_spec [OF assms(1,2) pr assms(4,5), of val] assms(7,8) that unfolding pr by auto
  let ?up = "filter (\<lambda>n. health_is_alive (rt_health rt2) (ni_id n) \<and> ni_id n \<notin> set gone) (replicas ext rt key)"
  obtain spare where "alive_preference_list ext (rt_config rt) (rt_ring rt2) (rt_health rt2) key = ?up @ spare"
    using alive_preference_list_removed [OF assms(11,6), of "rt_health rt2" "rt_health rt" ext gone key] assms(12,14) by auto
  then have now: "replicas ext rt2 key = ?up @ spare" by (simp add: assms(13))
  have "\<exists>rest. nodes.answers (lk_world k2) key (?up @ spare) = val # rest"
    using assms(10,16-19) written by (intro answers_first [of survivor]) auto
  moreover have "replicas ext rt2 key \<noteq> []" using now assms(16-18) by (auto simp: filter_empty_conv)
  ultimately show ?thesis
    using router_get_spec [OF assms(9,15), of] assms(4,13) now by (auto simp del: filter_append)
qed

theorem read_survives_failures_witness:
  "\<exists>r k1 k3. router_set demo_ext cluster_net demo_router ''k'' ''v'' None None \<lparr>lk_pool = [], lk_world = demo_cluster True\<rparr> = Inr (r, k1)
     \<and> router_get demo_ext cluster_net degraded_router ''k'' None (k1\<lparr>lk_world := (lk_world k1)\<lparr>cl_up := \<lambda>a. a = ''n10''\<rparr>\<rparr>)
       = Inr (Inr \<lparr>gr_value = Some ''v'', gr_found = True\<rparr>, k3)"
proof -
  let ?k = "\<lparr>lk_pool = [], lk_world = demo_cluster True\<rparr>"
  obtain r k1 where set: "router_set demo_ext cluster_net demo_router ''k'' ''v'' None None ?k = Inr (r, k1)"
    and inv: "cluster_inv (lk_world k1)" "reachable (lk_world k1) = reachable (demo_cluster True)"
    using router_set_spec [of ?k demo_ext demo_router "''k''", OF _ demo_uris demo_replicas, of None "''v''"]
    by (auto simp: demo_cluster_inv demo_router_def replication_default_def)
  let ?k2 = "k1\<lparr>lk_world := (lk_world k1)\<lparr>cl_up := \<lambda>a. a = ''n10''\<rparr>\<rparr>"
  have "cluster_inv (lk_world ?k2)" "stored_at (lk_world ?k2) = stored_at (lk_world k1)" "reachable (lk_world ?k2) ''n10''"
    using inv demo_available(1) [of True] by (auto simp: cluster_inv_def stored_at_def reachable_def fun_eq_iff split: option.split)
  then show ?thesis
    using set read_survives_failures [of ?k demo_ext demo_router "''k''" None "''v''" r k1 ?k2 degraded_router "[NodeId 1]" "\<lparr>ni_id = NodeId 10, ni_addr = ''n10''\<rparr>"]
      demo_uris demo_cluster_inv demo_available demo_replicas demo_ring_inv degraded_uris
    by (simp add: demo_router_def degraded_router_def replication_default_def monitor_new_def health_is_alive_def)
qed

text \<open>C30: after a delete through the router with all replicas reachable, a read through the router finds nothing,
  also on replicas that are joining and refused the delete.\<close>
theorem delete_then_read:
  assumes "cluster_inv (lk_world k)" "uris_ok ext (replicas ext rt key)" "replicas ext rt key \<noteq> []" "0 < rc_max_retries (rt_config rt)"
    and "\<forall>n\<in>set (replicas ext rt key). reachable (lk_world k) (ni_addr n)"
  shows "\<exists>d k1 k2. router_delete ext cluster_net rt key None k = Inr (Inr \<lparr>dr_deleted = d\<rparr>, k1)
           \<and> router_get ext cluster_net rt key None k1 = Inr (Inr \<lparr>gr_value = None, gr_found = False\<rparr>, k2)"
proof -
  obtain d k1 where k1: "router_delete ext cluster_net rt key None k = Inr (Inr \<lparr>dr_deleted = d\<rparr>, k1)" "cluster_inv (lk_world k1)"
    "stored_at (lk_world k1) = (\<lambda>a q. if a \<in> ni_addr ` set (replicas ext rt key) \<and> reachable (lk_world k) a \<and> q = key
                                      then None else stored_at (lk_world k) a q)"
    using router_delete_spec [OF assms(1-4)] by blast
  have "nodes.answers (lk_world k1) key (replicas ext rt key) = []" using assms(5) by (intro answers_none) (auto simp: k1(3))
  then show ?thesis using k1 router_get_spec [OF k1(2) assms(2-4)] by auto
qed

theorem delete_then_read_witness:
  "\<exists>d k1 k2. router_delete demo_ext cluster_net demo_router ''k'' None \<lparr>lk_pool = [], lk_world = demo_cluster True\<rparr> = Inr (Inr \<lparr>dr_deleted = d\<rparr>, k1)
     \<and> router_get demo_ext cluster_net demo_router ''k'' None k1 = Inr (Inr \<lparr>gr_value = None, gr_found = False\<rparr>, k2)"
  using delete_then_read [of "\<lparr>lk_pool = [], lk_world = demo_cluster True\<rparr>" demo_ext demo_router "''k''"] demo_uris demo_replicas
  by (simp add: demo_cluster_inv demo_available demo_router_def replication_default_def)


definition stale_cluster :: cluster where
  "stale_cluster = (demo_cluster False)\<lparr>cl_nodes := (cl_nodes (demo_cluster False))
     (''n1'' \<mapsto> (node_new 0 (NodeId 1) [])\<lparr>ns_store := put_entry ''k'' ''v'' None (store_new 0)\<rparr>)\<rparr>"


text \<open>When no replica of a key can be reached, a read through the router does not fail: it is answered with
  "not found", exactly like the read of a key that does not exist.\<close>
theorem outage_looks_like_absence:
  assumes "cluster_inv (lk_world k)" "uris_ok ext (replicas ext rt key)" "replicas ext rt key \<noteq> []" "0 < rc_max_retries (rt_config rt)"
    and "\<forall>n\<in>set (replicas ext rt key). \<not> reachable (lk_world k) (ni_addr n)"
  shows "\<exists>k'. router_get ext cluster_net rt key None k = Inr (Inr \<lparr>gr_value = None, gr_found = False\<rparr>, k')"
  using router_get_spec [OF assms(1-4)] answers_none [of "replicas ext rt key" "lk_world k" key] assms(5) by auto

theorem outage_looks_like_absence_witness:
  "\<exists>k'. router_get demo_ext cluster_net demo_router ''k'' None \<lparr>lk_pool = [], lk_world = (demo_cluster True)\<lparr>cl_up := \<lambda>_. False\<rparr>\<rparr>
        = Inr (Inr \<lparr>gr_value = None, gr_found = False\<rparr>, k')"
proof -
  have "cluster_inv ((demo_cluster True)\<lparr>cl_up := \<lambda>_. False\<rparr>)" using demo_cluster_inv by (simp add: cluster_inv_def)
  then show ?thesis
    using outage_looks_like_absence [of "\<lparr>lk_pool = [], lk_world = (demo_cluster True)\<lparr>cl_up := \<lambda>_. False\<rparr>\<rparr>" demo_ext demo_router "''k''"]
      demo_uris demo_replicas
    by (simp add: reachable_def demo_router_def replication_default_def)
qed

text \<open>One pass of the health checker sets every configured node that answers to Alive with no failures, whatever was
  known of it, also when gossip has just reported it as Joining, which should keep it out of routing; and
  it counts one failure for every node that does not answer.\<close>
theorem health_pass_outcome:
  assumes "\<forall>(nid, a)\<in>set targets. uri_ok ext (''http://'' @ a)" "distinct (map fst targets)" "health_inv m"
  shows "\<exists>m' k'. health_pass ext cluster_net now targets (m, k) = Inr (m', k')
    \<and> (\<forall>(nid, a)\<in>set targets. health_of m' nid = Some (if reachable (lk_world k) a then (HAlive, 0)
          else fail_standing (hm_failure_threshold m) (case health_of m nid of Some hc \<Rightarrow> hc | None \<Rightarrow> (HAlive, 0))))
    \<and> (\<forall>nid. nid \<notin> fst ` set targets \<longrightarrow> health_of m' nid = health_of m nid)"
proof -
  have "hm_invar (hm_nodes m)" using assms(3) by (simp add: health_inv_def)
  with assms(1,2) show ?thesis
  proof (induction targets arbitrary: m k)
    case (Cons target targets)
    obtain nid a where t: "target = (nid, a)" by (cases target)
    obtain m1 k1 where one: "probe_node ext cluster_net now (nid, a) (m, k) = Inr (m1, k1)" "hm_invar (hm_nodes m1)"
      "hm_failure_threshold m1 = hm_failure_threshold m" "reachable (lk_world k1) = reachable (lk_world k)"
      "health_of m1 = (health_of m)(nid \<mapsto> if reachable (lk_world k) a then (HAlive, 0)
        else fail_standing (hm_failure_threshold m) (case health_of m nid of Some hc \<Rightarrow> hc | None \<Rightarrow> (HAlive, 0)))"
      using probe_node_spec [of ext a m now nid k] Cons.prems t by auto
    have fresh: "nid \<notin> fst ` set targets" using Cons.prems(2) t by simp
    obtain m' k' where rest: "health_pass ext cluster_net now targets (m1, k1) = Inr (m', k')"
      "\<forall>(nid, a)\<in>set targets. health_of m' nid = Some (if reachable (lk_world k) a then (HAlive, 0)
          else fail_standing (hm_failure_threshold m) (case health_of m1 nid of Some hc \<Rightarrow> hc | None \<Rightarrow> (HAlive, 0)))"
      "\<forall>nid. nid \<notin> fst ` set targets \<longrightarrow> health_of m' nid = health_of m1 nid"
      using Cons.IH [of m1 k1, unfolded one(3,4)] Cons.prems one(2) by auto
    have same: "health_of m1 n = health_of m n" if "(n, b) \<in> set targets" for n b
      using that fresh one(5) by force
    let ?after = "\<lambda>m n b. Some (if reachable (lk_world k) b then (HAlive, 0)
        else fail_standing (hm_failure_threshold m) (case health_of m n of Some hc \<Rightarrow> hc | None \<Rightarrow> (HAlive, 0)))"
    have "health_of m' n = ?after m n b" if "(n, b) \<in> set targets" for n b
      using rest(2) that same [OF that] by fastforce
    moreover have "health_of m' nid = ?after m nid a" using rest(3) fresh one(5) by simp
    ultimately have all: "\<forall>(n, b)\<in>set (target # targets). health_of m' n = ?after m n b" by (auto simp: t)
    have "health_of m' n = health_of m n" if "n \<notin> fst ` set (target # targets)" for n
      using rest(3) that one(5) t by auto
    then show ?case using rest(1) one(1) t all by (intro exI [of _ m'] exI [of _ k'] conjI) simp_all
  qed simp
qed

theorem health_pass_outcome_witness:
  "\<exists>m' k'. health_pass demo_ext cluster_net 9 [(NodeId 1, ''n1'')]
       (health_mark_joining 8 (NodeId 1) monitor_new, \<lparr>lk_pool = [], lk_world = demo_cluster True\<rparr>) = Inr (m', k')
     \<and> health_is_alive m' (NodeId 1)"
proof -
  have "health_inv (health_mark_joining 8 (NodeId 1) monitor_new)" by (intro health_inv_ops health_inv_new)
  then show ?thesis
    using health_pass_outcome [of "[(NodeId 1, ''n1'')]" demo_ext "health_mark_joining 8 (NodeId 1) monitor_new" 9 "\<lparr>lk_pool = [], lk_world = demo_cluster True\<rparr>"]
    by (fastforce simp: demo_ext_def demo_available is_alive_standing simp del: health_pass.simps)
qed

end
