(* ===== verification/Router_Process.thy ===== *)
theory Router_Process
  imports Cluster Rebalance
begin

text \<open>
  The router as a running process: \<^verbatim>\<open>crates/router/src/main.rs\<close> and the tasks it starts. \<open>router_main\<close> is the
  start-up; \<open>router_step\<close> is one step of any of the tasks, in any interleaving: the gossip client applies one
  member of a response, the health checker makes one probe, a request is served, or the world outside
  moves on. A panic ends the task it happens in: a request is lost, the health checker stops for good.
  Shown here: the routing state stays sound, the placement of keys depends on nothing but the members, a
  node that comes back gets its keys back, and a joining node's own ring agrees with the router's.
\<close>

section \<open>Start-up\<close>

text \<open>The command line; \<^verbatim>\<open>config\<close> is read by \<^verbatim>\<open>ClusterConfig::load\<close>, \<^verbatim>\<open>target_node\<close> is not used by \<^verbatim>\<open>main\<close>.\<close>
record router_args =
  ra_addr :: addr
  ra_config :: bytes
  ra_target_node :: "bytes option"
  ra_replication_factor :: nat
  ra_max_retries :: nat
  ra_health_check_interval_ms :: u64

record cluster_config =
  cc_nodes :: "node_config_entry list"

text \<open>\<^verbatim>\<open>ClusterConfig::load\<close>, over the file system and \<^verbatim>\<open>serde_json\<close>.\<close>
definition load_config :: "(bytes \<Rightarrow> bytes + bytes) \<Rightarrow> (bytes \<Rightarrow> bytes + cluster_config) \<Rightarrow> bytes \<Rightarrow> bytes + cluster_config" where
  "load_config read_to_string from_str path =
     (case read_to_string path of Inl e \<Rightarrow> Inl e | Inr content \<Rightarrow> from_str content)"

text \<open>
  The shared state of the tasks: the router with its ring and health monitor, the client pool, the fixed
  lists of health targets and gossip seeds, and whether the health checker runs.
\<close>
record 'w router_process =
  rp_router :: router
  rp_link :: "'w link"
  rp_targets :: "(node_id \<times> addr) list"
  rp_seeds :: "addr list"
  rp_checking :: bool

text \<open>\<^verbatim>\<open>tokio::time::interval\<close> panics on a zero period, in the spawned task: then there is no health checker.\<close>
definition router_main ::
    "externs \<Rightarrow> (bytes \<Rightarrow> bytes + bytes) \<Rightarrow> (bytes \<Rightarrow> bytes + cluster_config) \<Rightarrow> router_args \<Rightarrow> 'w \<Rightarrow> (bytes + 'w router_process) run" where
  "router_main ext read_to_string from_str args w =
     (case load_config read_to_string from_str (ra_config args) of
        Inl e \<Rightarrow> Inr (Inl e)
      | Inr config \<Rightarrow>
          and_then (to_node_infos ext (cc_nodes config)) (\<lambda>members.
            let node_addrs = map (\<lambda>n. (ni_id n, ni_addr n)) members in
            Inr (Inr \<lparr>rp_router = \<lparr>rt_ring = build_ring ext members, rt_health = monitor_new,
                        rt_config = \<lparr>rc_replication_factor = ra_replication_factor args, rc_max_retries = ra_max_retries args\<rparr>\<rparr>,
                      rp_link = \<lparr>lk_pool = [], lk_world = w\<rparr>,
                      rp_targets = node_addrs, rp_seeds = map snd node_addrs,
                      rp_checking = (ra_health_check_interval_ms args \<noteq> 0)\<rparr>)))"

section \<open>The tasks\<close>

abbreviation rp_view :: "'w router_process \<Rightarrow> membership_view" where
  "rp_view p \<equiv> (rt_ring (rp_router p), rt_health (rp_router p))"

definition set_view :: "membership_view \<Rightarrow> 'w router_process \<Rightarrow> 'w router_process" where
  "set_view rh p = p\<lparr>rp_router := (rp_router p)\<lparr>rt_ring := fst rh, rt_health := snd rh\<rparr>\<rparr>"

text \<open>A request served by the router's gRPC service.\<close>
datatype request = SetReq set_request | GetReq bytes | DeleteReq bytes

datatype response = SetResp "status + set_response" | GetResp "status + get_response" | DeleteResp "status + delete_response"

fun serve_request :: "externs \<Rightarrow> (status \<Rightarrow> bytes) \<Rightarrow> 'w network \<Rightarrow> router \<Rightarrow> request \<Rightarrow> 'w link \<Rightarrow> (response \<times> 'w link) run" where
  "serve_request ext display net rt (SetReq req) k = and_then (service_set ext display net rt req k) (\<lambda>(r, k'). Inr (SetResp r, k'))"
| "serve_request ext display net rt (GetReq key) k = and_then (service_get ext display net rt key k) (\<lambda>(r, k'). Inr (GetResp r, k'))"
| "serve_request ext display net rt (DeleteReq key) k = and_then (service_delete ext display net rt key k) (\<lambda>(r, k'). Inr (DeleteResp r, k'))"

text \<open>
  One step of some task. \<open>ids\<close> are the identifiers in circulation. After a panic in a request nothing is
  said of the connections and of the world; the routing state is not touched by requests.
\<close>
inductive router_step :: "externs \<Rightarrow> (status \<Rightarrow> bytes) \<Rightarrow> 'w network \<Rightarrow> node_id set \<Rightarrow> 'w router_process \<Rightarrow> 'w router_process \<Rightarrow> bool"
  for ext display net ids where
  gossip: "set_option (parse_node_id ext (pm_node_id member)) \<subseteq> ids \<Longrightarrow>
     router_step ext display net ids p (set_view (apply_member ext now member (rp_view p)) p)"
| probe: "rp_checking p \<Longrightarrow> target \<in> set (rp_targets p) \<Longrightarrow>
     probe_node ext net now target (rt_health (rp_router p), rp_link p) = Inr (m, k) \<Longrightarrow>
     router_step ext display net ids p (set_view (rt_ring (rp_router p), m) (p\<lparr>rp_link := k\<rparr>))"
| probe_panic: "rp_checking p \<Longrightarrow> target \<in> set (rp_targets p) \<Longrightarrow>
     probe_node ext net now target (rt_health (rp_router p), rp_link p) = Inl e \<Longrightarrow>
     router_step ext display net ids p (p\<lparr>rp_checking := False\<rparr>)"
| serve: "serve_request ext display net (rp_router p) req (rp_link p) = Inr (resp, k) \<Longrightarrow>
     router_step ext display net ids p (p\<lparr>rp_link := k\<rparr>)"
| serve_panic: "serve_request ext display net (rp_router p) req (rp_link p) = Inl e \<Longrightarrow>
     router_step ext display net ids p (p\<lparr>rp_link := k\<rparr>)"
| world: "router_step ext display net ids p (p\<lparr>rp_link := (rp_link p)\<lparr>lk_world := w\<rparr>\<rparr>)"

abbreviation router_run where
  "router_run ext display net ids \<equiv> (router_step ext display net ids)\<^sup>*\<^sup>*"

section \<open>Invariants\<close>

lemma set_view_simps [simp]:
  "rt_ring (rp_router (set_view rh p)) = fst rh" "rt_health (rp_router (set_view rh p)) = snd rh" "rt_config (rp_router (set_view rh p)) = rt_config (rp_router p)"
  "rp_targets (set_view rh p) = rp_targets p" "rp_seeds (set_view rh p) = rp_seeds p"
  "rp_checking (set_view rh p) = rp_checking p" "rp_link (set_view rh p) = rp_link p"
  by (simp_all add: set_view_def)

lemma probe_outcome:
  assumes "probe_node ext net now target (m, k) = Inr (m', k')"
  shows "m' = record_failure now (fst target) m \<or> m' = health_mark_alive now (fst target) m"
proof -
  obtain nid a where target: "target = (nid, a)" by (cases target)
  then obtain c k1 where "get_client ext net a k = Inr (c, k1)" using assms by (auto simp: probe_node_def and_then_Inr_conv)
  then show ?thesis using assms target
    by (cases "net_heartbeat net a (lk_world k1)"; cases "fst (net_heartbeat net a (lk_world k1))"; cases c) (auto simp: probe_node_def)
qed

definition process_inv :: "externs \<Rightarrow> 'w router_process \<Rightarrow> bool" where
  "process_inv ext p \<longleftrightarrow> view_inv (rp_view p) \<and> hm_failure_threshold (rt_health (rp_router p)) = 3"

lemma process_inv_step: "router_step ext display net ids p q \<Longrightarrow> process_inv ext p \<Longrightarrow> process_inv ext q"
proof (induction rule: router_step.induct)
  case (gossip member p now)
  then show ?case using view_inv_apply_member [of "rp_view p"] view_threshold [of ext now member "rp_view p"] 
    by (simp add: process_inv_def)
next
  case (probe p target now m k)
  then show ?case using probe_outcome [OF probe(3)] by (auto simp: process_inv_def view_inv_def intro: health_inv_ops)
qed (auto simp: process_inv_def)

definition placement_inv :: "externs \<Rightarrow> node_id set \<Rightarrow> hash_ring \<Rightarrow> bool" where
  "placement_inv ext ids r \<longleftrightarrow> placed ext r \<and> hr_vnode_count r = DEFAULT_VNODE_COUNT \<and> ni_id ` set (hr_nodes r) \<subseteq> ids"

lemma placement_add:
  assumes "collision_free ext DEFAULT_VNODE_COUNT ids" "placement_inv ext ids r" "\<not> contains_node r (ni_id info)" "ni_id info \<in> ids"
  shows "placement_inv ext ids (add_node ext info r)"
proof -
  have "collision_free ext DEFAULT_VNODE_COUNT (insert (ni_id info) (ni_id ` set (hr_nodes r)))"
    using assms by (auto simp: placement_inv_def intro: collision_free_subset)
  then show ?thesis using assms placed_add [of ext r info] by (auto simp: placement_inv_def contains_node_conv) (auto simp: add_node_def)
qed

lemma placement_remove: "placement_inv ext ids r \<Longrightarrow> placement_inv ext ids (remove_node gone r)"
  using placed_remove [of ext r gone] by (auto simp: placement_inv_def) (auto simp: remove_node_def)

lemma placement_apply_member:
  assumes "collision_free ext DEFAULT_VNODE_COUNT ids" "placement_inv ext ids (fst rh)" "set_option (parse_node_id ext (pm_node_id member)) \<subseteq> ids"
  shows "placement_inv ext ids (fst (apply_member ext now member rh))"
  using assms placement_add [OF assms(1,2)] placement_remove [OF assms(2)]
  by (cases rh) (auto simp: apply_member_def contains_node_def [symmetric] split: option.split proto_status.split)

lemma placement_step:
  "router_step ext display net ids p q \<Longrightarrow> collision_free ext DEFAULT_VNODE_COUNT ids \<Longrightarrow>
   placement_inv ext ids (rt_ring (rp_router p)) \<Longrightarrow> placement_inv ext ids (rt_ring (rp_router q))"
proof (induction rule: router_step.induct)
  case (gossip member p now)
  then show ?case using placement_apply_member [of ext ids "rp_view p"] by simp
qed (simp_all add: set_view_def)


lemma run_inv:
  assumes "router_run ext display net ids p q" "process_inv ext p"
  shows "process_inv ext q"
  using assms by induction (auto intro: process_inv_step)

lemma run_constants:
  assumes "router_run ext display net ids p q"
  shows "rt_config (rp_router q) = rt_config (rp_router p) \<and> rp_targets q = rp_targets p \<and> rp_seeds q = rp_seeds p
    \<and> (rp_checking q \<longrightarrow> rp_checking p)"
  using assms by induction (auto elim!: router_step.cases)

lemma run_placement:
  assumes "router_run ext display net ids p q" "collision_free ext DEFAULT_VNODE_COUNT ids" "placement_inv ext ids (rt_ring (rp_router p))"
  shows "placement_inv ext ids (rt_ring (rp_router q))"
  using assms by induction (auto intro: placement_step)

text \<open>A router that has just been started from the given members.\<close>
definition started :: "externs \<Rightarrow> node_info list \<Rightarrow> 'w router_process \<Rightarrow> bool" where
  "started ext members p \<longleftrightarrow> distinct (map ni_id members) \<and> rp_view p = (build_ring ext members, monitor_new)
     \<and> rp_targets p = map (\<lambda>n. (ni_id n, ni_addr n)) members \<and> rp_seeds p = map ni_addr members"

lemma started_inv: "started ext members p \<Longrightarrow> process_inv ext p"
  using view_inv_build [of members ext] by (simp add: started_def process_inv_def monitor_new_def)

lemma placement_build:
  assumes "collision_free ext DEFAULT_VNODE_COUNT ids" "distinct (map ni_id members)" "ni_id ` set members \<subseteq> ids"
  shows "placement_inv ext ids (build_ring ext members)"
proof -
  have "placed ext (build_ring ext members)"
    unfolding build_ring_def using assms
    by (intro placed_adds placed_new) (auto simp: ring_new_def elim: collision_free_subset)
  moreover have "hr_vnode_count (fold (add_node ext) members r) = hr_vnode_count r" for r
    by (induction members arbitrary: r) (simp_all add: add_node_def)
  ultimately show ?thesis using assms(3) by (simp add: placement_inv_def build_ring_def build_ring_nodes) (simp add: ring_new_def)
qed

lemma placement_routes_alike:
  assumes "placement_inv ext ids r1" "placement_inv ext ids r2" "set (hr_nodes r1) = set (hr_nodes r2)"
  shows "get_node ext r1 key = get_node ext r2 key" "get_preference_list ext r1 key n = get_preference_list ext r2 key n"
proof -
  have "hr_ring r1 = hr_ring r2" "find_node r1 = find_node r2"
    using placed_unique [of ext r1 r2] assms by (simp_all add: placement_inv_def)
  then show "get_node ext r1 key = get_node ext r2 key" "get_preference_list ext r1 key n = get_preference_list ext r2 key n"
    by (rule lookup_cong)+
qed

lemma live_ring_routes_alike:
  assumes "collision_free ext DEFAULT_VNODE_COUNT ids" "placement_inv ext ids r"
    and "distinct (local_id # map (\<lambda>e. ni_id (me_info e)) (routable_peers t))"
    and "set (hr_nodes r) = insert \<lparr>ni_id = local_id, ni_addr = local_addr t\<rparr> (me_info ` set (routable_peers t))"
  shows "get_node ext (live_ring ext local_id t) key = get_node ext r key"
proof -
  let ?members = "\<lparr>ni_id = local_id, ni_addr = local_addr t\<rparr> # map me_info (routable_peers t)"
  have live: "live_ring ext local_id t = build_ring ext ?members"
    by (simp add: live_ring_def build_ring_def fold_map comp_def)
  have "ni_id ` set ?members \<subseteq> ids" using assms(2,4) by (auto simp: placement_inv_def)
  then have "placement_inv ext ids (live_ring ext local_id t)"
    using placement_build [OF assms(1), of ?members] assms(3) by (simp add: live comp_def)
  moreover have "set (hr_nodes (live_ring ext local_id t)) = set (hr_nodes r)"
    by (simp add: live build_ring_def build_ring_nodes assms(4)) (simp add: ring_new_def add_node_def)
  ultimately show ?thesis using placement_routes_alike(1) assms(2) by blast
qed

text \<open>The peers a table routes to have different identifiers, none of them its own.\<close>
lemma routable_distinct:
  assumes "table_inv t"
  shows "distinct (mt_local_id t # map (\<lambda>e. ni_id (me_info e)) (routable_peers t))"
proof -
  have inv: "hm_invar (mt_members t)" using assms by (simp add: table_inv_def)
  have id: "ni_id (me_info e) = i" if "(i, e) \<in> set (mt_members t)" for i e
    using that assms hm.get_entries [OF inv] by (auto simp: table_inv_def)
  let ?sel = "filter (\<lambda>(i, e). i \<noteq> mt_local_id t \<and> me_status e = Alive) (mt_members t)"
  have "map (\<lambda>e. ni_id (me_info e)) (routable_peers t) = map fst ?sel"
    using id by (auto simp: routable_peers_def)
  moreover have "distinct (map fst ?sel)" using inv by (simp add: hm_invar_def distinct_map_filter)
  moreover have "mt_local_id t \<notin> fst ` set ?sel" by auto
  ultimately show ?thesis by (metis distinct.simps(2) list.set_map)
qed

lemma to_node_infos_nodes: "to_node_infos ext entries = Inr members \<Longrightarrow> map ni_addr members = map nc_addr entries"
  by (induction entries arbitrary: members) (auto simp: and_then_Inr_conv split: option.splits)

lemma main_started:
  assumes "router_main ext rd fs args w = Inr (Inr p)" "distinct (map fst (rp_targets p))"
  obtains members where "started ext members p" "map fst (rp_targets p) = map ni_id members"
    "rt_config (rp_router p) = \<lparr>rc_replication_factor = ra_replication_factor args, rc_max_retries = ra_max_retries args\<rparr>"
proof -
  obtain members where "rp_router p = \<lparr>rt_ring = build_ring ext members, rt_health = monitor_new,
      rt_config = \<lparr>rc_replication_factor = ra_replication_factor args, rc_max_retries = ra_max_retries args\<rparr>\<rparr>"
    "rp_targets p = map (\<lambda>n. (ni_id n, ni_addr n)) members" "rp_seeds p = map ni_addr members"
    using assms(1) by (auto simp: router_main_def and_then_Inr_conv Let_def comp_def split: sum.splits)
  then show thesis using that [of members] assms(2) by (auto simp: started_def comp_def)
qed

lemma main_reaches:
  assumes "router_main ext rd fs args w = Inr (Inr p0)" "distinct (map fst (rp_targets p0))" "router_run ext display net ids p0 p"
  shows "process_inv ext p"
    and "rt_config (rp_router p) = \<lparr>rc_replication_factor = ra_replication_factor args, rc_max_retries = ra_max_retries args\<rparr>"
    and "collision_free ext DEFAULT_VNODE_COUNT ids \<Longrightarrow> fst ` set (rp_targets p0) \<subseteq> ids \<Longrightarrow> placement_inv ext ids (rt_ring (rp_router p))"
proof -
  obtain members where m: "started ext members p0" "map fst (rp_targets p0) = map ni_id members"
    "rt_config (rp_router p0) = \<lparr>rc_replication_factor = ra_replication_factor args, rc_max_retries = ra_max_retries args\<rparr>"
    using main_started [OF assms(1,2)] .
  show "process_inv ext p" using run_inv [OF assms(3)] started_inv [OF m(1)] by blast
  show "rt_config (rp_router p) = \<lparr>rc_replication_factor = ra_replication_factor args, rc_max_retries = ra_max_retries args\<rparr>"
    using run_constants [OF assms(3)] m(3) by simp
  show "placement_inv ext ids (rt_ring (rp_router p))" if "collision_free ext DEFAULT_VNODE_COUNT ids" "fst ` set (rp_targets p0) \<subseteq> ids"
  proof -
    have "ni_id ` set members = fst ` set (rp_targets p0)" using m(2) by (metis list.set_map)
    then show ?thesis using run_placement [OF assms(3) that(1)] placement_build [OF that(1), of members] m(1) that(2) by (simp add: started_def)
  qed
qed

text \<open>A pass of the health checker and a tick of the gossip client, as the code writes them, are runs.\<close>
lemma health_pass_run:
  assumes "rp_checking p" "set targets \<subseteq> set (rp_targets p)"
    and "health_pass ext net now targets (rt_health (rp_router p), rp_link p) = Inr (m, k)"
  shows "router_run ext display net ids p (set_view (rt_ring (rp_router p), m) (p\<lparr>rp_link := k\<rparr>))"
  using assms
proof (induction targets arbitrary: p)
  case Nil
  then have "set_view (rt_ring (rp_router p), m) (p\<lparr>rp_link := k\<rparr>) = p"
    by (cases p; cases "rp_router p") (auto simp: set_view_def)
  then show ?case by simp
next
  case (Cons target targets)
  then obtain m1 k1 where one: "probe_node ext net now target (rt_health (rp_router p), rp_link p) = Inr (m1, k1)"
    and rest: "health_pass ext net now targets (m1, k1) = Inr (m, k)"
    by (auto simp: and_then_Inr_conv)
  let ?q = "set_view (rt_ring (rp_router p), m1) (p\<lparr>rp_link := k1\<rparr>)"
  have "router_step ext display net ids p ?q" using Cons.prems one by (intro router_step.probe) auto
  moreover have "router_run ext display net ids ?q (set_view (rt_ring (rp_router ?q), m) (?q\<lparr>rp_link := k\<rparr>))"
    using Cons.prems rest by (intro Cons.IH) simp_all
  ultimately show ?case by (simp add: set_view_def)
qed

lemma gossip_members_run:
  assumes "\<forall>member\<in>set members. set_option (parse_node_id ext (pm_node_id member)) \<subseteq> ids"
  shows "router_run ext display net ids p (set_view (fold (apply_member ext now) members (rp_view p)) p)"
  using assms
proof (induction members arbitrary: p)
  case (Cons member members)
  let ?q = "set_view (apply_member ext now member (rp_view p)) p"
  have "router_step ext display net ids p ?q" using Cons.prems by (intro router_step.gossip) simp
  moreover have "router_run ext display net ids ?q (set_view (fold (apply_member ext now) members (rp_view ?q)) ?q)"
    using Cons.prems by (intro Cons.IH) simp
  ultimately show ?case by (simp add: set_view_def)
qed (simp add: set_view_def)

section \<open>Two routers to evaluate\<close>

text \<open>A hash without collisions on small identifiers: the identifier and the number of the virtual node.\<close>
definition spread_hash :: "bytes \<Rightarrow> u64" where
  "spread_hash bs =
     (case map parse_u64 (split_on (CHR ''-'') bs) of
        [Inr u, Inr i] \<Rightarrow> word_of_int (u * 1000 + i)
      | _ \<Rightarrow> word_of_nat (length bs))"

definition spread_ext :: externs where
  "spread_ext = demo_ext\<lparr>xxh3_64 := spread_hash\<rparr>"

definition small_ids :: "node_id set" where
  "small_ids = NodeId ` {u. u < 1000}"

lemma demo_small: "NodeId 1 \<in> small_ids" "NodeId 7 \<in> small_ids"
  by (simp_all add: small_ids_def)

lemma dec_nat_no_dash: "CHR ''-'' \<notin> set (dec_nat n)"
  using dec_nat_ascii [of n] by force

lemma spread_hash_vnode:
  assumes "u < 1000" "i < 150"
  shows "unat (hash_vnode spread_ext (NodeId u) i) = unat u * 1000 + i"
proof -
  have small: "unat u < 1000" using assms(1) by (simp add: word_less_nat_alt)
  have "spread_hash (dec_nat (unat u) @ CHR ''-'' # dec_nat i) = word_of_int (int (unat u) * 1000 + int i)"
    using assms small dec_nat_no_dash by (simp add: spread_hash_def split_on_append split_on_single parse_u64_dec_nat)
  also have "\<dots> = word_of_nat (unat u * 1000 + i)" by simp
  finally have "hash_vnode spread_ext (NodeId u) i = word_of_nat (unat u * 1000 + i)"
    by (simp add: hash_vnode_def spread_ext_def demo_ext_def)
  moreover have "unat (word_of_nat n :: u64) = n" if "n < 2 ^ 64" for n
    using that by (simp add: unsigned_of_nat take_bit_nat_eq_self)
  moreover have "unat u * 1000 + i < 2 ^ 64" using small assms(2) by simp
  ultimately show ?thesis by metis
qed

lemma spread_collision_free: "collision_free spread_ext DEFAULT_VNODE_COUNT small_ids"
proof -
  have "u = v \<and> i = j" if "u < 1000" "v < 1000" "i < 150" "j < 150"
      "hash_vnode spread_ext (NodeId u) i = hash_vnode spread_ext (NodeId v) j" for u v :: uuid and i j
  proof -
    have small: "unat u < 1000" "unat v < 1000" using that(1,2) by (simp_all add: word_less_nat_alt)
    then have "unat u * 1000 + i = unat v * 1000 + j" using spread_hash_vnode [OF that(1,3)] spread_hash_vnode [OF that(2,4)] that(5) by simp
    moreover have "(unat u * 1000 + i) div 1000 = unat u" "(unat v * 1000 + j) div 1000 = unat v" using that(3,4) by simp_all
    ultimately have "unat u = unat v \<and> i = j" by (metis add_left_cancel)
    then show ?thesis by (simp add: word_unat_eq_iff)
  qed
  then show ?thesis by (auto simp: collision_free_def inj_on_def small_ids_def DEFAULT_VNODE_COUNT_def)
qed


definition config_of :: "bytes \<Rightarrow> addr \<Rightarrow> bytes \<Rightarrow> bytes + cluster_config" where
  "config_of u a content = Inr \<lparr>cc_nodes = [\<lparr>nc_id = u, nc_addr = a\<rparr>]\<rparr>"

definition demo_args :: router_args where
  "demo_args = \<lparr>ra_addr = ''r'', ra_config = ''c'', ra_target_node = None, ra_replication_factor = 3, ra_max_retries = 1,
     ra_health_check_interval_ms = 1000\<rparr>"

definition one_router :: "uuid \<Rightarrow> addr \<Rightarrow> unit router_process" where
  "one_router u a = \<lparr>rp_router = \<lparr>rt_ring = build_ring spread_ext [\<lparr>ni_id = NodeId u, ni_addr = a\<rparr>], rt_health = monitor_new,
       rt_config = replication_default\<rparr>,
     rp_link = \<lparr>lk_pool = [], lk_world = ()\<rparr>, rp_targets = [(NodeId u, a)], rp_seeds = [a], rp_checking = True\<rparr>"

lemma one_router_main:
  "parse_node_id spread_ext u = Some (NodeId v) \<Longrightarrow>
   router_main spread_ext (\<lambda>_. Inr []) (config_of u a) demo_args () = Inr (Inr (one_router v a))"
  by (simp add: router_main_def load_config_def config_of_def demo_args_def one_router_def replication_default_def)

lemma demo_uuids: "parse_node_id spread_ext ''1'' = Some (NodeId 1)" "parse_node_id spread_ext ''7'' = Some (NodeId 7)"
  by code_simp+

definition alive_report :: "bytes \<Rightarrow> addr \<Rightarrow> proto_member" where
  "alive_report u a = \<lparr>pm_node_id = u, pm_addr = a, pm_status = 0, pm_incarnation = 0, pm_last_seen_ms = 0\<rparr>"

text \<open>The router started with one node after gossip has told it of another.\<close>
definition two_router :: "uuid \<Rightarrow> addr \<Rightarrow> bytes \<Rightarrow> addr \<Rightarrow> unit router_process" where
  "two_router v a u b = set_view (apply_member spread_ext 1 (alive_report u b) (rp_view (one_router v a))) (one_router v a)"

lemma two_router_run:
  assumes "parse_node_id spread_ext u = Some (NodeId v')" "v' < 1000"
  shows "router_run spread_ext display net small_ids (one_router v a) (two_router v a u b)"
  unfolding two_router_def using assms by (intro r_into_rtranclp router_step.gossip) (simp add: alive_report_def small_ids_def)

lemma two_router_nodes:
  assumes "parse_node_id spread_ext u = Some (NodeId v')" "v' \<noteq> v"
  shows "hr_nodes (rt_ring (rp_router (two_router v a u b))) = [\<lparr>ni_id = NodeId v, ni_addr = a\<rparr>, \<lparr>ni_id = NodeId v', ni_addr = b\<rparr>]"
proof -
  have one: "hr_nodes (rt_ring (rp_router (one_router v a))) = [\<lparr>ni_id = NodeId v, ni_addr = a\<rparr>]"
    by (simp add: one_router_def build_ring_def) (simp add: add_node_def ring_new_def)
  then show ?thesis using assms
    by (simp add: two_router_def apply_member_def alive_report_def proto_status_try_from_def) (simp add: add_node_def one)
qed

definition silent_net :: "unit network" where
  "silent_net = \<lparr>net_connect = (\<lambda>_ w. (Inl (Status Transport []), w)), net_set = (\<lambda>_ _ w. (Inl (Status Transport []), w)),
     net_get = (\<lambda>_ _ w. (Inl (Status Transport []), w)), net_delete = (\<lambda>_ _ w. (Inl (Status Transport []), w)),
     net_heartbeat = (\<lambda>_ w. (Inl (Status Transport []), w))\<rparr>"

text \<open>The table of a joining node with the identifier 1 that knows node 7.\<close>
definition joiner_table :: membership_table where
  "joiner_table = \<lparr>mt_members = [(NodeId 1, \<lparr>me_info = \<lparr>ni_id = NodeId 1, ni_addr = ''a''\<rparr>, me_status = Joining, me_incarnation = 0, me_last_seen = 0\<rparr>),
       (NodeId 7, seed_entry 0 \<lparr>ni_id = NodeId 7, ni_addr = ''b''\<rparr>)], mt_local_id = NodeId 1\<rparr>"

section \<open>Properties\<close>



text \<open>C16: routing depends on nothing but the members: two routers that have come to know the same nodes, from
  whatever configurations and whatever gossip in whatever order, have the same preference list for every
  key, unless the hash function lets two virtual nodes of the identifiers in circulation collide.\<close>
theorem routing_depends_on_members_only:
  assumes "router_main ext rd fs args w = Inr (Inr p0)" "distinct (map fst (rp_targets p0))" "router_run ext display net ids p0 p"
    and "router_main ext rd' fs' args' w' = Inr (Inr q0)" "distinct (map fst (rp_targets q0))" "router_run ext display' net' ids q0 q"
    and "collision_free ext DEFAULT_VNODE_COUNT ids" "fst ` set (rp_targets p0) \<subseteq> ids" "fst ` set (rp_targets q0) \<subseteq> ids"
    and "set (hr_nodes (rt_ring (rp_router p))) = set (hr_nodes (rt_ring (rp_router q)))"
  shows "get_preference_list ext (rt_ring (rp_router p)) key n = get_preference_list ext (rt_ring (rp_router q)) key n"
  using placement_routes_alike(2) [OF main_reaches(3) [OF assms(1-3,7,8)] main_reaches(3) [OF assms(4-6,7,9)] assms(10)] .

theorem routing_depends_on_members_only_witness:
  "get_preference_list spread_ext (rt_ring (rp_router (two_router 1 ''a'' ''7'' ''b''))) ''k'' 2
   = get_preference_list spread_ext (rt_ring (rp_router (two_router 7 ''b'' ''1'' ''a''))) ''k'' 2"
proof (rule routing_depends_on_members_only)
  show "router_run spread_ext (\<lambda>_. []) silent_net small_ids (one_router 1 ''a'') (two_router 1 ''a'' ''7'' ''b'')"
    "router_run spread_ext (\<lambda>_. []) silent_net small_ids (one_router 7 ''b'') (two_router 7 ''b'' ''1'' ''a'')"
    by (simp_all add: two_router_run [OF demo_uuids(1)] two_router_run [OF demo_uuids(2)])
  show "router_main spread_ext (\<lambda>_. Inr []) (config_of ''1'' ''a'') demo_args () = Inr (Inr (one_router 1 ''a''))"
    "router_main spread_ext (\<lambda>_. Inr []) (config_of ''7'' ''b'') demo_args () = Inr (Inr (one_router 7 ''b''))"
    by (simp_all add: one_router_main demo_uuids)
  show "set (hr_nodes (rt_ring (rp_router (two_router 1 ''a'' ''7'' ''b'')))) = set (hr_nodes (rt_ring (rp_router (two_router 7 ''b'' ''1'' ''a''))))"
    by (auto simp: two_router_nodes [OF demo_uuids(1)] two_router_nodes [OF demo_uuids(2)])
qed (simp_all add: spread_collision_free one_router_def demo_small)

lemma alive_after_reports:
  assumes "health_inv m" "health_is_alive m nid"
  shows "health_is_alive (health_mark_alive t4 nid (record_failure t3 nid (record_failure t2 nid (record_failure t1 nid m)))) = health_is_alive m"
proof
  fix x
  have "hm_invar (hm_nodes m)" using assms(1) by (simp add: health_inv_def)
  then show "health_is_alive (health_mark_alive t4 nid (record_failure t3 nid (record_failure t2 nid (record_failure t1 nid m)))) x = health_is_alive m x"
    using assms(2) by (auto simp: health_is_alive_def health_mark_alive_def record_failure_def)
qed

lemma alive_preference_list_cong:
  assumes "\<And>n. get_preference_list ext r1 key n = get_preference_list ext r2 key n" "health_is_alive m1 = health_is_alive m2"
  shows "alive_preference_list ext cfg r1 m1 key = alive_preference_list ext cfg r2 m2 key"
proof -
  have "take_alive m1 rf nodes acc = take_alive m2 rf nodes acc" for rf nodes acc
    by (induction nodes arbitrary: acc) (simp_all add: assms(2) Let_def)
  then show ?thesis by (simp add: alive_preference_list_def assms(1))
qed

text \<open>C18: self-healing at the router: when gossip reports a node dead, no key is routed to it any more; when
  gossip later reports it alive at its old address, every key is routed to the same replicas as before.\<close>
theorem returning_node_restores_routing:
  assumes "router_main ext rd fs args w = Inr (Inr p0)" "distinct (map fst (rp_targets p0))" "router_run ext display net ids p0 p"
    and "collision_free ext DEFAULT_VNODE_COUNT ids" "fst ` set (rp_targets p0) \<subseteq> ids"
    and "node \<in> set (hr_nodes (rt_ring (rp_router p)))" "health_is_alive (rt_health (rp_router p)) (ni_id node)"
    and "parse_node_id ext (pm_node_id gone) = Some (ni_id node)" "pm_status gone = proto_status_i32 ProtoDead"
    and "parse_node_id ext (pm_node_id back) = Some (ni_id node)" "pm_status back = proto_status_i32 ProtoAlive" "pm_addr back = ni_addr node"
  shows "case apply_member ext t gone (rp_view p) of (ring1, m1) \<Rightarrow> case apply_member ext t' back (ring1, m1) of (ring2, m2) \<Rightarrow>
           \<forall>key. node \<notin> set (get_preference_list ext ring1 key n)
             \<and> alive_preference_list ext cfg ring2 m2 key = alive_preference_list ext cfg (rt_ring (rp_router p)) (rt_health (rp_router p)) key"
proof -
  let ?r = "rt_ring (rp_router p)" and ?m = "rt_health (rp_router p)" and ?nid = "ni_id node"
  let ?r1 = "remove_node ?nid ?r" and ?m1 = "record_failure t ?nid (record_failure t ?nid (record_failure t ?nid ?m))"
  have inv: "ring_inv ?r" "distinct (map ni_id (hr_nodes ?r))" "health_inv ?m"
    using main_reaches(1) [OF assms(1-3)] by (simp_all add: process_inv_def view_inv_def)
  have place: "placement_inv ext ids ?r" using main_reaches(3) [OF assms(1-3,4,5)] .
  have there: "contains_node ?r ?nid" using assms(6) by (auto simp: contains_node_conv)
  have dead: "apply_member ext t gone (rp_view p) = (?r1, ?m1)"
    using assms(8,9) there by (simp add: apply_member_def proto_status_try_from_def contains_node_def [symmetric])
  have alive: "apply_member ext t' back (?r1, ?m1) = (add_node ext node ?r1, health_mark_alive t' ?nid ?m1)"
    using assms(10-12) by (cases node) (simp add: apply_member_def proto_status_try_from_def contains_node_def [symmetric] not_contains_remove)
  have "set (get_preference_list ext ?r1 key n) \<subseteq> set (hr_nodes ?r1)" for key
    using clockwise_nodes_members [of ext ?r1 key]
    by (auto simp: preference_list_take [OF ring_inv_remove_node [OF inv(1)]] dest!: in_set_takeD)
  moreover have "node \<notin> set (hr_nodes ?r1)" by (simp add: remove_node_def)
  ultimately have gone: "node \<notin> set (get_preference_list ext ?r1 key n)" for key by blast
  have "placement_inv ext ids (add_node ext node ?r1)"
    using place assms(6) by (intro placement_add assms(4) placement_remove not_contains_remove) (auto simp: placement_inv_def)
  moreover have "set (hr_nodes (add_node ext node ?r1)) = set (hr_nodes ?r)"
    using assms(6) inv(2) by (auto simp: add_node_def remove_node_def distinct_map inj_on_def)
  ultimately have "get_preference_list ext (add_node ext node ?r1) key n = get_preference_list ext ?r key n" for key n
    using placement_routes_alike(2) place by blast
  then have "alive_preference_list ext cfg (add_node ext node ?r1) (health_mark_alive t' ?nid ?m1) key = alive_preference_list ext cfg ?r ?m key" for key
    by (intro alive_preference_list_cong alive_after_reports inv(3) assms(7))
  then show ?thesis using gone by (simp add: dead alive)
qed

theorem returning_node_restores_routing_witness:
  "case apply_member spread_ext 2 ((alive_report ''7'' ''b'')\<lparr>pm_status := 2\<rparr>) (rp_view (two_router 1 ''a'' ''7'' ''b'')) of (ring1, m1) \<Rightarrow>
   case apply_member spread_ext 3 (alive_report ''7'' ''b'') (ring1, m1) of (ring2, m2) \<Rightarrow>
     \<forall>key. \<lparr>ni_id = NodeId 7, ni_addr = ''b''\<rparr> \<notin> set (get_preference_list spread_ext ring1 key 5)
       \<and> alive_preference_list spread_ext replication_default ring2 m2 key
         = alive_preference_list spread_ext replication_default (rt_ring (rp_router (two_router 1 ''a'' ''7'' ''b'')))
             (rt_health (rp_router (two_router 1 ''a'' ''7'' ''b''))) key"
proof (rule returning_node_restores_routing)
  show "router_run spread_ext (\<lambda>_. []) silent_net small_ids (one_router 1 ''a'') (two_router 1 ''a'' ''7'' ''b'')"
    by (simp add: two_router_run [OF demo_uuids(2)])
  show "router_main spread_ext (\<lambda>_. Inr []) (config_of ''1'' ''a'') demo_args () = Inr (Inr (one_router 1 ''a''))"
    by (simp add: one_router_main demo_uuids)
  show "health_is_alive (rt_health (rp_router (two_router 1 ''a'' ''7'' ''b''))) (ni_id \<lparr>ni_id = NodeId 7, ni_addr = ''b''\<rparr>)"
    using demo_uuids(2) by (simp add: two_router_def apply_member_def alive_report_def proto_status_try_from_def health_is_alive_def health_mark_alive_def one_router_def monitor_new_def hm_get_def hm_insert_def)
qed (simp_all add: spread_collision_free one_router_def demo_small two_router_nodes [OF demo_uuids(2)] demo_uuids alive_report_def)

text \<open>C20: a joining node and the router agree: when the router's ring has the joining node and the peers the
  joining node takes for routable, the transferred keys the joining node keeps are exactly those whose
  preference list at the router it heads.\<close>
theorem joining_node_agrees_with_router:
  assumes "router_main ext rd fs args w = Inr (Inr p0)" "distinct (map fst (rp_targets p0))" "router_run ext display net ids p0 p"
    and "collision_free ext DEFAULT_VNODE_COUNT ids" "fst ` set (rp_targets p0) \<subseteq> ids"
    and "distinct (local_id # map (\<lambda>e. ni_id (me_info e)) (routable_peers t))" "0 < n"
    and "set (hr_nodes (rt_ring (rp_router p))) = insert \<lparr>ni_id = local_id, ni_addr = local_addr t\<rparr> (me_info ` set (routable_peers t))"
  shows "owned ext local_id (live_ring ext local_id t) key
    \<longleftrightarrow> (\<exists>rest. get_preference_list ext (rt_ring (rp_router p)) key n = \<lparr>ni_id = local_id, ni_addr = local_addr t\<rparr> # rest)"
proof -
  let ?self = "\<lparr>ni_id = local_id, ni_addr = local_addr t\<rparr>" and ?r = "rt_ring (rp_router p)"
  have place: "placement_inv ext ids ?r" using main_reaches(3) [OF assms(1-3,4,5)] .
  have inv: "ring_inv ?r" "distinct (map ni_id (hr_nodes ?r))"
    using main_reaches(1) [OF assms(1-3)] by (simp_all add: process_inv_def view_inv_def)
  have same: "get_node ext (live_ring ext local_id t) key = get_node ext ?r key"
    by (rule live_ring_routes_alike [OF assms(4) place assms(6,8)])
  have self: "x = ?self" if "x \<in> set (hr_nodes ?r)" "ni_id x = local_id" for x
    using that inv(2) assms(8) by (metis distinct_map inj_onD insertI1 node_info.select_convs(1))
  obtain k where n: "max (Suc 0) n = Suc k" by (metis gr0_conv_Suc max.absorb2 assms(7) Suc_leI)
  show ?thesis
  proof (cases "clockwise_nodes ext ?r key")
    case (Cons x xs)
    then have "x \<in> set (hr_nodes ?r)" using clockwise_nodes_members [of ext ?r key] by auto
    then show ?thesis
      using Cons self [of x] by (auto simp: owned_def same get_node_clockwise [OF inv(1)] preference_list_take [OF inv(1)] n)
  qed (simp add: owned_def same get_node_clockwise [OF inv(1)] preference_list_take [OF inv(1)])
qed

theorem joining_node_agrees_with_router_witness:
  "owned spread_ext (NodeId 1) (live_ring spread_ext (NodeId 1) joiner_table) ''k''
   \<longleftrightarrow> (\<exists>rest. get_preference_list spread_ext (rt_ring (rp_router (two_router 7 ''b'' ''1'' ''a''))) ''k'' 3
            = \<lparr>ni_id = NodeId 1, ni_addr = ''a''\<rparr> # rest)"
proof -
  have targets: "rp_targets (one_router 7 ''b'') = [(NodeId 7, ''b'')]" "NodeId 7 \<in> small_ids" by (simp_all add: one_router_def demo_small)
  have table: "routable_peers joiner_table = [seed_entry 0 \<lparr>ni_id = NodeId 7, ni_addr = ''b''\<rparr>]" "local_addr joiner_table = ''a''"
    by (simp_all add: routable_peers_def joiner_table_def local_addr_def seed_entry_def hm_get_def)
  have "set (hr_nodes (rt_ring (rp_router (two_router 7 ''b'' ''1'' ''a''))))
      = insert \<lparr>ni_id = NodeId 1, ni_addr = local_addr joiner_table\<rparr> (me_info ` set (routable_peers joiner_table))"
    using two_router_nodes [OF demo_uuids(1), of 7] by (auto simp: table seed_entry_def)
  then show ?thesis
    using joining_node_agrees_with_router [where key = "''k''" and n = 3 and t = joiner_table and local_id = "NodeId 1",
        OF one_router_main [OF demo_uuids(2), of "''b''"] _ two_router_run [OF demo_uuids(1), of "\<lambda>_. []" silent_net 7 "''b''" "''a''"] spread_collision_free] targets
    by (simp add: table seed_entry_def)
qed

text \<open>The health checker is not restarted: a zero check interval means that no node is ever probed, and a
  configured address that is no valid URI ends the checks of all nodes at its first probe; from then on
  nothing but gossip changes what the router thinks of a node.\<close>
theorem health_checker_stops_for_good:
  assumes "router_main ext rd fs args w = Inr (Inr p0)" "router_run ext display net ids p0 p"
  shows "(ra_health_check_interval_ms args = 0 \<longrightarrow> \<not> rp_checking p)
    \<and> (rp_checking p \<and> (nid, a) \<in> set (rp_targets p0) \<and> \<not> uri_ok ext (''http://'' @ a) \<and> a \<notin> set (lk_pool (rp_link p)) \<longrightarrow>
        router_step ext display net ids p (p\<lparr>rp_checking := False\<rparr>))
    \<and> (\<not> rp_checking p \<longrightarrow> (\<forall>q. router_run ext display net ids p q \<longrightarrow> \<not> rp_checking q))
    \<and> (\<not> rp_checking p \<and> router_step ext display net ids p q \<longrightarrow>
         rt_health (rp_router q) = rt_health (rp_router p)
         \<or> (\<exists>now member. rp_view q = apply_member ext now member (rp_view p)))"
proof -
  have start: "rp_checking p0 \<longleftrightarrow> ra_health_check_interval_ms args \<noteq> 0"
    using assms(1) by (auto simp: router_main_def and_then_Inr_conv Let_def split: sum.splits)
  have "router_step ext display net ids p (p\<lparr>rp_checking := False\<rparr>)"
    if "rp_checking p" "(nid, a) \<in> set (rp_targets p0)" "\<not> uri_ok ext (''http://'' @ a)" "a \<notin> set (lk_pool (rp_link p))"
    using that run_constants [OF assms(2)]
    by (intro router_step.probe_panic [of p "(nid, a)" ext net 0 InvalidAddress]) (auto simp: probe_node_def get_client_def)
  moreover have "rt_health (rp_router q) = rt_health (rp_router p) \<or> (\<exists>now member. rp_view q = apply_member ext now member (rp_view p))"
    if "router_step ext display net ids p q" "\<not> rp_checking p"
    using that by (cases rule: router_step.cases) auto
  ultimately show ?thesis using start run_constants [OF assms(2)] run_constants by blast
qed

theorem health_checker_stops_for_good_witness:
  "router_step spread_ext (\<lambda>_. []) silent_net small_ids (one_router 1 []) ((one_router 1 [])\<lparr>rp_checking := False\<rparr>)"
  using health_checker_stops_for_good [where display = "\<lambda>_. []" and net = silent_net and ids = small_ids and nid = "NodeId 1" and a = "[]",
      OF one_router_main [OF demo_uuids(1), of "[]"] rtranclp.rtrancl_refl]
  by (simp add: one_router_def spread_ext_def demo_ext_def)

end
