(* ===== verification/Join_Delete.thy ===== *)
theory Join_Delete
  imports Join_Recovery
begin

text \<open>
  A delete that meets a join. The rebalancer of \<^verbatim>\<open>crates/node/src/rebalance/mod.rs\<close> opens the streams of its peers, each of
  which is a copy of what the peer holds at that moment; while the chunks are on their way a client deletes a
  key through the router, which does not send the delete to the joining node. The tombstones of the
  joining node, which guard the deletes it is asked for itself, know nothing of it.
\<close>

section \<open>A rebalance during other requests\<close>

text \<open>
  The node at \<open>a\<close> rebalances from streams that its peers opened in the state \<open>c0\<close> of the cluster; when it has
  finished, the rest of the cluster is in the state \<open>c\<close>.
\<close>
definition cluster_rebalance_during ::
    "externs \<Rightarrow> (addr \<Rightarrow> nat \<Rightarrow> instant) \<Rightarrow> node_id \<Rightarrow> addr \<Rightarrow> cluster \<Rightarrow> cluster \<Rightarrow> cluster option" where
  "cluster_rebalance_during ext clock l a c0 c =
     (case cl_nodes c a of
        None \<Rightarrow> None
      | Some s \<Rightarrow>
          (case wait_and_rebalance ext (cluster_fetch c0) clock l [ns_table s] s of
             Some (Inr (n, s')) \<Rightarrow> Some (c\<lparr>cl_nodes := (cl_nodes c)(a \<mapsto> s')\<rparr>)
           | _ \<Rightarrow> None))"

lemma cluster_rebalance_alone: "cluster_rebalance_during ext clock l a c c = cluster_rebalance ext clock l a c"
  by (simp add: cluster_rebalance_during_def cluster_rebalance_def)

lemma cluster_rebalance_meanwhile:
  assumes "cluster_rebalance ext clock l a c0 = Some (c0\<lparr>cl_nodes := (cl_nodes c0)(a \<mapsto> s')\<rparr>)" "cl_nodes c a = cl_nodes c0 a"
  shows "cluster_rebalance_during ext clock l a c0 c = Some (c\<lparr>cl_nodes := (cl_nodes c)(a \<mapsto> s')\<rparr>)"
proof -
  obtain s n s1 where s: "cl_nodes c0 a = Some s" "wait_and_rebalance ext (cluster_fetch c0) clock l [ns_table s] s = Some (Inr (n, s1))"
    and eq: "c0\<lparr>cl_nodes := (cl_nodes c0)(a \<mapsto> s1)\<rparr> = c0\<lparr>cl_nodes := (cl_nodes c0)(a \<mapsto> s')\<rparr>"
    using assms(1) by (auto simp: cluster_rebalance_def split: option.splits sum.splits prod.splits)
  have "cl_nodes (c0\<lparr>cl_nodes := (cl_nodes c0)(a \<mapsto> s1)\<rparr>) a = cl_nodes (c0\<lparr>cl_nodes := (cl_nodes c0)(a \<mapsto> s')\<rparr>) a" by (simp only: eq)
  then show ?thesis using s assms(2) by (simp add: cluster_rebalance_during_def)
qed

section \<open>A delete leaves other nodes alone\<close>

abbreviation spared :: "addr \<Rightarrow> cluster \<Rightarrow> cluster \<Rightarrow> bool" where
  "spared b c c' \<equiv> cl_nodes c' b = cl_nodes c b \<and> cl_now c' = cl_now c \<and> cl_up c' = cl_up c"

lemma get_client_world:
  "get_client ext cluster_net a k = Inr (r, k') \<Longrightarrow> lk_world k' = lk_world k"
  by (auto simp: get_client_def cluster_net_def split: if_splits option.splits sum.splits prod.splits)

lemma delete_attempts_frame:
  "delete_attempts ext cluster_net a key n k = Inr (d, k') \<Longrightarrow> b \<noteq> a \<Longrightarrow> spared b (lk_world k) (lk_world k')"
proof (induction n arbitrary: k)
  case (Suc n)
  obtain r k1 where k1: "get_client ext cluster_net a k = Inr (r, k1)" using Suc.prems(1) by (auto simp: and_then_Inr_conv)
  have w: "lk_world k1 = lk_world k" using get_client_world [OF k1] .
  show ?case
  proof (cases r)
    case Inl
    then show ?thesis using Suc.prems k1 w by simp
  next
    case (Inr u)
    obtain res w2 where call: "net_delete cluster_net a key (lk_world k1) = (res, w2)" by fastforce
    have same: "cl_nodes w2 b = cl_nodes (lk_world k) b" "cl_now w2 = cl_now (lk_world k)" "cl_up w2 = cl_up (lk_world k)"
      using call Suc.prems(2) by (auto simp: w cluster_net_def call_node_def split: option.splits if_splits prod.splits)
    show ?thesis
      using Suc.prems Suc.IH [of "k1\<lparr>lk_world := w2\<rparr>"] k1 Inr call same by (cases res) auto
  qed
qed simp

lemma delete_nodes_frame:
  "delete_nodes ext cluster_net n key nodes d k = Inr (d', k') \<Longrightarrow> b \<notin> ni_addr ` set nodes
     \<Longrightarrow> spared b (lk_world k) (lk_world k')"
proof (induction nodes arbitrary: d k)
  case (Cons node nodes)
  then obtain d1 k1 where "delete_attempts ext cluster_net (ni_addr node) key n k = Inr (d1, k1)" "delete_nodes ext cluster_net n key nodes (d \<or> d1) k1 = Inr (d', k')"
    by (auto simp: and_then_Inr_conv)
  then show ?case using Cons.IH Cons.prems(2) delete_attempts_frame [of ext "ni_addr node" key n k d1 k1 b] by simp
qed simp

lemma router_delete_frame:
  assumes "router_delete ext cluster_net rt key None k = Inr (r, k')" "b \<notin> ni_addr ` set (replicas ext rt key)"
  shows "cl_nodes (lk_world k') b = cl_nodes (lk_world k) b" "cl_now (lk_world k') = cl_now (lk_world k)" "cl_up (lk_world k') = cl_up (lk_world k)"
  using assms delete_nodes_frame [of ext "rc_max_retries (rt_config rt)" key "replicas ext rt key" False k _ k' b]
  by (auto simp: router_delete_def coordinator_delete_def lift_msg_def and_then_Inr_conv Let_def split: if_splits sum.splits prod.splits)

section \<open>Properties\<close>



end
