(* ===== verification/Gossip_Cluster.thy ===== *)
theory Gossip_Cluster
  imports Gossip_Protocol
begin

text \<open>
  Gossip among many nodes: exchanges of \<^verbatim>\<open>crates/node/src/gossip/protocol.rs\<close> (the sending side) with
  \<^verbatim>\<open>crates/node/src/gossip/server.rs\<close> (the answering side), in any order and number. While no node is wrongly
  accused, an exchange leaves both sides with the maximum of their views, for every member including
  themselves, and that is kept by further exchanges; so what a node believes is determined by the nodes it
  has heard of, directly or through others.
\<close>

section \<open>Exchanges between the nodes of a cluster\<close>

type_synonym tables = "nat \<Rightarrow> membership_table"

text \<open>
  Node \<open>i\<close> gossips with node \<open>j\<close>: it sends its table at \<open>t0\<close>, \<open>j\<close> serves the message at \<open>t1\<close>, and \<open>i\<close>
  handles the answer at \<open>t2\<close>, noting that it heard the peer it knows as \<open>peer\<close>.
\<close>
datatype exchange = Exchange (initiator: nat) (responder: nat) instant instant instant "nat \<Rightarrow> node_id" "nat \<Rightarrow> node_id" node_id

fun exchange_exec :: "externs \<Rightarrow> exchange \<Rightarrow> tables \<Rightarrow> tables" where
  "exchange_exec ext (Exchange i j t0 t1 t2 fresh1 fresh2 peer) T =
     (case gossip_exchange ext t1 fresh1 (build_gossip_message ext t0 (T i)) (T j) of
        (response, tj) \<Rightarrow> T(j := tj, i := process_gossip_response ext t2 fresh2 response (touch t2 peer (T i))))"

text \<open>The initiator's side is one iteration of the loop over the chosen targets.\<close>
lemma exchange_is_iteration:
  assumes "i \<noteq> j" "uri_ok ext (''http://'' @ ni_addr (me_info target))"
    and "net (ni_addr (me_info target)) = Some (\<lambda>msg. Some (fst (gossip_exchange ext t1 fresh1 msg (T j))))"
  shows "exchange_exec ext (Exchange i j (clk 0) t1 (clk 1) fresh1 (fresh 0) (ni_id (me_info target))) T i
    = gossip_targets ext fresh clk (\<lambda>_. send_gossip ext net) 0 [target] (T i)"
  using assms by (simp add: send_gossip_def Let_def split: prod.split)

fun learned :: "exchange list \<Rightarrow> (nat \<Rightarrow> nat set) \<Rightarrow> nat \<Rightarrow> nat set" where
  "learned [] K = K"
| "learned (e # es) K =
     learned es (K(initiator e := K (initiator e) \<union> K (responder e), responder e := K (initiator e) \<union> K (responder e)))"

text \<open>The nodes of the cluster: different identifiers, sound tables, and nobody believes worse or newer of a node than it does itself.\<close>
definition settled_cluster :: "nat set \<Rightarrow> tables \<Rightarrow> bool" where
  "settled_cluster N T \<longleftrightarrow> inj_on (\<lambda>i. mt_local_id (T i)) N
     \<and> (\<forall>i\<in>N. table_inv (T i) \<and> local_ok (T i))
     \<and> (\<forall>i\<in>N. \<forall>j\<in>N. view (T j) (mt_local_id (T i)) \<le> view (T i) (mt_local_id (T i)))"

lemma unaccused_merge:
  assumes "table_inv t" "local_ok t" "\<forall>r\<in>set rs. fst r = mt_local_id t \<longrightarrow> entry_view r \<le> view t (mt_local_id t)"
  shows "view (merge now rs t) (mt_local_id t) = view t (mt_local_id t)"
  using assms
proof (induction rs arbitrary: t)
  case (Cons r rs)
  obtain nid addr st inc where r: "r = (nid, addr, st, inc)" by (cases r) auto
  obtain i s where v: "view t (mt_local_id t) = Some (i, s)" using local_view_Some [OF Cons.prems(1)] by blast
  have s: "s = Alive \<or> s = Joining" using Cons.prems(2) v by (auto simp: local_ok_view)
  have "\<not> (nid = mt_local_id t \<and> (st = Suspect \<or> st = Dead) \<and> i \<le> inc)"
  proof
    assume acc: "nid = mt_local_id t \<and> (st = Suspect \<or> st = Dead) \<and> i \<le> inc"
    then have "(inc, st) \<le> (i, s)" using Cons.prems(3) v by (auto simp: r entry_view_def)
    then have "st \<le> s" using acc by (auto simp: less_eq_prod_def)
    then show False using acc s by (auto simp: less_eq_member_status_def)
  qed
  then have one: "view (merge_entry now r t) (mt_local_id t) = view t (mt_local_id t)"
    using refute_entry [OF Cons.prems(1) v, of now nid addr st inc] by (auto simp: r v)
  have "view (merge now rs (merge_entry now r t)) (mt_local_id t) = view (merge_entry now r t) (mt_local_id t)"
    using Cons.IH [of "merge_entry now r t"] Cons.prems one local_ok_merge_entry [OF Cons.prems(1,2)] table_inv_ops(6) [OF Cons.prems(1)]
    by simp
  then show ?case using one by (simp add: merge_def)
qed (simp add: merge_def)

text \<open>Then merging a whole table takes the maximum for every member, the node itself included.\<close>
lemma view_merge_unaccused:
  assumes "table_inv t" "local_ok t" "table_inv u" "view u (mt_local_id t) \<le> view t (mt_local_id t)"
  shows "view (merge now (map entry_of (all_members u)) t) = (\<lambda>k. max (view t k) (view u k))"
proof
  fix k
  show "view (merge now (map entry_of (all_members u)) t) k = max (view t k) (view u k)"
  proof (cases "k = mt_local_id t")
    case True
    have "entry_view r \<le> view t k" if "r \<in> set (map entry_of (all_members u))" "fst r = k" for r
    proof -
      have "entry_view r \<in> gossip.claims (map entry_of (all_members u)) k" using that by (auto simp: gossip.claims_def)
      then show ?thesis using all_members_claims [OF assms(3), of k] assms(4) True by (auto split: option.splits)
    qed
    then show ?thesis using unaccused_merge [OF assms(1,2), of "map entry_of (all_members u)" now] True assms(4) by (simp add: max_absorb1)
  qed (use view_merge_table [OF assms(1,3)] in simp)
qed

lemma exchange_merges:
  fixes t0 t1 t2 :: instant and fresh1 fresh2 :: "nat \<Rightarrow> node_id" and peer :: node_id
  assumes "uuid_roundtrip ext" "settled_cluster N T" "i \<in> N" "j \<in> N" "i \<noteq> j"
  defines "T' \<equiv> exchange_exec ext (Exchange i j t0 t1 t2 fresh1 fresh2 peer) T"
  shows "view (T' i) = (\<lambda>k. max (view (T i) k) (view (T j) k))" "view (T' j) = (\<lambda>k. max (view (T i) k) (view (T j) k))"
    "\<And>x. x \<noteq> i \<Longrightarrow> x \<noteq> j \<Longrightarrow> T' x = T x" "settled_cluster N T'"
proof -
  have T: "table_inv (T i)" "local_ok (T i)" "table_inv (T j)" "local_ok (T j)"
    "view (T i) (mt_local_id (T j)) \<le> view (T j) (mt_local_id (T j))" "view (T j) (mt_local_id (T i)) \<le> view (T i) (mt_local_id (T i))"
    using assms(2-4) by (auto simp: settled_cluster_def)
  let ?msg = "build_gossip_message ext t0 (T i)"
  define tj where "tj = snd (gossip_exchange ext t1 fresh1 ?msg (T j))"
  have resp: "gossip_exchange ext t1 fresh1 ?msg (T j) = (build_gossip_message ext t1 tj, tj)"
    by (simp add: tj_def gossip_exchange_def Let_def)
  have inv_j: "table_inv tj" unfolding tj_def by (rule gossip_exchange_inv [OF T(3)])
  have view_j: "view tj = (\<lambda>k. max (view (T i) k) (view (T j) k))"
    unfolding tj_def gossip_exchange_view [OF T(3)] decode_build [OF assms(1)]
    using view_merge_unaccused [OF T(3,4,1,5)] by (simp add: max.commute)
  have id_j: "mt_local_id tj = mt_local_id (T j)"
    by (simp add: tj_def gossip_exchange_def Let_def split: option.split)
  let ?ti = "touch t2 peer (T i)"
  have ti: "table_inv ?ti" "view ?ti = view (T i)" "mt_local_id ?ti = mt_local_id (T i)" using T(1) by (simp_all add: table_inv_ops view_touch)
  have ok_i: "local_ok ?ti" using T(1,2) ti by (simp add: local_ok_view)
  have "view tj (mt_local_id ?ti) \<le> view ?ti (mt_local_id ?ti)" using T(6) by (simp add: view_j ti)
  then have view_i: "view (process_gossip_response ext t2 fresh2 (build_gossip_message ext t1 tj) ?ti) = (\<lambda>k. max (view (T i) k) (view (T j) k))"
    unfolding process_gossip_response_def decode_build [OF assms(1)]
    using view_merge_unaccused [OF ti(1) ok_i inv_j] by (simp add: ti view_j)
  have T': "T' = T(j := tj, i := process_gossip_response ext t2 fresh2 (build_gossip_message ext t1 tj) ?ti)"
    by (simp add: T'_def resp)
  show views: "view (T' i) = (\<lambda>k. max (view (T i) k) (view (T j) k))" "view (T' j) = (\<lambda>k. max (view (T i) k) (view (T j) k))"
    using assms(5) by (simp_all add: T' view_i view_j)
  show rest: "\<And>x. x \<noteq> i \<Longrightarrow> x \<noteq> j \<Longrightarrow> T' x = T x" by (simp add: T')
  have ids: "mt_local_id (T' x) = mt_local_id (T x)" for x
    using id_j by (simp add: T' process_gossip_response_def)
  have inv: "table_inv (T' x) \<and> local_ok (T' x)" if "x \<in> N" for x
  proof -
    have "table_inv (T' x)" using that assms(2) inv_j ti(1) by (auto simp: T' process_gossip_response_def settled_cluster_def intro: table_inv_merge)
    moreover have "view (T' x) (mt_local_id (T x)) = view (T x) (mt_local_id (T x))"
      using T(5,6) by (cases "x = i"; cases "x = j") (simp_all add: views rest max_absorb1 max_absorb2)
    moreover have "local_ok (T x)" "table_inv (T x)" using that assms(2) by (simp_all add: settled_cluster_def)
    ultimately show ?thesis by (simp add: local_ok_view ids)
  qed
  have "view (T' y) (mt_local_id (T x)) \<le> view (T' x) (mt_local_id (T x))" if "x \<in> N" "y \<in> N" for x y
  proof -
    have le: "view (T z) (mt_local_id (T x)) \<le> view (T x) (mt_local_id (T x))" if "z \<in> N" for z
      using that \<open>x \<in> N\<close> assms(2) by (simp add: settled_cluster_def)
    have "view (T' y) (mt_local_id (T x)) \<le> view (T x) (mt_local_id (T x))"
      using le [OF assms(3)] le [OF assms(4)] le [OF that(2)] by (cases "y = i"; cases "y = j") (simp_all add: views rest)
    also have "\<dots> \<le> view (T' x) (mt_local_id (T x))" by (cases "x = i"; cases "x = j") (simp_all add: views rest)
    finally show ?thesis .
  qed
  then show "settled_cluster N T'" using assms(2) inv by (simp add: settled_cluster_def ids)
qed

abbreviation gossip_run :: "externs \<Rightarrow> exchange list \<Rightarrow> tables \<Rightarrow> tables" where
  "gossip_run ext es T \<equiv> fold (exchange_exec ext) es T"

definition among :: "nat set \<Rightarrow> exchange list \<Rightarrow> bool" where
  "among N es \<longleftrightarrow> (\<forall>e\<in>set es. initiator e \<in> N \<and> responder e \<in> N \<and> initiator e \<noteq> responder e)"

lemma among_simps [simp]: "among N []"
  "among N (e # es) \<longleftrightarrow> initiator e \<in> N \<and> responder e \<in> N \<and> initiator e \<noteq> responder e \<and> among N es"
  by (auto simp: among_def)

lemma run_spreads:
  assumes "uuid_roundtrip ext" "settled_cluster N T" "among N es"
    and "\<forall>x. finite (K x) \<and> K x \<noteq> {}" "\<forall>x\<in>N. view (T x) k = Max (f ` K x)" "i \<in> N"
  shows "view (gossip_run ext es T i) k = Max (f ` learned es K i)"
  using assms(2-5)
proof (induction es arbitrary: T K)
  case Nil
  then show ?case using assms(6) by simp
next
  case (Cons e es)
  obtain a b t0 t1 t2 f1 f2 peer where e: "e = Exchange a b t0 t1 t2 f1 f2 peer" by (cases e)
  let ?T = "exchange_exec ext e T" and ?K = "K(a := K a \<union> K b, b := K a \<union> K b)"
  have ab: "a \<in> N" "b \<in> N" "a \<noteq> b" "among N es" using Cons.prems(2) by (simp_all add: e)
  note ex = exchange_merges [OF assms(1) Cons.prems(1) ab(1-3), where ?t0.0 = t0 and ?t1.0 = t1 and ?t2.0 = t2 and ?fresh1.0 = f1 and ?fresh2.0 = f2 and peer = peer, folded e]
  have "Max (f ` (K a \<union> K b)) = max (Max (f ` K a)) (Max (f ` K b))"
    unfolding image_Un using Cons.prems(3) by (intro Max_Un) simp_all
  then have "view (?T x) k = Max (f ` ?K x)" if "x \<in> N" for x
    using that Cons.prems(4) ex(1-3) ab by (cases "x = a"; cases "x = b") simp_all
  then have "view (gossip_run ext es ?T i) k = Max (f ` learned es ?K i)"
    using Cons.prems(3) by (intro Cons.IH ex(4) ab(4)) auto
  then show ?case by (simp add: e)
qed

lemma learned_mono: "K x \<subseteq> learned es K x"
proof (induction es arbitrary: K)
  case (Cons e es)
  have "K x \<subseteq> (K(initiator e := K (initiator e) \<union> K (responder e), responder e := K (initiator e) \<union> K (responder e))) x" by auto
  then show ?case using Cons by (simp only: learned.simps) (blast intro: subset_trans)
qed simp

lemma learned_append: "learned (es @ es') K = learned es' (learned es K)"
  by (induction es arbitrary: K) simp_all

lemma learned_within: "among N es \<Longrightarrow> (\<And>x. x \<in> N \<Longrightarrow> K x \<subseteq> N) \<Longrightarrow> x \<in> N \<Longrightarrow> learned es K x \<subseteq> N"
proof (induction es arbitrary: K)
  case (Cons e es)
  have "learned es (K(initiator e := K (initiator e) \<union> K (responder e), responder e := K (initiator e) \<union> K (responder e))) x \<subseteq> N"
    by (rule Cons.IH) (use Cons.prems in \<open>auto split: if_splits\<close>)
  then show ?case by simp
qed simp

text \<open>A node that goes through others learns what they know, and tells them what it knows.\<close>
lemma learned_hub:
  assumes "\<forall>e\<in>set es. initiator e = hub" "j \<in> responder ` set es"
  shows "K hub \<subseteq> learned es K j \<and> K j \<subseteq> learned es K hub"
  using assms
proof (induction es arbitrary: K)
  case (Cons e es)
  let ?K = "K(hub := K hub \<union> K (responder e), responder e := K hub \<union> K (responder e))"
  have step: "learned (e # es) K = learned es ?K" using Cons.prems(1) by simp
  show ?case
  proof (cases "j \<in> responder ` set es")
    case True
    then have "?K hub \<subseteq> learned es ?K j \<and> ?K j \<subseteq> learned es ?K hub" by (intro Cons.IH) (use Cons.prems(1) True in auto)
    moreover have "K hub \<subseteq> ?K hub" "K j \<subseteq> ?K j" by auto
    ultimately show ?thesis unfolding step by blast
  next
    case False
    then have "j = responder e" using Cons.prems(2) by auto
    then have "K hub \<union> K j \<subseteq> ?K j" "K hub \<union> K j \<subseteq> ?K hub" by auto
    then show ?thesis unfolding step using learned_mono [of ?K j es] learned_mono [of ?K hub es] by blast
  qed
qed simp

section \<open>Three nodes to evaluate\<close>

definition alone :: tables where
  "alone i = table_new 0 (NodeId (word_of_nat i)) []"

definition hop :: "nat \<Rightarrow> nat \<Rightarrow> exchange" where
  "hop i j = Exchange i j 1 2 3 (\<lambda>_. NodeId 99) (\<lambda>_. NodeId 99) (NodeId (word_of_nat j))"

lemma hop_ends [simp]: "initiator (hop i j) = i" "responder (hop i j) = j"
  by (simp_all add: hop_def)

lemma view_alone: "view (alone i) = [NodeId (word_of_nat i) \<mapsto> (0, Alive)]"
  by (auto simp: alone_def table_new_def Let_def view_def hm_get_def hm_insert_def fun_eq_iff)

lemma alone_settled: "settled_cluster {0, 1, 2} alone"
proof -
  have ids: "mt_local_id (alone i) = NodeId (word_of_nat i)" for i by (simp add: alone_def)
  have "inj_on (\<lambda>i. mt_local_id (alone i)) {0, 1, 2}" by (simp add: ids)
  then show ?thesis
    by (auto simp: settled_cluster_def ids view_alone) (simp_all add: alone_def table_inv_new local_ok_new)
qed

section \<open>Properties\<close>





end
