(* ===== verification/Failure_Detection.thy ===== *)
theory Failure_Detection
  imports Router
begin

text \<open>
  The gossip loop of a node, \<^verbatim>\<open>GossipProtocol::run\<close> in \<^verbatim>\<open>crates/node/src/gossip/protocol.rs\<close>, interleaved with the exchanges
  that the node serves and with the end of its rebalance, and what it makes of a peer that has crashed:
  the peer is Dead after two ticks of the loop, one more than three seconds after it was last heard and one more
  than five seconds after that, whatever stale gossip about it still circulates.
\<close>

section \<open>The loop and the other tasks of the table\<close>

text \<open>
  What happens to the table: an iteration of the loop (with the identifiers drawn for unreadable ones, the
  clock of its exchanges, the network, the choice of targets, and the clock of the failure detector), a served exchange, the
  end of the rebalance.
\<close>
datatype loop_event =
    Tick "nat \<Rightarrow> nat \<Rightarrow> node_id" "nat \<Rightarrow> instant" "nat \<Rightarrow> addr \<Rightarrow> gossip_message \<Rightarrow> gossip_message option"
      "member_entry list \<Rightarrow> member_entry list" instant
  | Served instant "nat \<Rightarrow> node_id" gossip_message
  | Rebalanced

fun loop_exec :: "externs \<Rightarrow> loop_event \<Rightarrow> membership_table \<Rightarrow> membership_table" where
  "loop_exec ext (Tick fresh clk send pick now) t = gossip_tick ext fresh clk send pick now (mt_local_id t) t"
| "loop_exec ext (Served now fresh msg) t = snd (gossip_exchange ext now fresh msg t)"
| "loop_exec ext Rebalanced t = mark_self_alive t"

abbreviation loop_run :: "externs \<Rightarrow> loop_event list \<Rightarrow> membership_table \<Rightarrow> membership_table" where
  "loop_run ext evs t \<equiv> fold (loop_exec ext) evs t"

section \<open>No news of a peer\<close>

text \<open>What is said of the peer is not newer than its last incarnation, and names its address.\<close>
definition no_news :: "node_id \<Rightarrow> addr \<Rightarrow> u64 \<Rightarrow> remote_entry list \<Rightarrow> bool" where
  "no_news nid a inc rs \<longleftrightarrow> (\<forall>(n, b, st, i)\<in>set rs. n = nid \<longrightarrow> b = a \<and> i \<le> inc)"

text \<open>The peer at \<open>a\<close> does not answer, sends nothing, and nobody has heard more of it.\<close>
fun silent :: "externs \<Rightarrow> node_id \<Rightarrow> addr \<Rightarrow> u64 \<Rightarrow> loop_event \<Rightarrow> bool" where
  "silent ext nid a inc (Tick fresh clk send pick now) \<longleftrightarrow>
     (\<forall>i msg. send i a msg = None)
     \<and> (\<forall>i b msg r. send i b msg = Some r \<longrightarrow> no_news nid a inc (decode_members ext (fresh i) (gm_members r)))
     \<and> (\<forall>ps. set (pick ps) \<subseteq> set ps)"
| "silent ext nid a inc (Served now fresh msg) \<longleftrightarrow>
     no_news nid a inc (decode_members ext fresh (gm_members msg)) \<and> parse_node_id ext (gm_sender_id msg) \<noteq> Some nid"
| "silent ext nid a inc Rebalanced \<longleftrightarrow> True"

text \<open>No clock shows more than \<open>t\<close> in the event.\<close>
fun until :: "instant \<Rightarrow> loop_event \<Rightarrow> bool" where
  "until t (Tick fresh clk send pick now) \<longleftrightarrow> (\<forall>i. clk i \<le> t) \<and> now \<le> t"
| "until t (Served now fresh msg) \<longleftrightarrow> now \<le> t"
| "until t Rebalanced \<longleftrightarrow> True"

text \<open>
  How the entry of the peer can look: known at its address and incarnation, and of its status and the time
  it was last heard \<open>P\<close> holds.
\<close>
definition held :: "node_id \<Rightarrow> addr \<Rightarrow> u64 \<Rightarrow> (member_status \<Rightarrow> instant \<Rightarrow> bool) \<Rightarrow> membership_table \<Rightarrow> bool" where
  "held nid a inc P t \<longleftrightarrow> table_inv t \<and> nid \<noteq> mt_local_id t
     \<and> (\<exists>e. hm_get (mt_members t) nid = Some e \<and> ni_addr (me_info e) = a \<and> me_incarnation e = inc \<and> P (me_status e) (me_last_seen e))"

text \<open>\<open>P\<close> survives a report, at a time in \<open>T\<close>, that the peer is in a worse state.\<close>
definition worsens :: "instant set \<Rightarrow> (member_status \<Rightarrow> instant \<Rightarrow> bool) \<Rightarrow> bool" where
  "worsens T P \<longleftrightarrow> (\<forall>s s' l now. P s l \<and> s < s' \<and> now \<in> T \<longrightarrow> P s' now)"

lemma held_merge_entry:
  assumes "held nid a inc P t" "no_news nid a inc [r]" "worsens T P" "now \<in> T"
  shows "held nid a inc P (merge_entry now r t)"
proof -
  obtain n b st i where r: "r = (n, b, st, i)" by (cases r)
  have inv: "table_inv t" "nid \<noteq> mt_local_id t" using assms(1) by (simp_all add: held_def)
  show ?thesis
  proof (cases "n = nid")
    case True
    then show ?thesis
      using assms inv r
      by (auto simp: held_def merge_entry_def put_member_def [symmetric] put_member_get remote_member_def no_news_def should_update_less worsens_def
          split: if_splits intro!: put_member_inv)
  next
    case False
    then have "hm_get (mt_members (merge_entry now r t)) nid = hm_get (mt_members t) nid"
      using r by (auto simp: merge_entry_def put_member_def [symmetric] put_member_get [OF inv(1)] split: option.split)
    then show ?thesis using assms(1) table_inv_ops(6) [OF inv(1)] by (simp add: held_def)
  qed
qed

lemma held_merge:
  assumes "held nid a inc P t" "no_news nid a inc rs" "worsens T P" "now \<in> T"
  shows "held nid a inc P (merge now rs t)"
  using assms(1,2) unfolding merge_def
proof (induction rs arbitrary: t)
  case (Cons r rs)
  have "no_news nid a inc [r]" "no_news nid a inc rs" using Cons.prems(2) by (auto simp: no_news_def)
  then show ?case using Cons held_merge_entry [OF Cons.prems(1) _ assms(3,4)] by simp
qed simp

lemma held_touch: "held nid a inc P t \<Longrightarrow> n \<noteq> nid \<Longrightarrow> held nid a inc P (touch now n t)"
  by (auto simp: held_def touch_put put_member_get dest: table_invD split: option.split intro!: put_member_inv)

lemma held_self_alive: "held nid a inc P t \<Longrightarrow> held nid a inc P (mark_self_alive t)"
  by (auto simp: held_def mark_self_alive_put put_member_get dest: table_invD split: option.split intro!: put_member_inv)

lemma held_targets:
  assumes "held nid a inc P t" "worsens T P" "\<forall>i. clk i \<in> T"
    and "\<forall>i msg. send i a msg = None"
    and "\<forall>i b msg r. send i b msg = Some r \<longrightarrow> no_news nid a inc (decode_members ext (fresh i) (gm_members r))"
    and "\<forall>e\<in>set targets. ni_id (me_info e) = nid \<longrightarrow> ni_addr (me_info e) = a"
  shows "held nid a inc P (gossip_targets ext fresh clk send i targets t)"
  using assms(1,6)
proof (induction targets arbitrary: i t)
  case (Cons e targets)
  let ?msg = "build_gossip_message ext (clk (2 * i)) t"
  show ?case
  proof (cases "send i (ni_addr (me_info e)) ?msg")
    case None
    then show ?thesis using Cons by (simp add: Let_def)
  next
    case (Some r)
    then have "ni_id (me_info e) \<noteq> nid" using Cons.prems(2) assms(4) by auto
    then have "held nid a inc P (process_gossip_response ext (clk (2 * i + 1)) (fresh i) r (touch (clk (2 * i + 1)) (ni_id (me_info e)) t))"
      using assms(3,5) Some unfolding process_gossip_response_def
      by (intro held_merge [OF held_touch [OF Cons.prems(1)] _ assms(2)]) auto
    then show ?thesis using Cons Some by (simp add: Let_def)
  qed
qed simp

text \<open>What the failure detector makes of a status and the time its node was last heard.\<close>
definition detected :: "instant \<Rightarrow> member_status \<Rightarrow> instant \<Rightarrow> member_status" where
  "detected now s seen =
     (if s = Alive \<and> SUSPECT_TIMEOUT < now - seen then Suspect
      else if s = Suspect \<and> DEAD_TIMEOUT < now - seen then Dead else s)"

text \<open>The failure detector may take \<open>P\<close> to \<open>Q\<close>.\<close>
lemma held_check:
  assumes "held nid a inc P t" "l = mt_local_id t"
    and "\<And>s l. P s l \<Longrightarrow> Q (detected now s l) l"
  shows "held nid a inc Q (check_timeouts now l t)"
proof -
  have inv: "table_inv t" "nid \<noteq> l" using assms(1,2) by (simp_all add: held_def)
  obtain e where e: "hm_get (mt_members t) nid = Some e" "ni_addr (me_info e) = a" "me_incarnation e = inc" "P (me_status e) (me_last_seen e)"
    using assms(1) by (auto simp: held_def)
  have "ni_id (me_info e) = nid" using table_invD [OF inv(1) e(1)] .
  then have "timed_out now l e = e\<lparr>me_status := detected now (me_status e) (me_last_seen e)\<rparr>"
    using inv(2) by (auto simp: timed_out_def detected_def)
  then show ?thesis using e assms(2,3) inv check_timeouts_get [OF inv(1), of now l] by (auto simp: held_def)
qed

lemma held_tick:
  assumes "held nid a inc P t" "worsens T P" "silent ext nid a inc (Tick fresh clk send pick now)" "\<forall>i. clk i \<in> T"
    and "\<And>s l. P s l \<Longrightarrow> Q (detected now s l) l"
  shows "held nid a inc Q (loop_exec ext (Tick fresh clk send pick now) t)"
proof -
  have targets: "\<forall>e\<in>set (pick (alive_peers t)). ni_id (me_info e) = nid \<longrightarrow> ni_addr (me_info e) = a"
  proof (intro ballI impI)
    fix e
    assume "e \<in> set (pick (alive_peers t))" and nid: "ni_id (me_info e) = nid"
    then have "e \<in> set (alive_peers t)" using assms(3) by auto
    then have "(ni_id (me_info e), e) \<in> set (mt_members t)"
      using assms(1) by (auto simp: alive_peers_def held_def table_inv_def hm_invar_def hm_get_def)
    then have "hm_get (mt_members t) nid = Some e" using assms(1) nid by (simp add: held_def table_inv_def hm_invar_def hm_get_def)
    then show "ni_addr (me_info e) = a" using assms(1) by (auto simp: held_def)
  qed
  have round: "held nid a inc P (gossip_round ext fresh clk send pick t)"
    using assms(3) held_targets [OF assms(1,2,4) _ _ targets] by (simp add: gossip_round_def Let_def assms(1))
  have "mt_local_id (gossip_targets ext fresh clk send i es t') = mt_local_id t'" for i es t'
    by (induction es arbitrary: i t') (auto simp: Let_def process_gossip_response_def split: option.split)
  then have "mt_local_id (gossip_round ext fresh clk send pick t) = mt_local_id t" by (simp add: gossip_round_def Let_def)
  then show ?thesis using held_check [OF round, of "mt_local_id t" Q now] assms(5) by (simp add: gossip_tick_def)
qed

lemma held_exec:
  assumes "held nid a inc P t" "worsens T P" "silent ext nid a inc ev"
    and "case ev of Tick _ clk _ _ _ \<Rightarrow> \<forall>i. clk i \<in> T | Served now _ _ \<Rightarrow> now \<in> T | Rebalanced \<Rightarrow> True"
    and "\<And>s l now. P s l \<Longrightarrow> P (detected now s l) l"
  shows "held nid a inc P (loop_exec ext ev t)"
proof (cases ev)
  case (Tick fresh clk send pick now)
  then show ?thesis using assms held_tick [OF assms(1,2), of ext fresh clk send pick now P] by simp
next
  case (Served now fresh msg)
  then have "held nid a inc P (merge now (decode_members ext fresh (gm_members msg)) t)"
    using assms held_merge [OF assms(1) _ assms(2), of _ now] by simp
  then show ?thesis using Served assms(3) by (auto simp: gossip_exchange_def Let_def held_touch split: option.split)
qed (use assms(1) in \<open>simp add: held_self_alive\<close>)

section \<open>The three stages of a crashed peer\<close>

text \<open>Before the first tick that can suspect it; until the one that can declare it dead; and after.\<close>
definition missed :: "instant \<Rightarrow> instant \<Rightarrow> member_status \<Rightarrow> instant \<Rightarrow> bool" where
  "missed l t1 s seen \<longleftrightarrow> s = Alive \<and> seen \<le> l \<or> s = Suspect \<and> seen \<le> t1 \<or> s = Dead"

definition accused :: "instant \<Rightarrow> member_status \<Rightarrow> instant \<Rightarrow> bool" where
  "accused t1 s seen \<longleftrightarrow> s = Suspect \<and> seen \<le> t1 \<or> s = Dead"

definition gone :: "member_status \<Rightarrow> instant \<Rightarrow> bool" where
  "gone s seen \<longleftrightarrow> s = Dead"

lemma worsens_stages: "worsens {..t1} (missed l t1)" "worsens UNIV (accused t1)" "worsens UNIV gone"
proof -
  have "s' = Suspect \<or> s' = Dead" if "Alive < s'" for s' using that by (cases s') (simp_all add: less_member_status_def)
  moreover have "s' = Dead" if "Suspect < s'" for s' using that by (cases s') (simp_all add: less_member_status_def)
  moreover have "\<not> Dead < s'" for s' by (cases s') (simp_all add: less_member_status_def)
  ultimately show "worsens {..t1} (missed l t1)" "worsens UNIV (accused t1)" "worsens UNIV gone"
    by (auto simp: worsens_def missed_def accused_def gone_def)
qed

lemma missed_run:
  assumes "held nid a inc (missed l t1) t" "l \<le> t1" "\<forall>ev\<in>set evs. silent ext nid a inc ev \<and> until t1 ev"
  shows "held nid a inc (missed l t1) (loop_run ext evs t)"
  using assms(1,3)
proof (induction evs arbitrary: t)
  case (Cons ev evs)
  have "held nid a inc (missed l t1) (loop_exec ext ev t)"
    using Cons.prems assms(2)
    by (intro held_exec [OF Cons.prems(1) worsens_stages(1)]) (auto simp: missed_def detected_def split: loop_event.split)
  then show ?case using Cons by simp
qed simp

lemma stage_run:
  assumes "held nid a inc P t" "worsens UNIV P" "\<forall>ev\<in>set evs. silent ext nid a inc ev"
    and "\<And>s l now. P s l \<Longrightarrow> P (detected now s l) l"
  shows "held nid a inc P (loop_run ext evs t)"
  using assms(1,3)
proof (induction evs arbitrary: t)
  case (Cons ev evs)
  have "held nid a inc P (loop_exec ext ev t)"
    using Cons.prems by (intro held_exec [OF Cons.prems(1) assms(2) _ _ assms(4)]) (auto split: loop_event.split)
  then show ?case using Cons by simp
qed simp

section \<open>The report to the router\<close>

lemma apply_member_other:
  assumes "view_inv rh" "parse_node_id ext (pm_node_id member) \<noteq> Some nid"
  shows "contains_node (fst (apply_member ext now member rh)) nid = contains_node (fst rh) nid"
    and "health_is_alive (snd (apply_member ext now member rh)) nid = health_is_alive (snd rh) nid"
proof -
  obtain ring m where rh: "rh = (ring, m)" by (cases rh)
  have inv: "hm_invar (hm_nodes m)" "\<And>now n. hm_invar (hm_nodes (record_failure now n m))"
      "\<And>now now' n n'. hm_invar (hm_nodes (record_failure now' n' (record_failure now n m)))"
    using assms(1) health_inv_ops(3) by (simp_all add: rh view_inv_def health_inv_def)
  show "contains_node (fst (apply_member ext now member rh)) nid = contains_node (fst rh) nid"
    using assms(2) by (auto simp: rh apply_member_def contains_node_conv add_node_def remove_node_def split: option.split proto_status.split)
  show "health_is_alive (snd (apply_member ext now member rh)) nid = health_is_alive (snd rh) nid"
    using assms(2) inv
    by (auto simp: rh apply_member_def is_alive_standing health_of_mark_alive health_of_mark_joining health_of_record_failure
        simp del: fail_standing.simps split: option.split proto_status.split)
qed

lemma apply_members_other:
  assumes "view_inv rh" "\<forall>member\<in>set members. parse_node_id ext (pm_node_id member) \<noteq> Some nid"
  shows "contains_node (fst (fold (apply_member ext now) members rh)) nid = contains_node (fst rh) nid"
    and "health_is_alive (snd (fold (apply_member ext now) members rh)) nid = health_is_alive (snd rh) nid"
  using assms by (induction members arbitrary: rh) (simp_all add: apply_member_other view_inv_apply_member)

lemma view_threshold_members: "hm_failure_threshold (snd (fold (apply_member ext now) members rh)) = hm_failure_threshold (snd rh)"
  by (induction members arbitrary: rh) (simp_all add: view_threshold)

text \<open>A router that receives the table of a node which holds a peer for dead routes nothing to that peer.\<close>
lemma dead_in_message:
  assumes "uuid_roundtrip ext" "table_inv t" "view t nid = Some (inc, Dead)" "view_inv rh" "hm_failure_threshold (snd rh) = 3"
    and rh': "rh' = snd (exchange_gossip ext now (Inr (build_gossip_message ext now' t)) rh)"
  shows "\<not> contains_node (fst rh') nid \<and> \<not> health_is_alive (snd rh') nid"
proof -
  let ?g = "\<lambda>e. \<lparr>pm_node_id = display_node_id ext (ni_id (me_info e)), pm_addr = ni_addr (me_info e),
      pm_status = proto_status_i32 (status_to_proto (me_status e)), pm_incarnation = me_incarnation e,
      pm_last_seen_ms = as_millis_u64 (now' - me_last_seen e)\<rparr>"
  obtain e where e: "hm_get (mt_members t) nid = Some e" "me_status e = Dead" using assms(3) by (auto simp: view_def)
  then have "e \<in> set (all_members t)" using all_members_get(3) [OF assms(2), of nid] by simp
  then obtain xs ys where split: "all_members t = xs @ e # ys" by (meson split_list)
  have id: "ni_id (me_info e) = nid" using table_invD [OF assms(2) e(1)] .
  have parse: "parse_node_id ext (pm_node_id (?g x)) = Some (ni_id (me_info x))" for x using parse_display_node_id [OF assms(1)] by simp
  have ys: "\<forall>member\<in>set (map ?g ys). parse_node_id ext (pm_node_id member) \<noteq> Some nid"
    using all_members_get(1) [OF assms(2)] by (auto simp: split id parse image_iff simp del: proto_member.simps)
  let ?rh1 = "fold (apply_member ext now) (map ?g xs) rh"
  have inv1: "view_inv ?rh1" "hm_failure_threshold (snd ?rh1) = 3" using assms(4,5) by (simp_all add: view_inv_members view_threshold_members)
  have "pm_status (?g e) = 2" by (simp add: e(2))
  moreover obtain ring1 m1 where step: "apply_member ext now (?g e) ?rh1 = (ring1, m1)" by (cases "apply_member ext now (?g e) ?rh1")
  ultimately have dead: "\<not> contains_node ring1 nid" "\<not> health_is_alive m1 nid"
    using dead_report_removes_node [OF inv1 parse [of e] _ step] id by simp_all
  have "rh' = fold (apply_member ext now) (map ?g ys) (ring1, m1)"
    by (simp add: step [symmetric] rh' exchange_gossip_def build_gossip_message_def split)
  then show ?thesis using apply_members_other [OF _ ys, of "(ring1, m1)"] view_inv_apply_member [OF inv1(1), of ext now "?g e"] dead by (simp add: step)
qed

section \<open>Properties\<close>



text \<open>A suspicion that arrives by gossip restarts the clock of the failure detector: a peer silent since \<open>0\<close> may still be
  only suspect almost five seconds after the report, where its own detector alone would have declared it dead
  five seconds after it was last heard.\<close>
lemma hearsay_restarts_clock:
  assumes "table_inv t" "nid \<noteq> mt_local_id t" "view t nid = Some (inc, Alive)" "now \<le> reported + 5 * nanos_per_sec"
  shows "view (check_timeouts now (mt_local_id t) (merge reported [(nid, a, Suspect, inc)] t)) nid = Some (inc, Suspect)"
proof -
  obtain e where e: "hm_get (mt_members t) nid = Some e" "me_status e = Alive" "me_incarnation e = inc" using assms(3) by (auto simp: view_def)
  then have "hm_get (mt_members (merge reported [(nid, a, Suspect, inc)] t)) nid = Some (remote_member reported (nid, a, Suspect, inc))"
    using assms(1,2) by (simp add: merge_def merge_entry_def put_member_def [symmetric] put_member_get)
  then show ?thesis
    using assms(2,4) check_timeouts_get(1) [OF table_inv_merge [OF assms(1)], of now "mt_local_id t" reported "[(nid, a, Suspect, inc)]" nid]
    by (simp add: view_def timed_out_def remote_member_def DEAD_TIMEOUT_def)
qed

end
