(* ===== verification/Health_Loop.thy ===== *)
theory Health_Loop
  imports Router_Process
begin

text \<open>
  The health checker of the router as the task it is, \<^verbatim>\<open>start_health_checker\<close> in \<^verbatim>\<open>crates/router/src/health/mod.rs\<close>: a loop that
  probes every configured node at every tick of a timer, against a cluster that changes between the ticks.
  A node that misses as many ticks in a row as the threshold says is taken out of every preference list,
  and one answered heartbeat brings it back.
\<close>

section \<open>The loop\<close>

text \<open>A tick: the time it fires and the state the network is in.\<close>
fun checker_ticks ::
    "externs \<Rightarrow> 'w network \<Rightarrow> (node_id \<times> addr) list \<Rightarrow> (instant \<times> 'w) list \<Rightarrow> health_monitor \<times> 'w link \<Rightarrow> (health_monitor \<times> 'w link) run" where
  "checker_ticks ext net node_addrs [] mk = Inr mk"
| "checker_ticks ext net node_addrs ((now, w) # ticks) (m, k) =
     and_then (health_pass ext net now node_addrs (m, k\<lparr>lk_world := w\<rparr>)) (checker_ticks ext net node_addrs ticks)"

text \<open>The spawned task, after the given ticks. \<^verbatim>\<open>interval\<close> panics on a zero period.\<close>
definition start_health_checker ::
    "externs \<Rightarrow> 'w network \<Rightarrow> (node_id \<times> addr) list \<Rightarrow> duration \<Rightarrow> (instant \<times> 'w) list \<Rightarrow> health_monitor \<times> 'w link
     \<Rightarrow> (health_monitor \<times> 'w link) run" where
  "start_health_checker ext net node_addrs check_interval ticks mk =
     (if check_interval = 0 then Inl ZeroInterval else checker_ticks ext net node_addrs ticks mk)"

lemma checker_ticks_append:
  "checker_ticks ext net node_addrs (xs @ ys) mk = and_then (checker_ticks ext net node_addrs xs mk) (checker_ticks ext net node_addrs ys)"
proof (induction xs arbitrary: mk)
  case (Cons tick xs)
  obtain now w m k where "tick = (now, w)" "mk = (m, k)" by (cases tick; cases mk)
  then show ?case using Cons by (cases "health_pass ext net now node_addrs (m, k\<lparr>lk_world := w\<rparr>)") simp_all
qed simp

section \<open>What a pass does to a node\<close>

lemma probe_keeps:
  assumes "probe_node ext net now target (m, k) = Inr (m', k')" "health_inv m"
  shows "health_inv m'" "hm_failure_threshold m' = hm_failure_threshold m"
  using probe_outcome [OF assms(1)] assms(2) by (auto intro: health_inv_ops)

lemma pass_keeps:
  assumes "health_pass ext net now targets (m, k) = Inr (m', k')" "health_inv m"
  shows "health_inv m' \<and> hm_failure_threshold m' = hm_failure_threshold m"
  using assms
proof (induction targets arbitrary: m k)
  case (Cons target targets)
  then obtain m1 k1 where "probe_node ext net now target (m, k) = Inr (m1, k1)" "health_pass ext net now targets (m1, k1) = Inr (m', k')"
    by (auto simp: and_then_Inr_conv)
  then show ?case using Cons.IH probe_keeps [of ext net now target m k m1 k1] Cons.prems(2) by simp
qed simp

text \<open>The standing of a node: unknown nodes count as alive without failures.\<close>
abbreviation standing :: "health_monitor \<Rightarrow> node_id \<Rightarrow> node_health \<times> u32" where
  "standing m nid \<equiv> case health_of m nid of Some hc \<Rightarrow> hc | None \<Rightarrow> (HAlive, 0)"

text \<open>The effect of one tick on a node that was or was not reachable.\<close>
definition ticked :: "u32 \<Rightarrow> bool \<Rightarrow> node_health \<times> u32 \<Rightarrow> node_health \<times> u32" where
  "ticked T up hc = (if up then (HAlive, 0) else fail_standing T hc)"

lemma checker_ticks_spec:
  assumes "\<forall>(nid, a)\<in>set node_addrs. uri_ok ext (''http://'' @ a)" "distinct (map fst node_addrs)" "health_inv m"
  shows "\<exists>m' k'. checker_ticks ext cluster_net node_addrs ticks (m, k) = Inr (m', k') \<and> health_inv m'
    \<and> hm_failure_threshold m' = hm_failure_threshold m
    \<and> (\<forall>(nid, a)\<in>set node_addrs. standing m' nid = fold (\<lambda>(now, w). ticked (hm_failure_threshold m) (reachable w a)) ticks (standing m nid))"
  using assms(3)
proof (induction ticks arbitrary: m k)
  case (Cons tick ticks)
  obtain now w where tick: "tick = (now, w)" by (cases tick)
  obtain m1 k1 where one: "health_pass ext cluster_net now node_addrs (m, k\<lparr>lk_world := w\<rparr>) = Inr (m1, k1)"
    "\<forall>(nid, a)\<in>set node_addrs. health_of m1 nid = Some (if reachable w a then (HAlive, 0)
        else fail_standing (hm_failure_threshold m) (standing m nid))"
    using health_pass_outcome [OF assms(1,2) Cons.prems, of now "k\<lparr>lk_world := w\<rparr>"] by auto
  note inv = pass_keeps [OF one(1) Cons.prems]
  obtain m' k' where rest: "checker_ticks ext cluster_net node_addrs ticks (m1, k1) = Inr (m', k')" "health_inv m'"
    "hm_failure_threshold m' = hm_failure_threshold m"
    "\<forall>(nid, a)\<in>set node_addrs. standing m' nid = fold (\<lambda>(now, w). ticked (hm_failure_threshold m) (reachable w a)) ticks (standing m1 nid)"
    using Cons.IH [of m1 k1] inv by auto
  have "standing m1 nid = ticked (hm_failure_threshold m) (reachable w a) (standing m nid)" if "(nid, a) \<in> set node_addrs" for nid a
    using one(2) that by (fastforce simp: ticked_def)
  then show ?case using one(1) rest tick by (auto simp del: health_pass.simps)
qed simp

section \<open>Runs of missed ticks\<close>

lemma missed_ticks:
  assumes "\<forall>(now, w)\<in>set ticks. \<not> reachable w a"
  shows "fold (\<lambda>(now, w). ticked T (reachable w a)) ticks hc = (fail_standing T ^^ length ticks) hc"
  using assms
proof (induction ticks arbitrary: hc)
  case (Cons tick ticks)
  then show ?case by (auto simp: ticked_def funpow_swap1 simp del: fail_standing.simps split: prod.splits)
qed simp

lemma stays_dead: "fst hc = HDead \<Longrightarrow> fst ((fail_standing T ^^ n) hc) = HDead"
proof (induction n)
  case (Suc n)
  then show ?case by (cases "(fail_standing T ^^ n) hc") simp
qed simp

lemma three_or_more:
  assumes "standing_ok 3 hc" "3 \<le> n"
  shows "fst ((fail_standing 3 ^^ n) hc) = HDead"
proof -
  have "(fail_standing 3 ^^ n) hc = (fail_standing 3 ^^ (n - 3)) ((fail_standing 3 ^^ 3) hc)"
    using assms(2) by (metis funpow_add comp_apply le_add_diff_inverse2)
  then show ?thesis using stays_dead three_failures [OF assms(1)] by simp
qed

section \<open>Properties\<close>

text \<open>C19: the health checker finds crashes and recoveries: whatever happened before, a node that answers none of the
  last three ticks or more is in no preference list, for any key, ring and configuration, and a node that
  answers the last tick is not kept out; the checker itself ends at none of these ticks.\<close>
theorem crashed_node_excluded:
  assumes "\<forall>(nid, a)\<in>set node_addrs. uri_ok ext (''http://'' @ a)" "distinct (map fst node_addrs)"
    and "health_inv m" "hm_failure_threshold m = 3" "check_interval \<noteq> 0" "(nid, a) \<in> set node_addrs"
  shows "\<exists>m' k'. start_health_checker ext cluster_net node_addrs check_interval (ticks @ recent) (m, k) = Inr (m', k')
    \<and> (3 \<le> length recent \<and> (\<forall>(now, w)\<in>set recent. \<not> reachable w a) \<longrightarrow>
         (\<forall>cfg ring key. nid \<notin> ni_id ` set (alive_preference_list ext cfg ring m' key)))
    \<and> (recent \<noteq> [] \<and> reachable (snd (last recent)) a \<longrightarrow> health_is_alive m' nid)"
proof -
  let ?tick = "\<lambda>(now, w). ticked 3 (reachable w a)"
  obtain m1 k1 where m1: "checker_ticks ext cluster_net node_addrs ticks (m, k) = Inr (m1, k1)" "health_inv m1" "hm_failure_threshold m1 = 3"
    using checker_ticks_spec [OF assms(1-3), of ticks k] assms(4) by auto
  obtain m' k' where m': "checker_ticks ext cluster_net node_addrs recent (m1, k1) = Inr (m', k')" "standing m' nid = fold ?tick recent (standing m1 nid)"
    using checker_ticks_spec [OF assms(1,2) m1(2), of recent k1] m1(3) assms(6) by fastforce
  have run: "start_health_checker ext cluster_net node_addrs check_interval (ticks @ recent) (m, k) = Inr (m', k')"
    using m1(1) m'(1) assms(5) by (simp add: start_health_checker_def checker_ticks_append)
  have alive: "health_is_alive m' nid \<longleftrightarrow> fst (standing m' nid) \<noteq> HDead \<and> fst (standing m' nid) \<noteq> HJoining"
    by (auto simp: is_alive_standing split: option.split prod.split)
  have "\<not> health_is_alive m' nid" if "3 \<le> length recent" "\<forall>(now, w)\<in>set recent. \<not> reachable w a"
  proof -
    have "standing_ok 3 (standing m1 nid)" using m1(2,3) by (auto simp: health_inv_def standing_ok_def split: option.split)
    from three_or_more [OF this that(1)] show ?thesis using missed_ticks [OF that(2), of 3] m'(2) by (simp add: alive)
  qed
  moreover have "nid \<notin> ni_id ` set (alive_preference_list ext cfg ring m' key)" if "\<not> health_is_alive m' nid" for cfg ring key
    using that by (auto simp: alive_preference_list_def take_alive_take dest!: in_set_takeD)
  moreover have "health_is_alive m' nid" if "recent \<noteq> []" "reachable (snd (last recent)) a"
  proof -
    have "fold ?tick (butlast recent @ [last recent]) hc = ?tick (last recent) (fold ?tick (butlast recent) hc)" for hc by simp
    then have "fold ?tick recent hc = ?tick (last recent) (fold ?tick (butlast recent) hc)" for hc using that(1) by simp
    then show ?thesis using that(2) m'(2) by (auto simp: alive ticked_def split: prod.splits)
  qed
  ultimately show ?thesis using run by blast
qed

theorem crashed_node_excluded_witness:
  "\<exists>m' k'. start_health_checker demo_ext cluster_net [(NodeId 1, ''n1'')] 5 ([] @ [(1, demo_cluster False), (2, demo_cluster False), (3, demo_cluster False)])
        (monitor_new, \<lparr>lk_pool = [], lk_world = demo_cluster True\<rparr>) = Inr (m', k')
     \<and> (\<forall>cfg ring key. NodeId 1 \<notin> ni_id ` set (alive_preference_list demo_ext cfg ring m' key))"
proof -
  let ?down = "[(1, demo_cluster False), (2, demo_cluster False), (3, demo_cluster False)]"
  have "\<not> reachable (demo_cluster False) ''n1''" by (simp add: reachable_def demo_cluster_def)
  then have down: "3 \<le> length ?down \<and> (\<forall>(now, w)\<in>set ?down. \<not> reachable w ''n1'')" by simp
  have "\<forall>(nid, a)\<in>set [(NodeId 1, ''n1'')]. uri_ok demo_ext (''http://'' @ a)" "hm_failure_threshold monitor_new = 3"
    by (simp_all add: demo_ext_def monitor_new_def)
  from crashed_node_excluded [OF this(1) _ health_inv_new this(2), of 5 "NodeId 1" "''n1''" "[]" ?down] down
  show ?thesis by fastforce
qed

end
