(* ===== verification/Std_Net.thy ===== *)
theory Std_Net
  imports Std_Text
begin

text \<open>
  How Rust's standard library reads a socket address from text (\<^verbatim>\<open>FromStr for SocketAddr\<close>), which both programs do
  with their \<^verbatim>\<open>--addr\<close>: numeric addresses only, so that a host name is refused. The readers take the
  text that is left and give back what they leave of it; a reader that fails leaves everything. Shown here: every IPv4
  address, printed with its port, is read back.
\<close>

section \<open>Readers\<close>

datatype socket_addr =
    SocketV4 "nat list" nat
  | SocketV6 "nat list" nat nat

definition read_given :: "char \<Rightarrow> bytes \<Rightarrow> bytes option" where
  "read_given c s = (case s of x # xs \<Rightarrow> if x = c then Some xs else None | [] \<Rightarrow> None)"

text \<open>The value of a digit in a radix up to 16.\<close>
definition hex_digit :: "nat \<Rightarrow> char \<Rightarrow> nat option" where
  "hex_digit radix c =
     (let b = (of_char c :: nat);
          v = (if 48 \<le> b \<and> b \<le> 57 then b - 48
               else if 97 \<le> b \<and> b \<le> 102 then b - 87
               else if 65 \<le> b \<and> b \<le> 70 then b - 55 else radix) in
      if v < radix then Some v else None)"

text \<open>
  All digits that follow: at most \<open>max_digits\<close>, below \<open>limit\<close>, and without a leading zero unless
  allowed. Rust notices an overflow on the way; the value only grows, so looking at the end is the same.
\<close>
definition read_number :: "nat \<Rightarrow> nat option \<Rightarrow> bool \<Rightarrow> nat \<Rightarrow> bytes \<Rightarrow> (nat \<times> bytes) option" where
  "read_number radix max_digits allow_zero_prefix limit s =
     (let ds = takeWhile (\<lambda>c. hex_digit radix c \<noteq> None) s;
          n = foldl (\<lambda>a c. a * radix + the (hex_digit radix c)) 0 ds in
      if ds = [] \<or> (case max_digits of None \<Rightarrow> False | Some m \<Rightarrow> m < length ds)
         \<or> \<not> allow_zero_prefix \<and> hd ds = CHR ''0'' \<and> 1 < length ds \<or> limit \<le> n
      then None else Some (n, drop (length ds) s))"

definition read_separator :: "char \<Rightarrow> nat \<Rightarrow> (bytes \<Rightarrow> 'a option) \<Rightarrow> bytes \<Rightarrow> 'a option" where
  "read_separator sep index inner s = (if 0 < index then Option.bind (read_given sep s) inner else inner s)"

text \<open>\<open>n\<close> more groups of an IPv4 address, the first of them at \<open>index\<close>.\<close>
fun read_octets :: "nat \<Rightarrow> nat \<Rightarrow> bytes \<Rightarrow> (nat list \<times> bytes) option" where
  "read_octets 0 index s = Some ([], s)"
| "read_octets (Suc n) index s =
     Option.bind (read_separator (CHR ''.'') index (read_number 10 (Some 3) False 256) s) (\<lambda>(g, s').
     map_option (apfst (Cons g)) (read_octets n (index + 1) s'))"

definition read_ipv4_addr :: "bytes \<Rightarrow> (nat list \<times> bytes) option" where
  "read_ipv4_addr s = read_octets 4 0 s"

text \<open>Up to \<open>n\<close> more groups of an IPv6 address; an IPv4 address counts for two and ends them.\<close>
fun read_groups :: "nat \<Rightarrow> nat \<Rightarrow> bytes \<Rightarrow> nat list \<times> bool \<times> bytes" where
  "read_groups 0 index s = ([], False, s)"
| "read_groups (Suc n) index s =
     (case (if 0 < n then read_separator (CHR '':'') index read_ipv4_addr s else None) of
        Some (g, s') \<Rightarrow> ([g ! 0 * 256 + g ! 1, g ! 2 * 256 + g ! 3], True, s')
      | None \<Rightarrow>
          (case read_separator (CHR '':'') index (read_number 16 (Some 4) True 65536) s of
             Some (g, s') \<Rightarrow> apfst (Cons g) (read_groups n (index + 1) s')
           | None \<Rightarrow> ([], False, s)))"

definition read_ipv6_addr :: "bytes \<Rightarrow> (nat list \<times> bytes) option" where
  "read_ipv6_addr s =
     (let (head, head_ipv4, s') = read_groups 8 0 s in
      if length head = 8 then Some (head, s')
      else if head_ipv4 then None
      else Option.bind (read_given (CHR '':'') s') (\<lambda>s'. map_option (\<lambda>s'.
             let (tail, _, s') = read_groups (8 - (length head + 1)) 0 s' in
             (head @ replicate (8 - length head - length tail) 0 @ tail, s')) (read_given (CHR '':'') s')))"

definition read_port :: "bytes \<Rightarrow> (nat \<times> bytes) option" where
  "read_port s = Option.bind (read_given (CHR '':'') s) (read_number 10 None True 65536)"

definition read_scope_id :: "bytes \<Rightarrow> (nat \<times> bytes) option" where
  "read_scope_id s = Option.bind (read_given (CHR ''%'') s) (read_number 10 None True (2 ^ 32))"

definition read_socket_addr_v4 :: "bytes \<Rightarrow> (socket_addr \<times> bytes) option" where
  "read_socket_addr_v4 s =
     Option.bind (read_ipv4_addr s) (\<lambda>(ip, s). map_option (apfst (SocketV4 ip)) (read_port s))"

definition read_socket_addr_v6 :: "bytes \<Rightarrow> (socket_addr \<times> bytes) option" where
  "read_socket_addr_v6 s =
     Option.bind (read_given (CHR ''['') s) (\<lambda>s.
     Option.bind (read_ipv6_addr s) (\<lambda>(ip, s).
     let (scope_id, s) = (case read_scope_id s of Some r \<Rightarrow> r | None \<Rightarrow> (0, s)) in
     Option.bind (read_given (CHR '']'') s) (\<lambda>s.
     map_option (apfst (\<lambda>port. SocketV6 ip scope_id port)) (read_port s))))"

definition parse_socket_addr :: "bytes \<Rightarrow> socket_addr option" where
  "parse_socket_addr s =
     (case (case read_socket_addr_v4 s of Some r \<Rightarrow> Some r | None \<Rightarrow> read_socket_addr_v6 s) of
        Some (a, []) \<Rightarrow> Some a
      | _ \<Rightarrow> None)"

section \<open>Reading back what was printed\<close>

lemma hex_digit_10: "hex_digit 10 c = to_digit c"
  by (auto simp: hex_digit_def to_digit_def Let_def)

lemma dec_nat_digits: "\<forall>c\<in>set (dec_nat n). to_digit c \<noteq> None"
  using dec_nat_ascii [of n] by (simp add: to_digit_def Let_def)

lemma dec_nat_value: "foldl (\<lambda>a c. a * 10 + the (to_digit c)) 0 (dec_nat n) = n"
proof (induction n rule: dec_nat.induct)
  case (1 n)
  then show ?case by (subst dec_nat.simps) simp
qed

lemma dec_nat_length: "n < 10 ^ Suc k \<Longrightarrow> length (dec_nat n) \<le> Suc k"
proof (induction k arbitrary: n)
  case (Suc k)
  then show ?case using Suc.IH [of "n div 10"] by (subst dec_nat.simps) (simp add: less_mult_imp_div_less mult.commute)
qed (simp add: dec_nat.simps)

lemma dec_nat_leading: "n \<noteq> 0 \<Longrightarrow> hd (dec_nat n) \<noteq> CHR ''0''"
proof (induction n rule: dec_nat.induct)
  case (1 n)
  have "digit_char n \<noteq> CHR ''0''" if "n < 10" using that 1(2) to_digit_digit_char [OF that] by (auto simp: to_digit_def)
  then show ?case using 1 by (subst dec_nat.simps) auto
qed

text \<open>A printed number is read up to the next character that is not a digit.\<close>
lemma read_number_dec_nat:
  assumes "n < limit" "case s of [] \<Rightarrow> True | c # _ \<Rightarrow> to_digit c = None" "case max_digits of None \<Rightarrow> True | Some m \<Rightarrow> length (dec_nat n) \<le> m"
  shows "read_number 10 max_digits allow_zero_prefix limit (dec_nat n @ s) = Some (n, s)"
proof -
  have "takeWhile (\<lambda>c. to_digit c \<noteq> None) (dec_nat n @ s) = dec_nat n"
    using dec_nat_digits [of n] assms(2) by (cases s) (simp_all add: takeWhile_append)
  moreover have "\<not> (hd (dec_nat n) = CHR ''0'' \<and> 1 < length (dec_nat n))"
    using dec_nat_leading [of n] by (cases "n = 0") (simp_all add: dec_nat.simps)
  ultimately show ?thesis using assms(1,3) by (auto simp: read_number_def hex_digit_10 dec_nat_value Let_def split: option.splits)
qed

text \<open>\<^verbatim>\<open>Display for SocketAddrV4\<close>\<close>
definition show_socket_v4 :: "nat \<Rightarrow> nat \<Rightarrow> nat \<Rightarrow> nat \<Rightarrow> nat \<Rightarrow> bytes" where
  "show_socket_v4 a b c d port = dec_nat a @ ''.'' @ dec_nat b @ ''.'' @ dec_nat c @ ''.'' @ dec_nat d @ '':'' @ dec_nat port"

lemma parse_show_v4:
  assumes "a < 256" "b < 256" "c < 256" "d < 256" "port < 65536"
  shows "parse_socket_addr (show_socket_v4 a b c d port) = Some (SocketV4 [a, b, c, d] port)"
proof -
  have octet: "read_number 10 (Some 3) False 256 (dec_nat n @ x # s) = Some (n, x # s)" if "n < 256" "x \<in> {CHR ''.'', CHR '':''}" for n x s
    using that dec_nat_length [of n 2] by (intro read_number_dec_nat) (auto simp: to_digit_def)
  have "read_number 10 None True 65536 (dec_nat port) = Some (port, [])" using read_number_dec_nat [of port 65536 "[]" None True] assms(5) by simp
  moreover have "read_octets 4 0 s = read_octets (Suc (Suc (Suc (Suc 0)))) 0 s" for s by (simp add: eval_nat_numeral del: read_octets.simps)
  ultimately have "read_socket_addr_v4 (show_socket_v4 a b c d port) = Some (SocketV4 [a, b, c, d] port, [])"
    using assms by (simp add: read_socket_addr_v4_def read_ipv4_addr_def show_socket_v4_def read_separator_def octet read_given_def read_port_def)
  then show ?thesis by (simp add: parse_socket_addr_def)
qed

end
