(* ===== verification/Resp_Listener.thy ===== *)
theory Resp_Listener
  imports Resp_Server
begin

text \<open>
  The accept loop of the RESP server, \<^verbatim>\<open>start_resp_server\<close> in \<^verbatim>\<open>crates/node/src/resp/server.rs\<close>, with its connections as tasks
  that share the store, interleaved command by command with one another and with the rest of the node,
  and the \<^verbatim>\<open>select!\<close> with which \<^verbatim>\<open>crates/node/src/main.rs\<close> runs it. It justifies the model of a single connection in
  \<open>Resp_Server\<close>, where other tasks appear as a function that changes the store between two commands.
\<close>

section \<open>The listener and its connections\<close>

text \<open>Where the task of a connection is: waiting for a read, in its inner loop, or gone.\<close>
datatype link_phase = Reading | Working | Closed | Panicked panic

record resp_server =
  sv_store :: cache_store
  sv_listening :: bool
  sv_links :: "nat \<Rightarrow> (link_phase \<times> conn) option"
  sv_log :: "(nat \<times> (instant \<times> instant) \<times> cache_store) list"

text \<open>
  \<open>sv_log\<close> records which connection executed a command, at which readings of the clock and on which
  store; nothing depends on it.
\<close>
definition start_resp_server :: "cache_store \<Rightarrow> resp_server" where
  "start_resp_server st = \<lparr>sv_store = st, sv_listening = True, sv_links = (\<lambda>_. None), sv_log = []\<rparr>"

text \<open>
  The events of the server: a connection is accepted or accepting fails, which ends the listener but not the
  connections; a read returns bytes (none: the end of the stream) or fails; the inner loop of a
  connection takes one turn; its write fails after the command has been executed. Other tasks of the node
  change the store.
\<close>
datatype resp_event =
    Accept nat
  | AcceptError
  | Read nat bytes
  | ReadError nat
  | Turn nat "instant \<times> instant"
  | TurnLost nat "instant \<times> instant"
  | Other "cache_store \<Rightarrow> cache_store"

definition new_conn :: "cache_store \<Rightarrow> conn" where
  "new_conn st = \<lparr>c_buf = [], c_out = [], c_done = 0, c_store = st\<rparr>"

definition set_link :: "nat \<Rightarrow> link_phase \<times> conn \<Rightarrow> resp_server \<Rightarrow> resp_server" where
  "set_link i lc s = s\<lparr>sv_links := (sv_links s)(i \<mapsto> lc)\<rparr>"

text \<open>One turn of the inner loop; \<open>written\<close> says whether the reply reaches the client.\<close>
definition turn :: "nat \<Rightarrow> nat \<Rightarrow> instant \<times> instant \<Rightarrow> bool \<Rightarrow> conn \<Rightarrow> resp_server \<Rightarrow> resp_server" where
  "turn cap i clock written c s =
     (if c_buf c = [] then set_link i (Reading, c) s
      else (case parse_resp cap (c_buf c) of
              Inl p \<Rightarrow> set_link i (Panicked p, c\<lparr>c_buf := []\<rparr>) s
            | Inr (Complete v consumed) \<Rightarrow>
                (let s' = s\<lparr>sv_log := sv_log s @ [(i, clock, sv_store s)]\<rparr>
                 in case handle_command clock v (sv_store s) of
                   Inl p \<Rightarrow> set_link i (Panicked p, c\<lparr>c_buf := []\<rparr>) s'
                 | Inr (response, st) \<Rightarrow>
                     if written
                     then set_link i (Working, c\<lparr>c_buf := drop consumed (c_buf c), c_out := c_out c @ [response],
                            c_done := c_done c + 1, c_store := st\<rparr>) (s'\<lparr>sv_store := st\<rparr>)
                     else set_link i (Closed, c) (s'\<lparr>sv_store := st\<rparr>))
            | Inr Incomplete \<Rightarrow> set_link i (Reading, c) s
            | Inr (ParseError e) \<Rightarrow>
                if written
                then set_link i (Reading, c\<lparr>c_buf := [], c_out := c_out c @ [encode_error (''ERR '' @ e)]\<rparr>) s
                else set_link i (Closed, c) s))"

fun resp_exec :: "nat \<Rightarrow> resp_event \<Rightarrow> resp_server \<Rightarrow> resp_server" where
  "resp_exec cap (Accept i) s =
     (if sv_listening s \<and> sv_links s i = None then set_link i (Reading, new_conn (sv_store s)) s else s)"
| "resp_exec cap AcceptError s = s\<lparr>sv_listening := False\<rparr>"
| "resp_exec cap (Read i chunk) s =
     (case sv_links s i of
        Some (Reading, c) \<Rightarrow>
          set_link i (if chunk = [] then (Closed, c) else (Working, c\<lparr>c_buf := c_buf c @ chunk\<rparr>)) s
      | _ \<Rightarrow> s)"
| "resp_exec cap (ReadError i) s = (case sv_links s i of Some (Reading, c) \<Rightarrow> set_link i (Closed, c) s | _ \<Rightarrow> s)"
| "resp_exec cap (Turn i clock) s = (case sv_links s i of Some (Working, c) \<Rightarrow> turn cap i clock True c s | _ \<Rightarrow> s)"
| "resp_exec cap (TurnLost i clock) s = (case sv_links s i of Some (Working, c) \<Rightarrow> turn cap i clock False c s | _ \<Rightarrow> s)"
| "resp_exec cap (Other f) s = s\<lparr>sv_store := f (sv_store s)\<rparr>"

abbreviation resp_run :: "nat \<Rightarrow> resp_event list \<Rightarrow> resp_server \<Rightarrow> resp_server" where
  "resp_run cap evs s \<equiv> fold (resp_exec cap) evs s"

text \<open>The bytes a connection has read, and the commands it has executed.\<close>
fun reads :: "nat \<Rightarrow> nat \<Rightarrow> resp_event list \<Rightarrow> resp_server \<Rightarrow> bytes list" where
  "reads cap i [] s = []"
| "reads cap i (ev # evs) s =
     (case ev of
        Read j chunk \<Rightarrow> (if j = i \<and> (\<exists>c. sv_links s i = Some (Reading, c)) then [chunk] else [])
      | _ \<Rightarrow> []) @ reads cap i evs (resp_exec cap ev s)"

definition commands_of :: "nat \<Rightarrow> resp_server \<Rightarrow> ((instant \<times> instant) \<times> cache_store) list" where
  "commands_of i s = map snd (filter (\<lambda>e. fst e = i) (sv_log s))"

text \<open>The executor a connection sees: its \<open>n\<close>-th command at that reading of the clock, on that store.\<close>
definition seen :: "((instant \<times> instant) \<times> cache_store) list \<Rightarrow> executor" where
  "seen log = serve (\<lambda>n. fst (log ! n)) (\<lambda>n st. snd (log ! n))"

section \<open>Every connection is served as if it were alone\<close>

lemma handle_connection_snoc:
  "[] \<notin> set chunks \<Longrightarrow> handle_connection cap exec (chunks @ [chunk]) c =
     (case handle_connection cap exec chunks c of
        (c', None) \<Rightarrow> if chunk = [] then (c', None) else process_buffer cap exec (c'\<lparr>c_buf := c_buf c' @ chunk\<rparr>)
      | (c', Some p) \<Rightarrow> (c', Some p))"
proof (induction chunks arbitrary: c)
  case Nil
  then show ?case by (auto split: prod.split option.split)
next
  case (Cons ch chunks)
  then show ?case by (auto split: prod.split option.split)
qed

lemma reads_append: "reads cap i (evs @ evs') s = reads cap i evs s @ reads cap i evs' (resp_run cap evs s)"
  by (induction evs arbitrary: s) simp_all

definition agrees_with :: "executor \<Rightarrow> ((instant \<times> instant) \<times> cache_store) list \<Rightarrow> bool" where
  "agrees_with exec log \<longleftrightarrow> (\<forall>n<length log. \<forall>v st. exec n v st = handle_command (fst (log ! n)) v (snd (log ! n)))"

lemma agrees_prefix: "agrees_with exec (log @ log') \<Longrightarrow> agrees_with exec log"
  by (force simp: agrees_with_def nth_append)

lemma agrees_last: "agrees_with exec (log @ [(clock, st)]) \<Longrightarrow> exec (length log) v st' = handle_command clock v st"
  by (force simp: agrees_with_def)

lemma seen_agrees: "agrees_with (seen log) log"
  by (simp add: agrees_with_def seen_def serve_def)

fun outcome :: "nat \<Rightarrow> executor \<Rightarrow> link_phase \<times> conn \<Rightarrow> conn \<times> panic option" where
  "outcome cap exec (Working, c) = process_buffer cap exec c"
| "outcome cap exec (Panicked p, c) = (c, Some p)"
| "outcome cap exec (_, c) = (c, None)"

definition link_inv :: "nat \<Rightarrow> nat \<Rightarrow> bytes list \<Rightarrow> resp_server \<Rightarrow> bool" where
  "link_inv cap i chunks s \<longleftrightarrow>
     (case sv_links s i of
        None \<Rightarrow> chunks = [] \<and> commands_of i s = []
      | Some (ph, c) \<Rightarrow>
          (ph = Reading \<or> ph = Working \<longrightarrow> c_done c = length (commands_of i s) \<and> [] \<notin> set chunks)
          \<and> (\<exists>st0. \<forall>exec. agrees_with exec (commands_of i s) \<longrightarrow> handle_connection cap exec chunks (new_conn st0) = outcome cap exec (ph, c)))"

lemma commands_of_link [simp]: "commands_of i (set_link j lc s) = commands_of i s" "commands_of i (s\<lparr>sv_store := st\<rparr>) = commands_of i s"
  "commands_of i (s\<lparr>sv_listening := l\<rparr>) = commands_of i s"
  by (simp_all add: commands_of_def set_link_def)

lemma commands_of_log: "commands_of i (s\<lparr>sv_log := sv_log s @ [(j, clock, st)]\<rparr>) = commands_of i s @ (if j = i then [(clock, st)] else [])"
  by (simp add: commands_of_def)

lemma set_link_links [simp]: "sv_links (set_link j lc s) = (sv_links s)(j \<mapsto> lc)"
  by (simp add: set_link_def)

lemma turn_other: "j \<noteq> i \<Longrightarrow> sv_links (turn cap j clock b c s) i = sv_links s i \<and> commands_of i (turn cap j clock b c s) = commands_of i s"
  by (auto simp: turn_def Let_def commands_of_log split: sum.split parse_result.split)

lemma link_inv_turn:
  assumes "link_inv cap i chunks s" "sv_links s i = Some (Working, c)"
  shows "link_inv cap i chunks (turn cap i clock True c s)"
proof -
  obtain st0 where inv: "c_done c = length (commands_of i s)" "[] \<notin> set chunks"
    and run: "\<And>exec. agrees_with exec (commands_of i s) \<Longrightarrow> handle_connection cap exec chunks (new_conn st0) = process_buffer cap exec c"
    using assms by (auto simp: link_inv_def)
  note step = process_buffer.simps [of cap _ c]
  show ?thesis
  proof (cases "c_buf c = []")
    case True
    then show ?thesis using inv run step by (auto simp: turn_def link_inv_def)
  next
    case False
    show ?thesis
    proof (cases "parse_resp cap (c_buf c)")
      case (Inl p)
      then show ?thesis using inv run False step by (auto simp: turn_def link_inv_def)
    next
      case (Inr r)
      show ?thesis
      proof (cases r)
        case (Complete v n)
        have exec: "exec (c_done c) v st = handle_command clock v (sv_store s)" if "agrees_with exec (commands_of i s @ [(clock, sv_store s)])" for exec st
          using agrees_last [OF that] inv(1) by simp
        have run': "handle_connection cap exec chunks (new_conn st0) =
            (case handle_command clock v (sv_store s) of
               Inl p \<Rightarrow> (c\<lparr>c_buf := []\<rparr>, Some p)
             | Inr (response, st) \<Rightarrow> process_buffer cap exec (c\<lparr>c_buf := drop n (c_buf c), c_out := c_out c @ [response],
                 c_done := c_done c + 1, c_store := st\<rparr>))"
          if "agrees_with exec (commands_of i s @ [(clock, sv_store s)])" for exec
          using run [OF agrees_prefix [OF that]] step [of exec] exec [OF that] False Inr Complete by simp
        show ?thesis
          using inv run' False Inr Complete
          by (cases "handle_command clock v (sv_store s)")
            (auto simp: turn_def link_inv_def Let_def commands_of_log intro!: exI [of _ st0] split: prod.split)
      qed (use inv run False Inr step in \<open>auto simp: turn_def link_inv_def\<close>)
    qed
  qed
qed

lemma link_inv_same:
  "sv_links s' i = sv_links s i \<Longrightarrow> commands_of i s' = commands_of i s \<Longrightarrow> link_inv cap i chunks s \<Longrightarrow> link_inv cap i chunks s'"
  by (simp only: link_inv_def)

text \<open>What concerns another connection, or this one at another point, changes nothing for it.\<close>
lemma link_inv_idle:
  assumes "link_inv cap i chunks s"
  shows "\<nexists>c. sv_links s i = Some (Reading, c) \<Longrightarrow> link_inv cap i chunks (resp_exec cap (Read i chunk) s)"
    and "\<nexists>c. sv_links s i = Some (Reading, c) \<Longrightarrow> link_inv cap i chunks (resp_exec cap (ReadError i) s)"
    and "\<nexists>c. sv_links s i = Some (Working, c) \<Longrightarrow> link_inv cap i chunks (resp_exec cap (Turn i clock) s)"
    and "j \<noteq> i \<Longrightarrow> link_inv cap i chunks (resp_exec cap (Read j chunk) s)"
    and "j \<noteq> i \<Longrightarrow> link_inv cap i chunks (resp_exec cap (ReadError j) s)"
    and "j \<noteq> i \<Longrightarrow> link_inv cap i chunks (resp_exec cap (Turn j clock) s)"
    and "j \<noteq> i \<Longrightarrow> link_inv cap i chunks (resp_exec cap (TurnLost j clock) s)"
  by (rule link_inv_same [OF _ _ assms]; auto simp: turn_other split: option.split link_phase.split)+

lemma link_inv_read:
  assumes inv: "link_inv cap i chunks s" and c: "sv_links s i = Some (Reading, c)"
  shows "link_inv cap i (chunks @ [chunk]) (resp_exec cap (Read i chunk) s)" "link_inv cap i chunks (resp_exec cap (ReadError i) s)"
proof -
  obtain st0 where "[] \<notin> set chunks" "c_done c = length (commands_of i s)"
    and "\<And>exec. agrees_with exec (commands_of i s) \<Longrightarrow> handle_connection cap exec chunks (new_conn st0) = (c, None)"
    using inv c by (auto simp: link_inv_def)
  then show "link_inv cap i (chunks @ [chunk]) (resp_exec cap (Read i chunk) s)" "link_inv cap i chunks (resp_exec cap (ReadError i) s)"
    using c by (auto simp: link_inv_def handle_connection_snoc intro!: exI [of _ st0])
qed

lemma link_inv_exec:
  assumes inv: "link_inv cap i chunks s" and "\<forall>clock. ev \<noteq> TurnLost i clock"
  shows "link_inv cap i (chunks @ reads cap i [ev] s) (resp_exec cap ev s)"
proof (cases ev)
  case (Accept j)
  then show ?thesis using inv by (cases "sv_links s i") (auto simp: link_inv_def new_conn_def)
next
  case (Read j chunk)
  then show ?thesis
    using link_inv_read(1) [OF inv] link_inv_idle(1,4) [OF inv] by (cases "j = i"; cases "\<exists>c. sv_links s i = Some (Reading, c)") (auto simp del: resp_exec.simps)
next
  case (ReadError j)
  then show ?thesis
    using link_inv_read(2) [OF inv] link_inv_idle(2,5) [OF inv] by (cases "j = i"; cases "\<exists>c. sv_links s i = Some (Reading, c)") (auto simp del: resp_exec.simps)
next
  case (Turn j clock)
  have "link_inv cap i chunks (resp_exec cap (Turn i clock) s)"
  proof (cases "\<exists>c. sv_links s i = Some (Working, c)")
    case True
    then obtain c where c: "sv_links s i = Some (Working, c)" by blast
    from link_inv_turn [OF inv c, of clock] show ?thesis by (simp add: c)
  next
    case False
    then show ?thesis by (rule link_inv_idle(3) [OF inv])
  qed
  then show ?thesis using Turn link_inv_idle(6) [OF inv, of j clock] by (cases "j = i") (simp_all del: resp_exec.simps)
next
  case (TurnLost j clock)
  then show ?thesis using assms(2) link_inv_idle(7) [OF inv] by auto
qed (use link_inv_same [OF _ _ inv] in simp_all)

lemma link_inv_run:
  assumes "\<forall>clock. TurnLost i clock \<notin> set evs"
  shows "link_inv cap i (reads cap i evs (start_resp_server st)) (resp_run cap evs (start_resp_server st))"
  using assms
proof (induction evs rule: rev_induct)
  case Nil
  then show ?case by (simp add: link_inv_def start_resp_server_def commands_of_def)
next
  case (snoc ev evs)
  then have "link_inv cap i (reads cap i evs (start_resp_server st)) (resp_run cap evs (start_resp_server st))" "\<forall>clock. ev \<noteq> TurnLost i clock" by auto
  then show ?case using link_inv_exec by (simp add: reads_append del: reads.simps)
qed

section \<open>The select of main\<close>

text \<open>
  \<^verbatim>\<open>main\<close> runs the gRPC server, the RESP server and the wait for Ctrl-C in one \<^verbatim>\<open>select!\<close>: when the first of them ends,
  the process does, and with it every connection. \<open>None\<close>: the process is gone.
\<close>
datatype main_event = RespEvent resp_event | GrpcEnds | CtrlC

fun main_exec :: "nat \<Rightarrow> main_event \<Rightarrow> resp_server option \<Rightarrow> resp_server option" where
  "main_exec cap ev None = None"
| "main_exec cap (RespEvent ev) (Some s) = (let s' = resp_exec cap ev s in if sv_listening s' then Some s' else None)"
| "main_exec cap GrpcEnds (Some s) = None"
| "main_exec cap CtrlC (Some s) = None"

lemma main_run_None: "fold (main_exec cap) evs None = None"
  by (induction evs) simp_all

section \<open>Properties\<close>


definition two_pings :: "resp_event list" where
  "two_pings = [Accept 0, Accept 1, Read 0 ping_bytes, Read 1 ping_bytes, Turn 1 (5, 5), Turn 0 (6, 6), Turn 0 (7, 7)]"


text \<open>One failed \<^verbatim>\<open>accept\<close> of the RESP listener ends the node: the error leaves the server's loop, \<^verbatim>\<open>select!\<close> ends
  with it, and \<^verbatim>\<open>main\<close> returns, whatever the gRPC server and the open connections were doing.\<close>
lemma accept_error_ends_node:
  "fold (main_exec cap) (before @ RespEvent AcceptError # rest) s = None"
  by (cases "fold (main_exec cap) before s") (simp_all add: main_run_None)

end
