(* ===== verification/Start_Up.thy ===== *)
theory Start_Up
  imports Std_Net Node_Process Router_Process Resp_Listener
begin

text \<open>
  How the two programs start and end: the command line of a node and the errors with which the \<^verbatim>\<open>main\<close> of
  \<^verbatim>\<open>crates/node/src/main.rs\<close> and that of \<^verbatim>\<open>crates/router/src/main.rs\<close> return, around the states that \<open>node_main\<close> and
  \<open>router_main\<close> set up. Shown here: the exit status of a node speaks of its arguments only, never of its
  servers, while the router's speaks of both.
\<close>

section \<open>A node\<close>

record node_args =
  na_addr :: bytes
  na_id :: "bytes option"
  na_resp_addr :: bytes
  na_seed_nodes :: bytes

text \<open>What \<^verbatim>\<open>clap\<close> makes of the options: two have defaults, one is required.\<close>
definition node_args_of :: "bytes \<Rightarrow> bytes option \<Rightarrow> bytes option \<Rightarrow> bytes option \<Rightarrow> node_args" where
  "node_args_of addr id_opt resp_addr seeds =
     \<lparr>na_addr = addr, na_id = id_opt,
      na_resp_addr = (case resp_addr of None \<Rightarrow> ''127.0.0.1:6379'' | Some a \<Rightarrow> a),
      na_seed_nodes = (case seeds of None \<Rightarrow> '''' | Some s \<Rightarrow> s)\<rparr>"

text \<open>What \<^verbatim>\<open>main\<close> returns: an error, in the order in which it can meet them, or success.\<close>
datatype main_error = InvalidId | InvalidAddr | ConfigError bytes | ServeError bytes

datatype exit_status = Running | Failure main_error | Success | Aborted panic

text \<open>The state and the address to serve on; an error before the \<^verbatim>\<open>select!\<close> leaves \<^verbatim>\<open>main\<close>.\<close>
definition start_node :: "externs \<Rightarrow> instant \<Rightarrow> node_id \<Rightarrow> (nat \<Rightarrow> node_id) \<Rightarrow> node_args \<Rightarrow> main_error + socket_addr \<times> proc" where
  "start_node ext now drawn fresh args =
     (case node_main ext now drawn fresh (na_id args) (na_seed_nodes args) of
        None \<Rightarrow> Inl InvalidId
      | Some p \<Rightarrow>
          (case parse_socket_addr (na_addr args) of
             None \<Rightarrow> Inl InvalidAddr
           | Some grpc_addr \<Rightarrow> Inr (grpc_addr, p)))"

text \<open>
  The \<^verbatim>\<open>select!\<close>: a server that cannot bind its address ends at once, one that could ends by one of
  the events of \<open>main_exec\<close>. Errors of the servers are logged, and \<^verbatim>\<open>main\<close> returns \<^verbatim>\<open>Ok(())\<close>.
\<close>
definition node_status ::
    "externs \<Rightarrow> (socket_addr \<Rightarrow> bool) \<Rightarrow> (bytes \<Rightarrow> bool) \<Rightarrow> nat \<Rightarrow> instant \<Rightarrow> node_id \<Rightarrow> (nat \<Rightarrow> node_id) \<Rightarrow> node_args \<Rightarrow> main_event list \<Rightarrow> exit_status" where
  "node_status ext bind_grpc bind_resp cap now drawn fresh args evs =
     (case start_node ext now drawn fresh args of
        Inl e \<Rightarrow> Failure e
      | Inr (grpc_addr, p) \<Rightarrow>
          if \<not> bind_grpc grpc_addr \<or> \<not> bind_resp (na_resp_addr args) then Success
          else (case fold (main_exec cap) evs (Some (start_resp_server (ns_store (pr_node p)))) of
                  None \<Rightarrow> Success
                | Some _ \<Rightarrow> Running))"

section \<open>The router\<close>

datatype serve_outcome = Serving | Stopped | ServeFailed bytes

text \<open>\<open>serve\<close> is how the gRPC server on an address fares: a failure to bind is one of its errors.\<close>
definition router_status ::
    "externs \<Rightarrow> (bytes \<Rightarrow> bytes + bytes) \<Rightarrow> (bytes \<Rightarrow> bytes + cluster_config) \<Rightarrow> (socket_addr \<Rightarrow> serve_outcome) \<Rightarrow> router_args \<Rightarrow> 'w \<Rightarrow> exit_status" where
  "router_status ext read_to_string from_str serve_on args w =
     (case router_main ext read_to_string from_str args w of
        Inl p \<Rightarrow> Aborted p
      | Inr (Inl e) \<Rightarrow> Failure (ConfigError e)
      | Inr (Inr _) \<Rightarrow>
          (case parse_socket_addr (ra_addr args) of
             None \<Rightarrow> Failure InvalidAddr
           | Some addr \<Rightarrow>
               (case serve_on addr of
                  Serving \<Rightarrow> Running
                | Stopped \<Rightarrow> Success
                | ServeFailed e \<Rightarrow> Failure (ServeError e))))"

section \<open>What the exit status tells\<close>

lemma start_node_error:
  "start_node ext now drawn fresh args = Inl e \<longleftrightarrow>
     (case na_id args of None \<Rightarrow> False | Some s \<Rightarrow> parse_node_id ext s = None) \<and> e = InvalidId
     \<or> (case na_id args of None \<Rightarrow> True | Some s \<Rightarrow> parse_node_id ext s \<noteq> None) \<and> parse_socket_addr (na_addr args) = None \<and> e = InvalidAddr"
  by (auto simp: start_node_def node_main_def Let_def split: option.splits)

text \<open>
  A node fails exactly for an identifier or an address that cannot be parsed. Whatever happens to its
  servers, an address in use and a failed \<^verbatim>\<open>accept\<close> included, it ends as a success.
\<close>
lemma node_fails_on_arguments_only:
  "node_status ext bg br cap now drawn fresh args evs = Failure e \<longleftrightarrow> start_node ext now drawn fresh args = Inl e"
  by (auto simp: node_status_def split: sum.splits option.splits)

lemma server_errors_are_successes:
  assumes "start_node ext now drawn fresh args = Inr (a, p)"
    and "\<not> bg a \<or> \<not> br (na_resp_addr args) \<or> RespEvent AcceptError \<in> set evs \<or> GrpcEnds \<in> set evs"
  shows "node_status ext bg br cap now drawn fresh args evs = Success"
proof (cases "bg a \<and> br (na_resp_addr args)")
  case True
  with assms(2) obtain ev before rest where ev: "evs = before @ ev # rest" "ev \<in> {RespEvent AcceptError, GrpcEnds}" by (auto dest!: split_list)
  then have "main_exec cap ev s = None" for s by (cases s) auto
  then have "fold (main_exec cap) evs s = None" for s using ev(1) by (simp add: main_run_None)
  then show ?thesis using assms(1) True by (simp add: node_status_def)
qed (use assms(1) in \<open>auto simp: node_status_def\<close>)

text \<open>Two nodes on one machine that leave \<^verbatim>\<open>--resp-addr\<close> at its default cannot both run.\<close>
lemma default_resp_addr_exclusive:
  assumes "start_node ext now drawn fresh (node_args_of addr id_opt None seeds) = Inr (a, p)" "\<not> br ''127.0.0.1:6379''"
  shows "node_status ext bg br cap now drawn fresh (node_args_of addr id_opt None seeds) evs = Success"
  using server_errors_are_successes [OF assms(1)] assms(2) by (simp add: node_args_of_def)

text \<open>The router reports the failure of its server.\<close>
lemma router_fails_with_server:
  assumes "router_main ext rd fs args w = Inr (Inr rp)" "parse_socket_addr (ra_addr args) = Some a" "serve_on a = ServeFailed e"
  shows "router_status ext rd fs serve_on args w = Failure (ServeError e)"
  using assms by (simp add: router_status_def)

text \<open>A node given an IPv4 address and no identifier starts; its RESP server takes the default address.\<close>
lemma node_starts:
  assumes "a < 256" "b < 256" "c < 256" "d < 256" "port < 65536" "bg (SocketV4 [a, b, c, d] port)" "br ''127.0.0.1:6379''"
  shows "node_status ext bg br cap now drawn fresh (node_args_of (show_socket_v4 a b c d port) None None seeds) [] = Running"
  using assms parse_show_v4 [OF assms(1-5)] by (simp add: node_status_def start_node_def node_main_def node_args_of_def Let_def)

end
