(* ===== verification/Load_Tool.thy ===== *)
theory Load_Tool
  imports Resp_Server "HOL-Library.Multiset"
begin

text \<open>
  The load generator, \<^verbatim>\<open>tools/demo/src/main.rs\<close>: workers that send random requests over gRPC and over RESP until
  their time is up, the counters they share, and the report. The random draws, the clock and the network
  are arguments. The counters are shared between tasks, so what a worker does to them is a list of atomic
  operations, and what a run leaves in them is the effect of some interleaving of those lists.

  Shown here: the report does not depend on the interleaving and its numbers add up; the percentiles are
  the order statistics they claim to be; a worker stops; the commands a RESP worker writes are what the
  node's server parses and executes, and a run against a healthy server reports no failure; but neither
  does a run against a server that closes its connections.
\<close>

section \<open>Metrics\<close>

record load_metrics =
  lm_total_ops :: u64
  lm_successful_ops :: u64
  lm_failed_ops :: u64
  lm_latencies_us :: "u64 list"

definition metrics_new :: load_metrics where
  "metrics_new = \<lparr>lm_total_ops = 0, lm_successful_ops = 0, lm_failed_ops = 0, lm_latencies_us = []\<rparr>"

text \<open>\<^verbatim>\<open>fetch_add(1)\<close> on a counter, and a push under the lock; an atomic addition wraps.\<close>
datatype metric_op = AddTotal | AddSuccess | AddFailed | PushLatency u64

fun apply_op :: "metric_op \<Rightarrow> load_metrics \<Rightarrow> load_metrics" where
  "apply_op AddTotal m = m\<lparr>lm_total_ops := lm_total_ops m + 1\<rparr>"
| "apply_op AddSuccess m = m\<lparr>lm_successful_ops := lm_successful_ops m + 1\<rparr>"
| "apply_op AddFailed m = m\<lparr>lm_failed_ops := lm_failed_ops m + 1\<rparr>"
| "apply_op (PushLatency l) m = m\<lparr>lm_latencies_us := lm_latencies_us m @ [l]\<rparr>"

definition record_success :: "metric_op list" where
  "record_success = [AddTotal, AddSuccess]"

definition metric_failure :: "metric_op list" where
  "metric_failure = [AddTotal, AddFailed]"

definition record_latency :: "u64 \<Rightarrow> metric_op list" where
  "record_latency l = [PushLatency l]"

text \<open>The vector is sorted in place.\<close>
definition compute_percentiles :: "load_metrics \<Rightarrow> (u64 \<times> u64 \<times> u64) \<times> load_metrics" where
  "compute_percentiles m =
     (if lm_latencies_us m = [] then ((0, 0, 0), m)
      else let s = sort (lm_latencies_us m)
           in ((s ! (length s * 50 div 100), s ! (length s * 99 div 100), last s), m\<lparr>lm_latencies_us := s\<rparr>))"

definition summary :: "load_metrics \<Rightarrow> u64 \<times> u64 \<times> u64" where
  "summary m = (lm_total_ops m, lm_successful_ops m, lm_failed_ops m)"

section \<open>Requests\<close>

text \<open>What a worker draws for one request: \<^verbatim>\<open>gen_range(0..key_space)\<close>, \<^verbatim>\<open>gen_range(0..100)\<close>, \<^verbatim>\<open>gen::<u64>()\<close>.\<close>
record draw =
  rd_key :: nat
  rd_op :: nat
  rd_value :: u64

datatype load_op = LoadSet bytes bytes | LoadGet bytes | LoadDelete bytes

definition load_key :: "nat \<Rightarrow> bytes" where
  "load_key n = ''key_'' @ dec_nat n"

definition load_value :: "u64 \<Rightarrow> bytes" where
  "load_value v = ''value_'' @ dec_nat (unat v)"

definition choose_op :: "draw \<Rightarrow> load_op" where
  "choose_op d =
     (if rd_op d < 50 then LoadSet (load_key (rd_key d)) (load_value (rd_value d))
      else if rd_op d < 90 then LoadGet (load_key (rd_key d))
      else LoadDelete (load_key (rd_key d)))"

text \<open>The three calls of a gRPC client on the world.\<close>
record 'w load_net =
  ln_connect :: "'w \<Rightarrow> bool \<times> 'w"
  ln_set :: "set_request \<Rightarrow> 'w \<Rightarrow> (status + set_response) \<times> 'w"
  ln_get :: "bytes \<Rightarrow> 'w \<Rightarrow> (status + get_response) \<times> 'w"
  ln_delete :: "bytes \<Rightarrow> 'w \<Rightarrow> (status + delete_response) \<times> 'w"

text \<open>\<open>True\<close>: the call returned \<^verbatim>\<open>Ok\<close>, whatever it answered.\<close>
fun grpc_call :: "'w load_net \<Rightarrow> load_op \<Rightarrow> 'w \<Rightarrow> bool \<times> 'w" where
  "grpc_call net (LoadSet key val) w =
     (case ln_set net \<lparr>sr_key = key, sr_value = val, sr_ttl_ms = Some 60000\<rparr> w of (r, w') \<Rightarrow> (\<not> isl r, w'))"
| "grpc_call net (LoadGet key) w = (case ln_get net key w of (r, w') \<Rightarrow> (\<not> isl r, w'))"
| "grpc_call net (LoadDelete key) w = (case ln_delete net key w of (r, w') \<Rightarrow> (\<not> isl r, w'))"

text \<open>The formatted commands of the RESP worker.\<close>
fun resp_command :: "load_op \<Rightarrow> bytes" where
  "resp_command (LoadSet key val) =
     ''*3'' @ CRLF @ ''$3'' @ CRLF @ ''SET'' @ CRLF @ ''$'' @ dec_nat (length key) @ CRLF @ key @ CRLF
       @ ''$'' @ dec_nat (length val) @ CRLF @ val @ CRLF"
| "resp_command (LoadGet key) =
     ''*2'' @ CRLF @ ''$3'' @ CRLF @ ''GET'' @ CRLF @ ''$'' @ dec_nat (length key) @ CRLF @ key @ CRLF"
| "resp_command (LoadDelete key) =
     ''*2'' @ CRLF @ ''$3'' @ CRLF @ ''DEL'' @ CRLF @ ''$'' @ dec_nat (length key) @ CRLF @ key @ CRLF"

text \<open>A TCP stream: a write succeeds or fails, a read returns at most the given number of bytes, none at the end of the stream.\<close>
record 'w tcp =
  tcp_connect :: "'w \<Rightarrow> bool \<times> 'w"
  tcp_write :: "bytes \<Rightarrow> 'w \<Rightarrow> bool \<times> 'w"
  tcp_read :: "nat \<Rightarrow> 'w \<Rightarrow> bytes option \<times> 'w"

definition resp_call :: "'w tcp \<Rightarrow> load_op \<Rightarrow> 'w \<Rightarrow> bool \<times> 'w" where
  "resp_call net cmd w =
     (case tcp_write net (resp_command cmd) w of
        (False, w1) \<Rightarrow> (False, w1)
      | (True, w1) \<Rightarrow> (case tcp_read net 256 w1 of (r, w2) \<Rightarrow> (r \<noteq> None, w2)))"

section \<open>Workers\<close>

definition outcome_ops :: "bool \<Rightarrow> u64 \<Rightarrow> metric_op list" where
  "outcome_ops success latency = (if success then record_success @ record_latency latency else metric_failure)"

text \<open>
  The loop \<^verbatim>\<open>while start.elapsed() < duration\<close> of both workers. \<open>clk i\<close> is the clock at the head of iteration \<open>i\<close>,
  \<open>draws i\<close> and \<open>lat i\<close> are what is drawn and measured in it. The loop ends when the clock says so, if it does.
\<close>
partial_function (option) load_loop ::
    "(load_op \<Rightarrow> 'w \<Rightarrow> bool \<times> 'w) \<Rightarrow> nat \<Rightarrow> instant \<Rightarrow> duration \<Rightarrow> (nat \<Rightarrow> instant) \<Rightarrow> (nat \<Rightarrow> draw) \<Rightarrow> (nat \<Rightarrow> u64)
     \<Rightarrow> nat \<Rightarrow> 'w \<Rightarrow> metric_op list \<Rightarrow> (metric_op list \<times> 'w) run option" where
  "load_loop call key_space start dur clk draws lat i w ops =
     (if clk i - start < dur then
        (if key_space = 0 then Some (Inl EmptyRange)
         else case call (choose_op (draws i)) w of
                (success, w') \<Rightarrow> load_loop call key_space start dur clk draws lat (i + 1) w' (ops @ outcome_ops success (lat i)))
      else Some (Inr (ops, w)))"

definition grpc_worker ::
    "externs \<Rightarrow> 'w load_net \<Rightarrow> addr \<Rightarrow> nat \<Rightarrow> instant \<Rightarrow> duration \<Rightarrow> (nat \<Rightarrow> instant) \<Rightarrow> (nat \<Rightarrow> draw) \<Rightarrow> (nat \<Rightarrow> u64)
     \<Rightarrow> 'w \<Rightarrow> (metric_op list \<times> 'w) run option" where
  "grpc_worker ext net router_addr key_space start dur clk draws lat w =
     (if \<not> uri_ok ext (''http://'' @ router_addr) then Some (Inr ([], w))
      else (case ln_connect net w of
              (False, w1) \<Rightarrow> Some (Inr ([], w1))
            | (True, w1) \<Rightarrow> load_loop (grpc_call net) key_space start dur clk draws lat 0 w1 []))"

definition resp_worker ::
    "'w tcp \<Rightarrow> nat \<Rightarrow> instant \<Rightarrow> duration \<Rightarrow> (nat \<Rightarrow> instant) \<Rightarrow> (nat \<Rightarrow> draw) \<Rightarrow> (nat \<Rightarrow> u64)
     \<Rightarrow> 'w \<Rightarrow> (metric_op list \<times> 'w) run option" where
  "resp_worker net key_space start dur clk draws lat w =
     (case tcp_connect net w of
        (False, w1) \<Rightarrow> Some (Inr ([], w1))
      | (True, w1) \<Rightarrow> load_loop (resp_call net) key_space start dur clk draws lat 0 w1 [])"

section \<open>Runs and reports\<close>

text \<open>How many of the workers use gRPC and how many RESP.\<close>
definition worker_split :: "nat \<Rightarrow> nat \<times> nat" where
  "worker_split workers = (let grpc_workers = workers div 2 in (grpc_workers, workers - grpc_workers))"

text \<open>The orders in which the atomic operations of several tasks can take effect.\<close>
fun interleavings :: "'a list list \<Rightarrow> 'a list set" where
  "interleavings [] = {[]}"
| "interleavings (xs # xss) = (\<Union>ys\<in>interleavings xss. shuffles xs ys)"

record load_report =
  rep_total :: u64
  rep_success :: u64
  rep_failed :: u64
  rep_grpc :: "u64 \<times> u64 \<times> u64"
  rep_resp :: "u64 \<times> u64 \<times> u64"

text \<open>The numbers of the summary, from the operations on the two groups of counters in the order they took effect.\<close>
definition load_summary :: "metric_op list \<Rightarrow> metric_op list \<Rightarrow> load_report" where
  "load_summary grpc_ops resp_ops =
     (let grpc = fold apply_op grpc_ops metrics_new; resp = fold apply_op resp_ops metrics_new in
      case summary grpc of (grpc_total, grpc_success, grpc_failed) \<Rightarrow>
      case summary resp of (resp_total, resp_success, resp_failed) \<Rightarrow>
        \<lparr>rep_total = grpc_total + resp_total, rep_success = grpc_success + resp_success, rep_failed = grpc_failed + resp_failed,
         rep_grpc = fst (compute_percentiles grpc), rep_resp = fst (compute_percentiles resp)\<rparr>)"

definition exit_code :: "load_report \<Rightarrow> nat" where
  "exit_code rep = (if rep_failed rep > 0 then 1 else 0)"

text \<open>The combined run: the interval between rounds, the report and the exit code.\<close>
definition run_combined :: "nat \<Rightarrow> nat \<Rightarrow> metric_op list \<Rightarrow> metric_op list \<Rightarrow> (nat \<times> load_report \<times> nat) run" where
  "run_combined duration_secs rounds grpc_ops resp_ops =
     (if rounds = 0 then Inl DivideByZero
      else let rep = load_summary grpc_ops resp_ops
           in Inr (duration_secs div rounds, rep, exit_code rep))"

section \<open>Counting\<close>

fun pushed :: "metric_op list \<Rightarrow> u64 list" where
  "pushed [] = []"
| "pushed (PushLatency l # ops) = l # pushed ops"
| "pushed (op # ops) = pushed ops"

lemma fold_apply_op:
  "fold apply_op ops m =
     \<lparr>lm_total_ops = lm_total_ops m + of_nat (count_list ops AddTotal),
      lm_successful_ops = lm_successful_ops m + of_nat (count_list ops AddSuccess),
      lm_failed_ops = lm_failed_ops m + of_nat (count_list ops AddFailed),
      lm_latencies_us = lm_latencies_us m @ pushed ops\<rparr>"
proof (induction ops arbitrary: m)
  case (Cons op ops)
  show ?case by (cases op) (simp_all add: Cons.IH)
qed simp

lemma count_list_mset: "count_list xs x = count (mset xs) x"
  by (induction xs) auto

lemma mset_pushed: "mset (pushed ops) = image_mset (\<lambda>op. case op of PushLatency l \<Rightarrow> l | _ \<Rightarrow> 0) (filter_mset (\<lambda>op. \<exists>l. op = PushLatency l) (mset ops))"
proof (induction ops)
  case (Cons op ops)
  then show ?case by (cases op) simp_all
qed simp

lemma mset_interleavings: "zs \<in> interleavings xss \<Longrightarrow> mset zs = sum_list (map mset xss)"
  by (induction xss arbitrary: zs) (auto simp: mset_shuffles)

text \<open>What a worker records for the outcomes of its requests, in order.\<close>
definition worker_ops :: "(bool \<times> u64) list \<Rightarrow> metric_op list" where
  "worker_ops outs = concat (map (\<lambda>(success, latency). outcome_ops success latency) outs)"

lemma worker_ops_simps [simp]: "worker_ops [] = []" "worker_ops ((b, l) # outs) = outcome_ops b l @ worker_ops outs"
  "worker_ops (outs @ outs') = worker_ops outs @ worker_ops outs'"
  by (simp_all add: worker_ops_def)

lemmas metric_defs = outcome_ops_def record_success_def record_latency_def metric_failure_def

lemma worker_ops_counts:
  "count_list (worker_ops outs) AddTotal = length outs"
  "count_list (worker_ops outs) AddSuccess = length (filter fst outs)"
  "count_list (worker_ops outs) AddFailed = length (filter (\<lambda>o'. \<not> fst o') outs)"
  "pushed (worker_ops outs) = map snd (filter fst outs)"
  by (induction outs) (auto simp: metric_defs)

lemma interleaved_counts:
  assumes "ops \<in> interleavings (map worker_ops outss)"
  shows "count_list ops AddTotal = length (concat outss)"
    and "count_list ops AddSuccess = length (filter fst (concat outss))"
    and "count_list ops AddFailed = length (filter (\<lambda>o'. \<not> fst o') (concat outss))"
    and "mset (pushed ops) = mset (map snd (filter fst (concat outss)))"
proof -
  have "sum_list (map mset (map worker_ops outss)) = mset (worker_ops (concat outss))" by (induction outss) auto
  then have "mset ops = mset (worker_ops (concat outss))" using mset_interleavings [OF assms] by simp
  then have "count_list ops x = count_list (worker_ops (concat outss)) x"
    "mset (pushed ops) = mset (pushed (worker_ops (concat outss)))" for x
    by (simp_all add: count_list_mset mset_pushed)
  then show "count_list ops AddTotal = length (concat outss)" "count_list ops AddSuccess = length (filter fst (concat outss))"
    "count_list ops AddFailed = length (filter (\<lambda>o'. \<not> fst o') (concat outss))"
    "mset (pushed ops) = mset (map snd (filter fst (concat outss)))"
    by (simp_all only: worker_ops_counts)
qed

lemma sort_pushed_eq: "mset (pushed ops) = mset (pushed ops') \<Longrightarrow> sort (pushed ops) = sort (pushed ops')"
  by (metis mset_sort properties_for_sort sorted_sort)

lemma unat_u64_of_nat: "n < 2 ^ 64 \<Longrightarrow> unat (of_nat n :: u64) = n"
  by (simp add: unat_of_nat take_bit_nat_eq_self)

section \<open>Order statistics\<close>

lemma sorted_rank:
  assumes "sorted s" "k < length s"
  shows "k + 1 \<le> length (filter (\<lambda>x. x \<le> s ! k) s)" and "length s - k \<le> length (filter (\<lambda>x. s ! k \<le> x) s)"
proof -
  have "filter (\<lambda>x. x \<le> s ! k) (take (k + 1) s) = take (k + 1) s" "filter (\<lambda>x. s ! k \<le> x) (drop k s) = drop k s"
    using assms by (auto simp: filter_id_conv in_set_conv_nth less_Suc_eq_le intro!: sorted_nth_mono)
  then have "length (take (k + 1) s) \<le> length (filter (\<lambda>x. x \<le> s ! k) s)" "length (drop k s) \<le> length (filter (\<lambda>x. s ! k \<le> x) s)"
    by (metis append_take_drop_id filter_append length_append le_add1,
        metis append_take_drop_id filter_append length_append le_add2)
  then show "k + 1 \<le> length (filter (\<lambda>x. x \<le> s ! k) s)" "length s - k \<le> length (filter (\<lambda>x. s ! k \<le> x) s)"
    using assms(2) by simp_all
qed

lemma sorted_last: "sorted s \<Longrightarrow> s \<noteq> [] \<Longrightarrow> last s = Max (set s)"
proof (rule Max_eqI [symmetric])
  show "y \<le> last s" if "sorted s" "s \<noteq> []" "y \<in> set s" for y
    using that by (auto simp: last_conv_nth in_set_conv_nth intro!: sorted_nth_mono)
qed auto

section \<open>The loop\<close>

fun play :: "(load_op \<Rightarrow> 'w \<Rightarrow> bool \<times> 'w) \<Rightarrow> (nat \<Rightarrow> draw) \<Rightarrow> (nat \<Rightarrow> u64) \<Rightarrow> nat \<Rightarrow> nat \<Rightarrow> 'w \<Rightarrow> (bool \<times> u64) list \<times> 'w" where
  "play call draws lat i 0 w = ([], w)"
| "play call draws lat i (Suc n) w =
     (case call (choose_op (draws i)) w of (success, w') \<Rightarrow>
        case play call draws lat (i + 1) n w' of (outs, w'') \<Rightarrow> ((success, lat i) # outs, w''))"

lemma load_loop_play:
  assumes "0 < key_space" "\<forall>j<n. clk (i + j) - start < dur" "\<not> clk (i + n) - start < dur"
  shows "load_loop call key_space start dur clk draws lat i w ops
         = Some (Inr (ops @ worker_ops (fst (play call draws lat i n w)), snd (play call draws lat i n w)))"
  using assms
proof (induction n arbitrary: i w ops)
  case 0
  then show ?case by (simp add: load_loop.simps [of call])
next
  case (Suc n)
  have "\<forall>j<n. clk (i + 1 + j) - start < dur" using Suc.prems(2) by (metis Suc_less_eq add.assoc plus_1_eq_Suc)
  moreover have "\<not> clk (i + 1 + n) - start < dur" using Suc.prems(3) by simp
  ultimately have IH: "load_loop call key_space start dur clk draws lat (i + 1) w' ops'
      = Some (Inr (ops' @ worker_ops (fst (play call draws lat (i + 1) n w')), snd (play call draws lat (i + 1) n w')))" for w' ops'
    using Suc.IH Suc.prems(1) by blast
  have "clk i - start < dur" using Suc.prems(2) by (metis add_0_right zero_less_Suc)
  then show ?case
    using Suc.prems(1) IH by (simp add: load_loop.simps [of call key_space start dur clk draws lat i] split: prod.split)
qed

lemma play_length: "length (fst (play call draws lat i n w)) = n"
  by (induction n arbitrary: i w) (auto simp: case_prod_unfold)

text \<open>When every call succeeds, every request is recorded as a success with its latency.\<close>
lemma play_successes:
  assumes "\<And>op w. good w \<Longrightarrow> fst (call op w) \<and> good (snd (call op w))" "good w"
  shows "fst (play call draws lat i n w) = map (\<lambda>j. (True, lat j)) [i..<i + n] \<and> good (snd (play call draws lat i n w))"
  using assms(2)
proof (induction n arbitrary: i w)
  case (Suc n)
  obtain b w' where call: "call (choose_op (draws i)) w = (b, w')" by (cases "call (choose_op (draws i)) w")
  then have "b" "good w'" using assms(1) [OF Suc.prems, of "choose_op (draws i)"] by simp_all
  moreover have "[i..<i + Suc n] = i # [i + 1..<i + 1 + n]" by (subst upt_conv_Cons) simp_all
  ultimately show ?case using Suc.IH [of w' "i + 1"] call by (simp add: case_prod_unfold del: upt.simps)
qed simp


section \<open>A worker and the node's RESP server\<close>

text \<open>The command as a value, and the requests a worker makes as text that the server takes for a key.\<close>
fun op_value :: "load_op \<Rightarrow> resp_value" where
  "op_value (LoadSet key val) = RespArray [BulkString ''SET'', BulkString key, BulkString val]"
| "op_value (LoadGet key) = RespArray [BulkString ''GET'', BulkString key]"
| "op_value (LoadDelete key) = RespArray [BulkString ''DEL'', BulkString key]"

fun op_ok :: "load_op \<Rightarrow> bool" where
  "op_ok (LoadSet key val) = (utf8_valid key \<and> fits key \<and> fits val)"
| "op_ok (LoadGet key) = (utf8_valid key \<and> fits key)"
| "op_ok (LoadDelete key) = (utf8_valid key \<and> fits key)"

lemma resp_command_encodes: "resp_command op = encode_item (op_value op)"
proof -
  have "dec_nat 3 = ''3''" "dec_nat 2 = ''2''" "dec_nat (Suc (Suc (Suc 0))) = ''3''" "dec_nat (Suc (Suc 0)) = ''2''" by code_simp+
  then show ?thesis by (cases op) (simp_all add: encode_array.simps encode_bulk_string_def)
qed

lemma length_dec_nat: "n < 10 ^ Suc k \<Longrightarrow> length (dec_nat n) \<le> Suc k"
proof (induction k arbitrary: n)
  case 0
  then show ?case by (simp add: dec_nat.simps)
next
  case (Suc k)
  then have "n div 10 < 10 ^ Suc k" by auto
  then show ?case using Suc.IH [of "n div 10"] by (auto simp: dec_nat.simps [of n])
qed

lemma choose_op_ok:
  assumes "rd_key d < 2 ^ 64"
  shows "op_ok (choose_op d)"
proof -
  have len: "length (dec_nat n) \<le> 20" if "n < 2 ^ 64" for n
    using length_dec_nat [of n 19] that by simp
  have "utf8_valid (load_key n)" for n
    using dec_nat_ascii [of n] by (intro utf8_valid_ascii) (auto simp: load_key_def)
  moreover have "fits (load_key (rd_key d))" "fits (load_value (rd_value d))"
    using len [OF assms] len [of "unat (rd_value d)"] unsigned_less [of "rd_value d", where ?'a = nat]
    by (simp_all add: fits_def load_key_def load_value_def i64_max_def)
  ultimately show ?thesis by (simp add: choose_op_def)
qed

text \<open>What the requests do to a map.\<close>
fun load_effect :: "load_op \<Rightarrow> (bytes \<rightharpoonup> bytes) \<Rightarrow> (bytes \<rightharpoonup> bytes)" where
  "load_effect (LoadSet key val) m = m(key \<mapsto> val)"
| "load_effect (LoadGet key) m = m"
| "load_effect (LoadDelete key) m = m(key := None)"

definition holds_plainly :: "cache_store \<Rightarrow> (bytes \<rightharpoonup> bytes) \<Rightarrow> bool" where
  "holds_plainly st m \<longleftrightarrow> store_inv st \<and> content_of st = (\<lambda>k. map_option (\<lambda>v. (v, None)) (m k))"

lemma command_effect:
  assumes "op_ok op" "holds_plainly st m"
  shows "\<exists>r st'. handle_command clk (op_value op) st = Inr (r, st') \<and> r \<noteq> [] \<and> holds_plainly st' (load_effect op m)"
proof -
  obtain t1 t2 where clk: "clk = (t1, t2)" by (cases clk)
  have inv: "store_inv st" and content: "content_of st = (\<lambda>k. map_option (\<lambda>v. (v, None)) (m k))"
    using assms(2) by (simp_all add: holds_plainly_def)
  have names: "extract_str (BulkString ''SET'') = Some ''SET''" "to_uppercase_ascii ''SET'' = Some ''SET''"
    "extract_str (BulkString ''GET'') = Some ''GET''" "to_uppercase_ascii ''GET'' = Some ''GET''"
    "extract_str (BulkString ''DEL'') = Some ''DEL''" "to_uppercase_ascii ''DEL'' = Some ''DEL''" by code_simp+
  show ?thesis
  proof (cases op)
    case (LoadSet key val)
    then have "handle_command clk (op_value op) st = Inr (encode_simple_string ''OK'', put_entry key val None st)"
      using cmd_set_ok [of key "[]" None t1 "BulkString ''SET''" val st] dispatch(1) [OF names(1,2) refl] assms(1) by (simp add: clk)
    then show ?thesis
      using LoadSet inv content by (auto simp: holds_plainly_def content_put encoder_defs fun_eq_iff)
  next
    case (LoadGet key)
    have "shown (content_of st) t1 key = content_of st key" by (simp add: shown_def content not_after_def split: option.split)
    then have "content_of (snd (store_get t1 key st)) = content_of st" by (simp only: content_get [OF inv] fun_upd_triv)
    then have "holds_plainly (snd (store_get t1 key st)) m" using inv content by (simp add: holds_plainly_def)
    moreover have "handle_command clk (op_value op) st = Inr (cmd_get t1 [BulkString ''GET'', BulkString key] st)"
      using LoadGet dispatch(2) [OF names(3,4) refl] by (simp add: clk)
    ultimately show ?thesis
      using LoadGet assms(1) by (auto simp: cmd_get_spec encoder_defs split: option.split)
  next
    case (LoadDelete key)
    have spec: "store_inv (snd (del_keys [BulkString key] 0 st))"
      "content_of (snd (del_keys [BulkString key] 0 st)) = (\<lambda>k. if k = key then None else content_of st k)"
      using del_keys_spec [OF inv, of "[BulkString key]" 0] LoadDelete assms(1) by (auto simp: fun_eq_iff)
    have "handle_command clk (op_value op) st = Inr (cmd_del [BulkString ''DEL'', BulkString key] st)"
      using LoadDelete dispatch(3) [OF names(5,6) refl] by (simp add: clk)
    then show ?thesis
      using LoadDelete spec content
      by (auto simp: cmd_del_def holds_plainly_def encoder_defs fun_eq_iff case_prod_unfold simp del: del_keys.simps)
  qed
qed

text \<open>The node's end of a connection as the stream a worker sees.\<close>
record served =
  sv_conn :: conn
  sv_pending :: bytes

definition node_tcp :: "nat \<Rightarrow> executor \<Rightarrow> served tcp" where
  "node_tcp cap exec =
     \<lparr>tcp_connect = (\<lambda>w. (True, w)),
      tcp_write = (\<lambda>bs w. case handle_connection cap exec [bs] (sv_conn w) of
                    (c, _) \<Rightarrow> (True, w\<lparr>sv_conn := c\<lparr>c_out := []\<rparr>, sv_pending := sv_pending w @ concat (c_out c)\<rparr>)),
      tcp_read = (\<lambda>n w. (Some (take n (sv_pending w)), w\<lparr>sv_pending := drop n (sv_pending w)\<rparr>))\<rparr>"

lemma connection_one_command:
  assumes "c_buf c = []" "3 \<le> cap" "op_ok op" "exec (c_done c) (op_value op) (c_store c) = Inr (r, st)"
  shows "handle_connection cap exec [resp_command op] c
         = (c\<lparr>c_buf := [], c_out := c_out c @ [r], c_done := c_done c + 1, c_store := st\<rparr>, None)"
proof -
  have "resp_wf cap (op_value op)" using assms(2,3) by (cases op) (auto simp: fits_def i64_max_def)
  from parse_encoded [OF this, of "[]"]
  have "parse_resp cap (resp_command op) = Inr (Complete (op_value op) (length (resp_command op)))" by (simp add: resp_command_encodes)
  moreover have "resp_command op \<noteq> []" by (cases op) simp_all
  ultimately show ?thesis
    using assms(1,4) by (simp add: process_buffer.simps [of cap exec "c\<lparr>c_buf := resp_command op\<rparr>"] process_buffer.simps [of cap exec "c\<lparr>c_buf := [], c_out := c_out c @ [r], c_done := Suc (c_done c), c_store := st\<rparr>"])
qed

lemma node_call:
  assumes "c_buf (sv_conn w) = []" "3 \<le> cap" "op_ok op" "holds_plainly (c_store (sv_conn w)) m"
  shows "\<exists>w'. resp_call (node_tcp cap (serve clock (\<lambda>_ st. st))) op w = (True, w') \<and> c_buf (sv_conn w') = []
     \<and> holds_plainly (c_store (sv_conn w')) (load_effect op m) \<and> c_done (sv_conn w') = c_done (sv_conn w) + 1"
proof -
  obtain r st where "serve clock (\<lambda>_ st. st) (c_done (sv_conn w)) (op_value op) (c_store (sv_conn w)) = Inr (r, st)"
    and st: "holds_plainly st (load_effect op m)"
    using command_effect [OF assms(3,4), of "clock (c_done (sv_conn w))"] by (auto simp: serve_def)
  then show ?thesis
    using connection_one_command [OF assms(1-3), of "serve clock (\<lambda>_ st. st)" r st] st
    by (simp add: resp_call_def node_tcp_def)
qed

lemma node_session:
  assumes "3 \<le> cap" "\<forall>j. rd_key (draws j) < 2 ^ 64" "c_buf (sv_conn w) = []" "holds_plainly (c_store (sv_conn w)) m"
  shows "\<exists>w'. play (resp_call (node_tcp cap (serve clock (\<lambda>_ st. st)))) draws lat i n w = (map (\<lambda>j. (True, lat j)) [i..<i + n], w')
     \<and> holds_plainly (c_store (sv_conn w')) (fold (\<lambda>j. load_effect (choose_op (draws j))) [i..<i + n] m)
     \<and> c_done (sv_conn w') = c_done (sv_conn w) + n"
  using assms(3,4)
proof (induction n arbitrary: i w m)
  case (Suc n)
  obtain w1 where w1: "resp_call (node_tcp cap (serve clock (\<lambda>_ st. st))) (choose_op (draws i)) w = (True, w1)" "c_buf (sv_conn w1) = []"
    "holds_plainly (c_store (sv_conn w1)) (load_effect (choose_op (draws i)) m)" "c_done (sv_conn w1) = c_done (sv_conn w) + 1"
    using node_call [OF Suc.prems(1) assms(1) choose_op_ok Suc.prems(2)] assms(2) by blast
  have upt: "[i..<i + Suc n] = i # [i + 1..<i + 1 + n]" by (subst upt_conv_Cons) simp_all
  show ?case using Suc.IH [OF w1(2,3), of "i + 1"] w1(1,4) unfolding upt by auto
qed simp


lemma least_expiry:
  fixes clk :: "nat \<Rightarrow> instant"
  assumes "\<exists>j. start + dur \<le> clk j" "0 < dur"
  defines "n \<equiv> LEAST j. start + dur \<le> clk j"
  shows "\<forall>j<n. clk (0 + j) - start < dur" and "\<not> clk (0 + n) - start < dur"
proof -
  have "start + dur \<le> clk n" unfolding n_def by (rule LeastI_ex [OF assms(1)])
  then show "\<not> clk (0 + n) - start < dur" by simp
  have "\<not> start + dur \<le> clk j" if "j < n" for j using not_less_Least that unfolding n_def by blast
  then show "\<forall>j<n. clk (0 + j) - start < dur" using assms(2) by fastforce
qed

section \<open>Properties\<close>

text \<open>The report of a load test does not depend on how the tasks' updates of the shared counters interleave: any two
  interleavings give the same totals and percentiles; the total is the number of requests and the sum of
  successes and failures, and the exit code of a combined run is 1 exactly when a request failed (as long
  as fewer than 2 to the 64 requests were made).\<close>
theorem load_report_adds_up:
  assumes "ops \<in> interleavings (map worker_ops grpc)" "ops' \<in> interleavings (map worker_ops grpc)"
    and "rops \<in> interleavings (map worker_ops resp)" "rops' \<in> interleavings (map worker_ops resp)"
    and "length (concat grpc @ concat resp) < 2 ^ 64" "0 < rounds"
  shows "load_summary ops rops = load_summary ops' rops'
    \<and> unat (rep_total (load_summary ops rops)) = length (concat grpc @ concat resp)
    \<and> rep_total (load_summary ops rops) = rep_success (load_summary ops rops) + rep_failed (load_summary ops rops)
    \<and> run_combined secs rounds ops rops = Inr (secs div rounds, load_summary ops rops,
        if \<exists>out\<in>set (concat grpc @ concat resp). \<not> fst out then 1 else 0)"
proof -
  note counts = interleaved_counts [OF assms(1)] interleaved_counts [OF assms(2)] interleaved_counts [OF assms(3)] interleaved_counts [OF assms(4)]
  have sorted: "sort (pushed ops) = sort (pushed ops')" "sort (pushed rops) = sort (pushed rops')"
    by (rule sort_pushed_eq, simp only: counts)+
  have empty: "pushed ops = [] \<longleftrightarrow> pushed ops' = []" "pushed rops = [] \<longleftrightarrow> pushed rops' = []"
    using arg_cong [OF sorted(1), of length] arg_cong [OF sorted(2), of length] by auto
  have same: "load_summary ops rops = load_summary ops' rops'"
    using sorted empty
    by (simp add: load_summary_def summary_def compute_percentiles_def Let_def fold_apply_op metrics_new_def counts)
  have outs: "length (filter fst xs) + length (filter (\<lambda>o'. \<not> fst o') xs) = length xs" for xs :: "(bool \<times> u64) list"
    by (induction xs) auto
  let ?bad = "length (filter (\<lambda>o'. \<not> fst o') (concat grpc @ concat resp))"
  have failed: "rep_failed (load_summary ops rops) = of_nat ?bad"
    by (simp add: load_summary_def summary_def Let_def fold_apply_op metrics_new_def counts)
  have "?bad \<le> length (concat grpc @ concat resp)" by (rule length_filter_le)
  then have "unat (rep_failed (load_summary ops rops)) = ?bad" unfolding failed using assms(5) by (intro unat_u64_of_nat) linarith
  then have "rep_failed (load_summary ops rops) > 0 \<longleftrightarrow> 0 < ?bad" by (metis unat_gt_0 word_gt_0)
  also have "\<dots> \<longleftrightarrow> (\<exists>out\<in>set (concat grpc @ concat resp). \<not> fst out)" by (auto simp: filter_empty_conv)
  finally have exit_code: "rep_failed (load_summary ops rops) > 0 \<longleftrightarrow> (\<exists>out\<in>set (concat grpc @ concat resp). \<not> fst out)" .
  have total: "rep_total (load_summary ops rops) = of_nat (length (concat grpc @ concat resp))"
    by (simp add: load_summary_def summary_def Let_def fold_apply_op metrics_new_def counts)
  have "rep_success (load_summary ops rops) + rep_failed (load_summary ops rops)
        = of_nat (length (filter fst (concat grpc @ concat resp)) + ?bad)"
    by (simp add: load_summary_def summary_def Let_def fold_apply_op metrics_new_def counts)
  then have "rep_total (load_summary ops rops) = rep_success (load_summary ops rops) + rep_failed (load_summary ops rops)"
    by (simp only: outs total)
  moreover have "unat (rep_total (load_summary ops rops)) = length (concat grpc @ concat resp)"
    unfolding total using assms(5) by (rule unat_u64_of_nat)
  ultimately show ?thesis using same exit_code assms(6) by (simp add: run_combined_def exit_code_def Let_def)
qed

theorem load_report_adds_up_witness:
  "load_summary [AddTotal, AddTotal, AddFailed, AddSuccess, PushLatency 7] [] = load_summary [AddTotal, AddSuccess, PushLatency 7, AddTotal, AddFailed] []
   \<and> run_combined 30 5 [AddTotal, AddTotal, AddFailed, AddSuccess, PushLatency 7] []
     = Inr (6, load_summary [AddTotal, AddTotal, AddFailed, AddSuccess, PushLatency 7] [], 1)"
proof -
  let ?a = "[AddTotal, AddTotal, AddFailed, AddSuccess, PushLatency 7]" and ?b = "[AddTotal, AddSuccess, PushLatency 7, AddTotal, AddFailed]"
  have "?a \<in> interleavings (map worker_ops [[(True, 7)], [(False, 0)]])" "?b \<in> interleavings (map worker_ops [[(True, 7)], [(False, 0)]])"
    by (simp_all add: metric_defs)
  then show ?thesis using load_report_adds_up [of ?a "[[(True, 7)], [(False, 0)]]" ?b "[]" "[]" "[]" 5 30] by simp
qed

text \<open>The percentiles are the order statistics they stand for: the median and the 99th percentile are recorded
  latencies, more than half of the latencies are at most the median and at least half are at least the
  median, more than 99 of 100 are at most the 99th percentile, and the maximum is the greatest latency.\<close>
theorem percentiles_correct:
  assumes "lm_latencies_us m \<noteq> []" "compute_percentiles m = ((p50, p99, mx), m')"
  shows "p50 \<in> set (lm_latencies_us m) \<and> p99 \<in> set (lm_latencies_us m) \<and> mx = Max (set (lm_latencies_us m)) \<and> p50 \<le> p99 \<and> p99 \<le> mx
    \<and> length (lm_latencies_us m) < 2 * length (filter (\<lambda>l. l \<le> p50) (lm_latencies_us m))
    \<and> length (lm_latencies_us m) \<le> 2 * length (filter (\<lambda>l. p50 \<le> l) (lm_latencies_us m))
    \<and> 99 * length (lm_latencies_us m) < 100 * length (filter (\<lambda>l. l \<le> p99) (lm_latencies_us m))"
proof -
  let ?l = "lm_latencies_us m"
  let ?s = "sort ?l"
  let ?n = "length ?l"
  have p: "p50 = ?s ! (?n * 50 div 100)" "p99 = ?s ! (?n * 99 div 100)" "mx = last ?s"
    using assms by (auto simp: compute_percentiles_def Let_def)
  have n: "0 < ?n" using assms(1) by simp
  then have i: "?n * 50 div 100 < length ?s" "?n * 99 div 100 < length ?s" "?n * 50 div 100 \<le> ?n * 99 div 100" by (simp_all, linarith)
  have count: "length (filter P ?l) = length (filter P ?s)" for P by (metis filter_sort length_sort)
  note ranks = sorted_rank [OF sorted_sort i(1)] sorted_rank [OF sorted_sort i(2)]
  have "?s \<noteq> []" using n by (metis length_greater_0_conv length_sort)
  then have mx: "mx = Max (set ?l)" using sorted_last [of ?s] by (simp add: p(3))
  have mem: "p50 \<in> set ?l" "p99 \<in> set ?l" using nth_mem [OF i(1)] nth_mem [OF i(2)] by (simp_all add: p)
  have "p50 \<le> p99" unfolding p using i by (intro sorted_nth_mono) simp_all
  moreover have "p99 \<le> mx" using mem mx by simp
  moreover have "?n < 2 * length (filter (\<lambda>l. l \<le> p50) ?l)" "?n \<le> 2 * length (filter (\<lambda>l. p50 \<le> l) ?l)"
    "99 * ?n < 100 * length (filter (\<lambda>l. l \<le> p99) ?l)"
    using ranks unfolding count p by (simp_all) (linarith+)
  ultimately show ?thesis using mem mx by simp
qed

theorem percentiles_correct_witness:
  "\<exists>p50 p99 m'. compute_percentiles (fold apply_op (map PushLatency [30, 10, 20]) metrics_new) = ((p50, p99, 30), m') \<and> p50 \<le> p99 \<and> p99 \<le> 30"
proof -
  let ?m = "fold apply_op (map PushLatency [30, 10, 20]) metrics_new"
  obtain p50 p99 mx m' where p: "compute_percentiles ?m = ((p50, p99, mx), m')" by (metis prod_cases3 surj_pair)
  have l: "lm_latencies_us ?m = [30, 10, 20]" by (simp add: metrics_new_def)
  have "Max (set [30, 10, 20 :: u64]) = 30" by code_simp
  then have "mx = 30 \<and> p50 \<le> p99 \<and> p99 \<le> mx" using percentiles_correct [OF _ p] unfolding l by blast
  then show ?thesis using p by blast
qed

text \<open>A worker stops: as soon as the clock has passed its deadline at the head of some iteration, the loop has returned,
  after exactly the iterations that started before the deadline, one recorded outcome for each; with an
  empty key space it panics at its first request instead.\<close>
theorem worker_stops:
  assumes "\<exists>j. start + dur \<le> clk j" "0 < dur"
  shows "load_loop call key_space start dur clk draws lat 0 w []
    = (let n = (LEAST j. start + dur \<le> clk j) in
       if key_space = 0 \<and> 0 < n then Some (Inl EmptyRange)
       else Some (Inr (worker_ops (fst (play call draws lat 0 n w)), snd (play call draws lat 0 n w))))
    \<and> length (fst (play call draws lat 0 (LEAST j. start + dur \<le> clk j) w)) = (LEAST j. start + dur \<le> clk j)"
proof -
  let ?n = "LEAST j. start + dur \<le> clk j"
  have n: "\<forall>j<?n. clk (0 + j) - start < dur" "\<not> clk (0 + ?n) - start < dur" using least_expiry [OF assms(1,2)] by blast+
  have "load_loop call key_space start dur clk draws lat 0 w [] = Some (Inl EmptyRange)" if "key_space = 0" "0 < ?n"
    using that n(1) by (simp add: load_loop.simps [of call])
  moreover have "load_loop call key_space start dur clk draws lat 0 w [] = Some (Inr ([], w))" if "?n = 0"
    using that n(2) by (simp add: load_loop.simps [of call])
  ultimately show ?thesis
    using load_loop_play [OF _ n, of key_space call draws lat w "[]"] by (auto simp: Let_def play_length)
qed

theorem worker_stops_witness:
  "\<exists>n. load_loop (\<lambda>op (w :: unit). (True, w)) 10 0 3 (\<lambda>i. 2 * i) (\<lambda>_. \<lparr>rd_key = 1, rd_op = 60, rd_value = 0\<rparr>) (\<lambda>_. 5) 0 () []
     = Some (Inr (worker_ops (fst (play (\<lambda>op w. (True, w)) (\<lambda>_. \<lparr>rd_key = 1, rd_op = 60, rd_value = 0\<rparr>) (\<lambda>_. 5) 0 n ())), ()))"
proof -
  have "\<exists>j. 0 + 3 \<le> 2 * (j :: nat)" by (rule exI [of _ 2]) simp
  from worker_stops [OF this, of "\<lambda>op (w :: unit). (True, w)" 10 "\<lambda>_. \<lparr>rd_key = 1, rd_op = 60, rd_value = 0\<rparr>" "\<lambda>_. 5" "()"]
  show ?thesis by (auto simp: Let_def)
qed

text \<open>A RESP worker and the node's server understand each other: against a server that starts with an empty store and
  serves nobody else, every request of the worker is parsed and executed, every one is counted as a
  success, and at the end the store holds exactly what the sequence of requests would leave in a map.\<close>
theorem worker_fills_node:
  assumes "\<exists>j. start + dur \<le> clk j" "0 < dur" "0 < key_space" "\<forall>j. rd_key (draws j) < 2 ^ 64" "3 \<le> cap"
    and "sv_conn w = \<lparr>c_buf = [], c_out = [], c_done = 0, c_store = store_new t0\<rparr>"
  shows "\<exists>n w'. resp_worker (node_tcp cap (serve clock (\<lambda>_ st. st))) key_space start dur clk draws lat w
        = Some (Inr (worker_ops (map (\<lambda>j. (True, lat j)) [0..<n]), w'))
     \<and> c_done (sv_conn w') = n
     \<and> content_of (c_store (sv_conn w')) = (\<lambda>k. map_option (\<lambda>v. (v, None)) (fold (\<lambda>j. load_effect (choose_op (draws j))) [0..<n] Map.empty k))"
proof -
  let ?n = "LEAST j. start + dur \<le> clk j" and ?call = "resp_call (node_tcp cap (serve clock (\<lambda>_ st. st)))"
  have n: "\<forall>j<?n. clk (0 + j) - start < dur" "\<not> clk (0 + ?n) - start < dur" using least_expiry [OF assms(1,2)] by blast+
  have buf: "c_buf (sv_conn w) = []" using assms(6) by simp
  have plain: "holds_plainly (c_store (sv_conn w)) Map.empty"
    using assms(6) by (simp add: holds_plainly_def content_of_def store_new_def store_inv_def fun_eq_iff hm_get_def)
  obtain w' where w': "play ?call draws lat 0 ?n w = (map (\<lambda>j. (True, lat j)) [0..<0 + ?n], w')"
    "holds_plainly (c_store (sv_conn w')) (fold (\<lambda>j. load_effect (choose_op (draws j))) [0..<0 + ?n] Map.empty)"
    "c_done (sv_conn w') = c_done (sv_conn w) + ?n"
    using node_session [OF assms(5,4) buf plain, of clock lat 0 ?n] by blast
  have "resp_worker (node_tcp cap (serve clock (\<lambda>_ st. st))) key_space start dur clk draws lat w
      = load_loop ?call key_space start dur clk draws lat 0 w []" by (simp add: resp_worker_def node_tcp_def)
  also have "\<dots> = Some (Inr (worker_ops (map (\<lambda>j. (True, lat j)) [0..<?n]), w'))"
    using load_loop_play [OF assms(3) n, of ?call draws lat w "[]"] w'(1) by simp
  finally show ?thesis using w'(2,3) assms(6) by (auto simp: holds_plainly_def)
qed

theorem worker_fills_node_witness:
  "\<exists>n w'. resp_worker (node_tcp 3 (serve (\<lambda>_. (1, 1)) (\<lambda>_ st. st))) 10 0 3 (\<lambda>i. 2 * i)
        (\<lambda>_. \<lparr>rd_key = 1, rd_op = 0, rd_value = 5\<rparr>) (\<lambda>_. 5)
        \<lparr>sv_conn = \<lparr>c_buf = [], c_out = [], c_done = 0, c_store = store_new 0\<rparr>, sv_pending = []\<rparr>
      = Some (Inr (worker_ops (map (\<lambda>j. (True, 5)) [0..<n]), w')) \<and> c_done (sv_conn w') = n"
proof -
  have clk: "\<exists>j. 0 + 3 \<le> 2 * (j :: nat)" by (rule exI [of _ 2]) simp
  have w: "sv_conn \<lparr>sv_conn = \<lparr>c_buf = [], c_out = [], c_done = 0, c_store = store_new 0\<rparr>, sv_pending = []\<rparr>
      = \<lparr>c_buf = [], c_out = [], c_done = 0, c_store = store_new 0\<rparr>" by simp
  from worker_fills_node [OF clk _ _ _ _ w, of 10 "\<lambda>_. \<lparr>rd_key = 1, rd_op = 0, rd_value = 5\<rparr>" 3 "\<lambda>_. (1, 1)" "\<lambda>_. 5"]
  show ?thesis by auto
qed

text \<open>A server that accepts connections and closes them without an answer looks perfect: the end of the stream is not an
  error, so every request is counted as a success, and a combined run exits with code 0.\<close>
theorem closed_connections_count_as_success:
  assumes "\<exists>j. start + dur \<le> clk j" "0 < dur" "0 < key_space" "0 < rounds"
    and "tcp_connect net w = (True, w)" "\<forall>bs. tcp_write net bs w = (True, w)" "\<forall>n. tcp_read net n w = (Some [], w)"
  shows "\<exists>n ops. resp_worker net key_space start dur clk draws lat w = Some (Inr (ops, w))
     \<and> ops = worker_ops (map (\<lambda>j. (True, lat j)) [0..<n]) \<and> n = (LEAST j. start + dur \<le> clk j)
     \<and> rep_failed (load_summary [] ops) = 0 \<and> run_combined secs rounds [] ops = Inr (secs div rounds, load_summary [] ops, 0)"
proof -
  let ?n = "LEAST j. start + dur \<le> clk j"
  have n: "\<forall>j<?n. clk (0 + j) - start < dur" "\<not> clk (0 + ?n) - start < dur" using least_expiry [OF assms(1,2)] by blast+
  have call: "fst (resp_call net op v) \<and> snd (resp_call net op v) = w" if "v = w" for op v
    using assms(6,7) that by (simp add: resp_call_def)
  let ?ops = "worker_ops (map (\<lambda>j. (True, lat j)) [0..<?n])"
  have "play (resp_call net) draws lat 0 ?n w = (map (\<lambda>j. (True, lat j)) [0..<?n], w)"
    using play_successes [of "\<lambda>v. v = w" "resp_call net" w draws lat 0 ?n] call by (simp add: prod_eq_iff)
  then have run: "resp_worker net key_space start dur clk draws lat w = Some (Inr (?ops, w))"
    using load_loop_play [OF assms(3) n, of "resp_call net" draws lat w "[]"] assms(5) by (simp add: resp_worker_def)
  have "count_list ?ops AddFailed = 0" by (simp only: worker_ops_counts) simp
  then have "rep_failed (load_summary [] ?ops) = 0"
    by (simp add: load_summary_def summary_def Let_def fold_apply_op metrics_new_def)
  then show ?thesis using run assms(4) by (simp add: run_combined_def exit_code_def Let_def)
qed

theorem closed_connections_count_as_success_witness:
  "\<exists>n ops. resp_worker \<lparr>tcp_connect = Pair True, tcp_write = (\<lambda>_. Pair True), tcp_read = (\<lambda>_. Pair (Some []))\<rparr> 10 0 3 (\<lambda>i. 2 * i)
        (\<lambda>_. \<lparr>rd_key = 1, rd_op = 0, rd_value = 5\<rparr>) (\<lambda>_. 5) () = Some (Inr (ops, ()))
      \<and> ops = worker_ops (map (\<lambda>j. (True, 5)) [0..<n]) \<and> run_combined 30 5 [] ops = Inr (6, load_summary [] ops, 0)"
proof -
  have clk: "\<exists>j. 0 + 3 \<le> 2 * (j :: nat)" by (rule exI [of _ 2]) simp
  from closed_connections_count_as_success [OF clk, of 10 5 "\<lparr>tcp_connect = Pair True, tcp_write = (\<lambda>_. Pair True), tcp_read = (\<lambda>_. Pair (Some []))\<rparr>" "()"
      "\<lambda>_. \<lparr>rd_key = 1, rd_op = 0, rd_value = 5\<rparr>" "\<lambda>_. 5" 30]
  show ?thesis by auto
qed

end
