(* ===== verification/Std_Float.thy ===== *)
theory Std_Float
  imports Complex_Main "HOL-Library.Log_Nat" Std_Text
begin

text \<open>
  The part of \<^verbatim>\<open>f64\<close> that the load tool and the tests of the ring compute with: conversion from integers, the
  four operations, each the exact result rounded to 53 binary digits, ties to even, comparison, and printing
  with a fixed number of decimals. A finite double is the rational number it stands for; negative zero,
  negative infinity, subnormal numbers and overflow do not arise from their numbers, which are zero or lie
  between \<open>2^-64\<close> and \<open>2^72\<close>.

  Rounding keeps the order, and a quotient of counts below \<open>2^53\<close>, taken as a percentage, is 100 only if
  the counts are equal.
\<close>

datatype f64 = Finite rat | Infinity | NaN

section \<open>Rounding\<close>

text \<open>To the nearest integer, ties to the even one.\<close>
definition round_even :: "rat \<Rightarrow> int" where
  "round_even x =
     (let n = \<lfloor>x\<rfloor>; r = x - of_int n in
      if r < 1 / 2 \<or> r = 1 / 2 \<and> even n then n else n + 1)"

text \<open>The \<open>e\<close> with \<open>2^e \<le> x < 2^(e + 1)\<close>, for positive \<open>x\<close>.\<close>
definition binary_exponent :: "rat \<Rightarrow> int" where
  "binary_exponent x =
     (if 1 \<le> x then int (floorlog 2 (nat \<lfloor>x\<rfloor>)) - 1
      else - int (floorlog 2 (nat (\<lceil>1 / x\<rceil> - 1))))"

definition f64_round :: "rat \<Rightarrow> rat" where
  "f64_round x =
     (if x = 0 then 0
      else let u = binary_exponent \<bar>x\<bar> - 52 in of_int (round_even (x / 2 powi u)) * 2 powi u)"

section \<open>Operations\<close>

definition f64_of :: "nat \<Rightarrow> f64" where
  "f64_of n = Finite (f64_round (of_nat n))"

fun f64_div :: "f64 \<Rightarrow> f64 \<Rightarrow> f64" where
  "f64_div (Finite x) (Finite y) = (if y = 0 then (if x = 0 then NaN else Infinity) else Finite (f64_round (x / y)))"
| "f64_div (Finite x) Infinity = Finite 0"
| "f64_div Infinity (Finite y) = Infinity"
| "f64_div _ _ = NaN"

fun f64_mult :: "f64 \<Rightarrow> f64 \<Rightarrow> f64" where
  "f64_mult (Finite x) (Finite y) = Finite (f64_round (x * y))"
| "f64_mult (Finite x) Infinity = (if x = 0 then NaN else Infinity)"
| "f64_mult Infinity (Finite y) = (if y = 0 then NaN else Infinity)"
| "f64_mult Infinity Infinity = Infinity"
| "f64_mult _ _ = NaN"

fun f64_add :: "f64 \<Rightarrow> f64 \<Rightarrow> f64" where
  "f64_add (Finite x) (Finite y) = Finite (f64_round (x + y))"
| "f64_add NaN _ = NaN"
| "f64_add _ NaN = NaN"
| "f64_add _ _ = Infinity"

text \<open>The tool subtracts finite numbers only.\<close>
fun f64_minus :: "f64 \<Rightarrow> f64 \<Rightarrow> f64" where
  "f64_minus (Finite x) (Finite y) = Finite (f64_round (x - y))"
| "f64_minus Infinity (Finite y) = Infinity"
| "f64_minus _ _ = NaN"

text \<open>A comparison with NaN is false.\<close>
fun f64_less :: "f64 \<Rightarrow> f64 \<Rightarrow> bool" where
  "f64_less (Finite x) (Finite y) \<longleftrightarrow> x < y"
| "f64_less (Finite _) Infinity \<longleftrightarrow> True"
| "f64_less _ _ \<longleftrightarrow> False"

text \<open>\<^verbatim>\<open>{:.p}\<close>: the exact value rounded to \<open>p\<close> decimals, ties to even.\<close>
fun f64_show :: "nat \<Rightarrow> f64 \<Rightarrow> bytes" where
  "f64_show p (Finite x) =
     (let n = nat \<bar>round_even (x * 10 ^ p)\<bar>; frac = dec_nat (n mod 10 ^ p) in
      (if x < 0 then ''-'' else '''') @ dec_nat (n div 10 ^ p)
      @ (if p = 0 then '''' else ''.'' @ replicate (p - length frac) (CHR ''0'') @ frac))"
| "f64_show p Infinity = ''inf''"
| "f64_show p NaN = ''NaN''"

section \<open>Laws of rounding\<close>

lemma round_even_of_int [simp]: "round_even (of_int n) = n"
  by (simp add: round_even_def)

lemma round_even_le: "x \<le> of_int n \<Longrightarrow> round_even x \<le> n"
  unfolding round_even_def Let_def by (auto simp: floor_le_iff; linarith)

lemma round_even_ge: "of_int n \<le> x \<Longrightarrow> n \<le> round_even x"
  unfolding round_even_def Let_def by (auto simp: le_floor_iff; linarith)

lemma round_even_below: "x < of_int n - 1 / 2 \<Longrightarrow> round_even x \<le> n - 1"
  by (auto simp: round_even_def Let_def floor_le_iff) linarith+

lemma two_powi_less: "(2 :: rat) powi m < 2 powi n \<Longrightarrow> m < n"
  using power_int_increasing [of n m "2 :: rat"] by (cases "m < n") auto

lemma floorlog_rat:
  assumes "0 < n"
  obtains k where "floorlog 2 n = Suc k" "(2 :: rat) ^ k \<le> of_nat n" "rat_of_nat n + 1 \<le> 2 ^ Suc k"
proof -
  have b: "2 ^ (floorlog 2 n - 1) \<le> n" "n < 2 ^ floorlog 2 n" using floorlog_bounds [of n 2] assms by simp_all
  then obtain k where k: "floorlog 2 n = Suc k" using assms by (cases "floorlog 2 n") auto
  have "of_nat (2 ^ k) \<le> rat_of_nat n" "rat_of_nat (n + 1) \<le> of_nat (2 ^ Suc k)" using b unfolding k by (simp_all only: of_nat_le_iff) simp_all
  then show thesis using k that by simp
qed

lemma binary_exponent_bounds:
  assumes "0 < x"
  shows "2 powi binary_exponent x \<le> x" "x < 2 powi (binary_exponent x + 1)"
proof -
  have "2 powi binary_exponent x \<le> x \<and> x < 2 powi (binary_exponent x + 1)"
  proof (cases "1 \<le> x")
    case True
    define n where "n = nat \<lfloor>x\<rfloor>"
    have n: "0 < n" "rat_of_nat n \<le> x" "x < rat_of_nat n + 1" using True by (simp_all add: n_def of_nat_nat) linarith
    obtain k where k: "floorlog 2 n = Suc k" "(2 :: rat) ^ k \<le> of_nat n" "rat_of_nat n + 1 \<le> 2 ^ Suc k" by (rule floorlog_rat [OF n(1)])
    have e: "binary_exponent x = int k" "binary_exponent x + 1 = int (Suc k)" using True k(1) by (simp_all add: binary_exponent_def n_def)
    show ?thesis unfolding e(2) unfolding e(1) power_int_of_nat
      using order.trans [OF k(2) n(2)] order.strict_trans2 [OF n(3) k(3)] by (rule conjI)
  next
    case False
    define n where "n = nat (\<lceil>1 / x\<rceil> - 1)"
    have "1 < 1 / x" using assms False by simp
    then have n: "0 < n" "rat_of_nat n < 1 / x" "1 / x \<le> rat_of_nat n + 1" by (simp_all add: n_def of_nat_nat) linarith+
    obtain k where k: "floorlog 2 n = Suc k" "(2 :: rat) ^ k \<le> of_nat n" "rat_of_nat n + 1 \<le> 2 ^ Suc k" by (rule floorlog_rat [OF n(1)])
    have e: "binary_exponent x = - int (Suc k)" "binary_exponent x + 1 = - int k" using False k(1) by (simp_all add: binary_exponent_def n_def)
    have "1 / x \<le> 2 ^ Suc k" "2 ^ k < 1 / x" using n(2,3) k(2,3) by linarith+
    then show ?thesis unfolding e(2) unfolding e(1) power_int_minus power_int_of_nat using assms by (simp add: field_simps)
  qed
  then show "2 powi binary_exponent x \<le> x" "x < 2 powi (binary_exponent x + 1)" by blast+
qed

lemma f64_round_nonneg: "0 \<le> x \<Longrightarrow> 0 \<le> f64_round x"
  by (auto simp: f64_round_def Let_def intro!: mult_nonneg_nonneg round_even_ge)

text \<open>Integers of up to 53 bits are represented exactly.\<close>
lemma f64_round_int:
  assumes "n < 2 ^ 53"
  shows "f64_round (of_nat n) = of_nat n"
proof (cases "n = 0")
  case False
  let ?u = "binary_exponent (rat_of_nat n) - 52"
  have "rat_of_nat n < of_nat (2 ^ 53)" using assms by (simp only: of_nat_less_iff)
  then have "(2 :: rat) powi binary_exponent (rat_of_nat n) < 2 powi 53"
    using binary_exponent_bounds(1) [of "rat_of_nat n"] False by simp
  then have u: "?u \<le> 0" using two_powi_less by fastforce
  have "rat_of_nat n / 2 powi ?u = rat_of_nat n * 2 ^ nat (- ?u)"
    using u power_int_minus [of "2 :: rat" ?u] by (simp add: power_int_nonneg_exp divide_inverse)
  also have "\<dots> = of_int (int n * 2 ^ nat (- ?u))" by simp
  finally have scaled: "rat_of_nat n / 2 powi ?u = of_int (int n * 2 ^ nat (- ?u))" .
  then have "round_even (rat_of_nat n / 2 powi ?u) = int n * 2 ^ nat (- ?u)" by (simp only: round_even_of_int)
  then have "f64_round (rat_of_nat n) = of_int (int n * 2 ^ nat (- ?u)) * 2 powi ?u"
    using False by (simp only: f64_round_def Let_def) simp
  then show ?thesis unfolding scaled [symmetric] by simp
qed (simp add: f64_round_def)

text \<open>What lies below the double \<open>k \<cdot> 2^v\<close> by more than half of its distance to the next smaller one is rounded to that or lower.\<close>
lemma f64_round_below:
  assumes "0 \<le> x" "2 ^ 52 < k" "k \<le> 2 ^ 53" "x < (of_int k - 1 / 2) * 2 powi v"
  shows "f64_round x \<le> (of_int k - 1) * 2 powi v"
proof (cases "x = 0")
  case True
  then show ?thesis using assms(2) by (simp add: f64_round_def)
next
  case False
  then have x: "0 < x" using assms(1) by simp
  let ?e = "binary_exponent x"
  let ?u = "?e - 52"
  note b = binary_exponent_bounds [OF x]
  have round: "f64_round x = of_int (round_even (x / 2 powi ?u)) * 2 powi ?u" using x by (simp add: f64_round_def Let_def)
  have "(of_int k - 1 / 2 :: rat) \<le> 2 ^ 53" using of_int_le_iff [of k "2 ^ 53", where 'a = rat] assms(3) by simp
  then have "(of_int k - 1 / 2) * 2 powi v \<le> (2 :: rat) ^ 53 * 2 powi v" by (intro mult_right_mono) simp_all
  then have "x < 2 ^ 53 * 2 powi v" using assms(4) by linarith
  then have "2 powi ?e < (2 :: rat) powi (v + 53)" using b(1) by (simp add: power_int_add)
  then have u: "?u \<le> v" using two_powi_less by fastforce
  show ?thesis
  proof (cases "?u = v")
    case True
    have "round_even (x / 2 powi v) \<le> k - 1" using assms(4) by (intro round_even_below) (simp add: field_simps)
    then have "rat_of_int (round_even (x / 2 powi v)) \<le> of_int k - 1" by linarith
    then show ?thesis unfolding round True by (intro mult_right_mono) simp_all
  next
    case False
    have "x / 2 powi ?u \<le> of_int (2 ^ 53)" using b(2) by (simp add: field_simps power_int_add power_int_diff)
    then have "round_even (x / 2 powi ?u) \<le> 2 ^ 53" by (rule round_even_le)
    then have "f64_round x \<le> 2 ^ 53 * 2 powi ?u" unfolding round by (intro mult_right_mono) simp_all
    also have "\<dots> = 2 powi (?u + 53)" by (subst power_int_add) simp_all
    also have "\<dots> \<le> 2 powi (v + 52)" using u False by (intro power_int_increasing) simp_all
    also have "\<dots> = 2 ^ 52 * 2 powi v" by (simp add: power_int_add)
    also have "\<dots> \<le> (of_int k - 1) * 2 powi v" using assms(2) by (intro mult_right_mono) simp_all
    finally show ?thesis .
  qed
qed

text \<open>Rounding keeps the order.\<close>
lemma round_even_mono: "x \<le> y \<Longrightarrow> round_even x \<le> round_even y"
proof (cases "\<lfloor>x\<rfloor> = \<lfloor>y\<rfloor>")
  case True
  then show "x \<le> y \<Longrightarrow> ?thesis" by (auto simp: round_even_def Let_def)
next
  case False
  assume "x \<le> y"
  then have "\<lfloor>x\<rfloor> + 1 \<le> \<lfloor>y\<rfloor>" using False floor_mono [of x y] by simp
  then show ?thesis by (auto simp: round_even_def Let_def)
qed

lemma f64_round_mono:
  assumes "0 \<le> x" "x \<le> y"
  shows "f64_round x \<le> f64_round y"
proof (cases "x = 0")
  case True
  then show ?thesis using f64_round_nonneg [of y] assms by (simp add: f64_round_def)
next
  case False
  then have pos: "0 < x" "0 < y" using assms by simp_all
  let ?u = "\<lambda>z. binary_exponent z - 52"
  note bx = binary_exponent_bounds [OF pos(1)] and b_y = binary_exponent_bounds [OF pos(2)]
  have r: "f64_round z = of_int (round_even (z / 2 powi ?u z)) * 2 powi ?u z" if "0 < z" for z
    using that by (simp add: f64_round_def Let_def)
  have "2 powi binary_exponent x < (2 :: rat) powi (binary_exponent y + 1)" using bx b_y assms by linarith
  then have le: "binary_exponent x \<le> binary_exponent y" using two_powi_less by fastforce
  show ?thesis
  proof (cases "binary_exponent x = binary_exponent y")
    case True
    have "x / 2 powi ?u y \<le> y / 2 powi ?u y" using assms by (simp add: divide_right_mono)
    then show ?thesis unfolding r [OF pos(1)] r [OF pos(2)] True by (intro mult_right_mono) (simp_all add: round_even_mono)
  next
    case False
    have "x / 2 powi ?u x \<le> of_int (2 ^ 53)" using bx(2) by (simp add: field_simps power_int_add power_int_diff)
    then have "round_even (x / 2 powi ?u x) \<le> 2 ^ 53" by (rule round_even_le)
    then have "f64_round x \<le> 2 ^ 53 * 2 powi ?u x" unfolding r [OF pos(1)] by (intro mult_right_mono) simp_all
    also have "\<dots> = 2 powi (?u x + 53)" by (subst power_int_add) simp_all
    also have "\<dots> \<le> 2 powi (?u y + 52)" using le False by (intro power_int_increasing) simp_all
    also have "\<dots> = 2 ^ 52 * 2 powi ?u y" by (subst power_int_add) simp_all
    also have "\<dots> \<le> f64_round y"
    proof -
      have "of_int (2 ^ 52) \<le> y / 2 powi ?u y" using b_y(1) by (simp add: field_simps power_int_diff)
      then have "2 ^ 52 \<le> round_even (y / 2 powi ?u y)" by (rule round_even_ge)
      then have "(of_int (2 ^ 52) :: rat) \<le> of_int (round_even (y / 2 powi ?u y))" by (simp only: of_int_le_iff)
      then show ?thesis unfolding r [OF pos(2)] by (intro mult_right_mono) simp_all
    qed
    finally show ?thesis .
  qed
qed

text \<open>A percentage of counts of up to 53 bits, computed in doubles.\<close>
definition f64_percent :: "rat \<Rightarrow> rat \<Rightarrow> rat" where
  "f64_percent s t = f64_round (f64_round (s / t) * 100)"

lemma f64_round_numerals: "f64_round 1 = 1" "f64_round 100 = 100" "f64_round 0 = 0"
  using f64_round_int [of 1] f64_round_int [of 100] by (simp_all add: f64_round_def)

lemma f64_percent_below:
  assumes "s < t" "t < 2 ^ 53"
  shows "f64_percent (of_nat s) (of_nat t) < 100" "0 \<le> f64_percent (of_nat s) (of_nat t)"
proof -
  let ?q = "f64_round (of_nat s / of_nat t)"
  show "0 \<le> f64_percent (of_nat s) (of_nat t)" by (simp add: f64_percent_def f64_round_nonneg)
  have st: "rat_of_nat s + 1 \<le> of_nat t" "0 < rat_of_nat t" using assms(1) by (metis Suc_leI of_nat_Suc of_nat_le_iff add.commute) (use assms(1) in simp)
  have t: "rat_of_nat t < 2 ^ 53" using assms(2) by (metis of_nat_less_iff of_nat_numeral of_nat_power)
  have "rat_of_nat s / of_nat t \<le> 1 - 1 / of_nat t" using st by (simp add: field_simps)
  also have "\<dots> < 1 - 1 / 2 ^ 53" using st(2) t by (simp add: field_simps)
  also have "\<dots> < 1 - 1 / 2 ^ 54" by simp
  also have "\<dots> = (of_int (2 ^ 53) - 1 / 2) * 2 powi (- 53)" by (simp add: power_int_minus)
  finally have "rat_of_nat s / of_nat t < (of_int (2 ^ 53) - 1 / 2) * 2 powi (- 53)" .
  from f64_round_below [OF _ _ _ this] have q: "?q \<le> 1 - 1 / 2 ^ 53" by (simp add: power_int_minus)
  have "0 \<le> ?q" by (simp add: f64_round_nonneg)
  moreover have "?q * 100 < (of_int (100 * 2 ^ 46) - 1 / 2) * 2 powi (- 46)" using q by (simp add: power_int_minus)
  ultimately have "f64_round (?q * 100) \<le> (of_int (100 * 2 ^ 46) - 1) * 2 powi (- 46)" by (intro f64_round_below) simp_all
  also have "\<dots> < 100" by (simp add: power_int_minus)
  finally show "f64_percent (of_nat s) (of_nat t) < 100" by (simp add: f64_percent_def)
qed

lemma f64_percent_all: "t \<noteq> 0 \<Longrightarrow> f64_percent t t = 100"
  by (simp add: f64_percent_def f64_round_numerals)

lemma f64_percent_mono: "0 \<le> s \<Longrightarrow> s \<le> s' \<Longrightarrow> 0 < t \<Longrightarrow> f64_percent s t \<le> f64_percent s' t"
  unfolding f64_percent_def by (intro f64_round_mono mult_right_mono divide_right_mono mult_nonneg_nonneg f64_round_nonneg) simp_all

end
