(* ===== verification/Demo_Tool.thy ===== *)
theory Demo_Tool
  imports Load_Tool Std_Float "HOL-Library.Sublist"
begin

text \<open>
  The three commands of \<^verbatim>\<open>tools/demo/src/main.rs\<close> as whole programs: what they print, the lines they wait for, how long they
  sleep, the report they save and the code they exit with. The workers are those of \<open>Load_Tool\<close>; their updates of the
  counters take effect in an order that \<open>tw_mix\<close> chooses. Log messages (\<^verbatim>\<open>info!\<close>) are left out.

  A combined run ends when the clocks of its workers do, sleeps no longer than it was told to, and its exit
  code and its report agree on whether a request failed.
\<close>

section \<open>Programs that print\<close>

text \<open>\<^verbatim>\<open>println!\<close>, \<^verbatim>\<open>eprintln!\<close>, reading a line, \<^verbatim>\<open>tokio::time::sleep\<close> in seconds, and \<^verbatim>\<open>fs::write\<close>.\<close>
datatype effect = Print bytes | Eprint bytes | ReadLine | Sleep nat | WriteFile bytes bytes

datatype ending = Returns | Exits nat | Panics panic | ReadLineFails

datatype json = JInt nat | JFloat f64 | JObject "(bytes \<times> json) list"

text \<open>The surroundings: reading from the terminal, the wall clock, \<^verbatim>\<open>serde_json\<close>'s printer and the file system.\<close>
record tool_io =
  io_read_line :: "nat \<Rightarrow> bool"
  io_epoch_secs :: nat
  io_pretty :: "json \<Rightarrow> bytes option"
  io_write :: "bytes \<Rightarrow> bytes \<Rightarrow> bytes option"

definition nl :: bytes where "nl = [CHR 0x0A]"
definition double_rule :: bytes where "double_rule = concat (replicate 47 [CHR 0xE2, CHR 0x95, CHR 0x90])"
definition single_rule :: bytes where "single_rule = concat (replicate 47 [CHR 0xE2, CHR 0x94, CHR 0x80])"
definition em_dash :: bytes where "em_dash = [CHR 0xE2, CHR 0x80, CHR 0x94]"
definition arrow :: bytes where "arrow = [CHR 0xE2, CHR 0x86, CHR 0x92]"
definition micros :: bytes where "micros = [CHR 0xCE, CHR 0xBC, CHR ''s'']"

definition show_u64 :: "u64 \<Rightarrow> bytes" where
  "show_u64 n = dec_nat (unat n)"

definition show_latency :: "u64 \<times> u64 \<times> u64 \<Rightarrow> bytes" where
  "show_latency = (\<lambda>(p50, p99, mx). ''p50='' @ show_u64 p50 @ micros @ ''  p99='' @ show_u64 p99 @ micros @ ''  max='' @ show_u64 mx @ micros)"

section \<open>Load\<close>

definition ops_per_sec :: "u64 \<Rightarrow> u64 \<Rightarrow> f64" where
  "ops_per_sec total_ops duration_secs = f64_div (f64_of (unat total_ops)) (f64_of (unat duration_secs))"

definition success_rate :: "u64 \<Rightarrow> u64 \<Rightarrow> f64" where
  "success_rate total_ops total_success =
     (if total_ops > 0 then f64_mult (f64_div (f64_of (unat total_success)) (f64_of (unat total_ops))) (Finite 100) else Finite 0)"

text \<open>What a worker task meets: the clock at the heads of its loop, its random draws, the latencies and its connection.\<close>
record 'w worker_env =
  we_start :: instant
  we_clk :: "nat \<Rightarrow> instant"
  we_draws :: "nat \<Rightarrow> draw"
  we_lat :: "nat \<Rightarrow> u64"
  we_world :: 'w

text \<open>
  The network by address; the environments of the gRPC (\<open>True\<close>) and RESP workers of the warm-up (\<open>False\<close>) and of the main
  test, by number; and the order in which the updates of a group of workers take effect.
\<close>
record 'w tool_world =
  tw_ext :: externs
  tw_grpc :: "addr \<Rightarrow> 'w load_net"
  tw_resp :: "addr \<Rightarrow> 'w tcp"
  tw_env :: "bool \<Rightarrow> bool \<Rightarrow> nat \<Rightarrow> 'w worker_env"
  tw_mix :: "metric_op list list \<Rightarrow> metric_op list"

text \<open>A task that panics is awaited like any other (\<^verbatim>\<open>let _ = handle.await\<close>); it panics at its first request.\<close>
definition joined :: "(metric_op list \<times> 'w) run option \<Rightarrow> metric_op list option" where
  "joined r = (case r of None \<Rightarrow> None | Some (Inl p) \<Rightarrow> Some [] | Some (Inr (ops, w)) \<Rightarrow> Some ops)"

text \<open>Spawning the workers and waiting for all of them: the updates of the two groups of counters.\<close>
definition run_workers :: "'w tool_world \<Rightarrow> bool \<Rightarrow> addr \<Rightarrow> addr \<Rightarrow> nat \<Rightarrow> u64 \<Rightarrow> nat \<Rightarrow> (metric_op list \<times> metric_op list) option" where
  "run_workers tw main router_grpc router_resp workers duration_secs key_space =
     (case worker_split workers of (grpc_workers, resp_workers) \<Rightarrow>
      case those (map (\<lambda>i. let e = tw_env tw main True i in
             joined (grpc_worker (tw_ext tw) (tw_grpc tw router_grpc) router_grpc key_space (we_start e) (from_secs duration_secs)
                       (we_clk e) (we_draws e) (we_lat e) (we_world e))) [0..<grpc_workers]) of
        None \<Rightarrow> None
      | Some gs \<Rightarrow>
      case those (map (\<lambda>i. let e = tw_env tw main False i in
             joined (resp_worker (tw_resp tw router_resp) key_space (we_start e) (from_secs duration_secs)
                       (we_clk e) (we_draws e) (we_lat e) (we_world e))) [0..<resp_workers]) of
        None \<Rightarrow> None
      | Some rs \<Rightarrow> Some (tw_mix tw gs, tw_mix tw rs))"

definition load_lines :: "nat \<Rightarrow> u64 \<Rightarrow> load_report \<Rightarrow> effect list" where
  "load_lines workers duration_secs rep =
     (let (grpc_workers, resp_workers) = worker_split workers;
          rate = success_rate (rep_total rep) (rep_success rep) in
      [Print (nl @ double_rule),
       Print ''Load Test Summary'',
       Print double_rule,
       Print (''Duration:        '' @ show_u64 duration_secs @ ''s''),
       Print (''Workers:         '' @ dec_nat workers @ '' ('' @ dec_nat grpc_workers @ '' gRPC + '' @ dec_nat resp_workers @ '' RESP)''),
       Print single_rule,
       Print (''Total ops:       '' @ show_u64 (rep_total rep)),
       Print (''Successful:      '' @ show_u64 (rep_success rep) @ ''  ('' @ f64_show 2 rate @ ''%)''),
       Print (''Failed:          '' @ show_u64 (rep_failed rep) @ ''  ('' @ f64_show 2 (f64_minus (Finite 100) rate) @ ''%)''),
       Print (''Throughput:      '' @ f64_show 0 (ops_per_sec (rep_total rep) duration_secs) @ '' ops/sec''),
       Print single_rule,
       Print (''Latency (gRPC):  '' @ show_latency (rep_grpc rep)),
       Print (''Latency (RESP):  '' @ show_latency (rep_resp rep)),
       Print (double_rule @ nl)])"

text \<open>\<open>None\<close>: a worker never ends.\<close>
definition run_load_test :: "'w tool_world \<Rightarrow> bool \<Rightarrow> addr \<Rightarrow> addr \<Rightarrow> nat \<Rightarrow> u64 \<Rightarrow> nat \<Rightarrow> effect list option" where
  "run_load_test tw main router_grpc router_resp workers duration_secs key_space =
     (case run_workers tw main router_grpc router_resp workers duration_secs key_space of
        None \<Rightarrow> None
      | Some (grpc_ops, resp_ops) \<Rightarrow> Some (load_lines workers duration_secs (load_summary grpc_ops resp_ops)))"

section \<open>Chaos\<close>

fun chaos_rounds :: "tool_io \<Rightarrow> nat \<Rightarrow> u64 \<Rightarrow> nat list \<Rightarrow> effect list \<times> ending" where
  "chaos_rounds io rounds kill_interval_secs [] =
     ([Print double_rule,
       Print ''Chaos rounds complete!'',
       Print ''Check your cluster logs to verify recovery.'',
       Print (double_rule @ nl)], Returns)"
| "chaos_rounds io rounds kill_interval_secs (round_no # rest) =
     (let prompt =
        [Print (''Round '' @ dec_nat round_no @ ''/'' @ dec_nat rounds),
         Print ''  1. Identify a running node'',
         Print ''  2. Kill the node process (Ctrl-C or kill command)'',
         Print ''  3. Wait for gossip to detect failure (~5s)'',
         Print ''  4. Restart the node with --seed-nodes'',
         Print ''  5. Observe rebalance and recovery'',
         Print [],
         Print ''Press Enter when ready to continue to next round...'',
         ReadLine] in
      if \<not> io_read_line io round_no then (prompt, ReadLineFails)
      else (case chaos_rounds io rounds kill_interval_secs rest of
              (effs, end) \<Rightarrow>
                (prompt @ [Print (''  '' @ arrow @ '' Sleeping for '' @ show_u64 kill_interval_secs @ '' seconds...'' @ nl),
                           Sleep (unat kill_interval_secs)] @ effs, end)))"

definition run_chaos_test :: "tool_io \<Rightarrow> nat \<Rightarrow> u64 \<Rightarrow> effect list \<times> ending" where
  "run_chaos_test io rounds kill_interval_secs =
     (case chaos_rounds io rounds kill_interval_secs [1..<rounds + 1] of
        (effs, end) \<Rightarrow>
          ([Print (nl @ double_rule),
            Print (''Chaos Engine '' @ em_dash @ '' Manual Node Kill Test''),
            Print double_rule,
            Print ''This tool simulates chaos by instructing you to'',
            Print ''manually kill and restart nodes.'',
            Print [],
            Print ''Setup: Ensure your cluster is running before starting.'',
            Print (single_rule @ nl)] @ effs, end))"

section \<open>The combined run\<close>

text \<open>\<^verbatim>\<open>as_secs_f64\<close>\<close>
definition as_secs_f64 :: "duration \<Rightarrow> f64" where
  "as_secs_f64 d = f64_add (f64_of (d div nanos_per_sec)) (f64_div (f64_of (d mod nanos_per_sec)) (f64_of nanos_per_sec))"

definition combined_rounds :: "nat \<Rightarrow> nat \<Rightarrow> effect list" where
  "combined_rounds rounds chaos_interval =
     concat (map (\<lambda>round_no.
       [Print (''Chaos Round '' @ dec_nat round_no @ ''/'' @ dec_nat rounds),
        Print (''  '' @ arrow @ '' Kill a node now, then restart it''),
        Print (''  '' @ arrow @ '' Load continues in background...''),
        Sleep chaos_interval,
        Print []]) [1..<rounds + 1])"

definition combined_lines :: "f64 \<Rightarrow> nat \<Rightarrow> nat \<Rightarrow> load_report \<Rightarrow> effect list" where
  "combined_lines elapsed rounds workers rep =
     (let (grpc_workers, resp_workers) = worker_split workers;
          rate = success_rate (rep_total rep) (rep_success rep) in
      [Print (nl @ double_rule),
       Print (''Self-Healing Cache '' @ em_dash @ '' Chaos Run Summary''),
       Print double_rule,
       Print (''Duration:          '' @ f64_show 1 elapsed @ ''s''),
       Print (''Nodes killed:      '' @ dec_nat rounds @ '' (across '' @ dec_nat rounds @ '' rounds)''),
       Print (''Load workers:      '' @ dec_nat workers @ '' ('' @ dec_nat grpc_workers @ '' gRPC + '' @ dec_nat resp_workers @ '' RESP)''),
       Print single_rule,
       Print (''Total ops:         '' @ show_u64 (rep_total rep)),
       Print (''Successful:        '' @ show_u64 (rep_success rep) @ ''  ('' @ f64_show 2 rate @ ''%)''),
       Print (''Hard failures:     '' @ show_u64 (rep_failed rep) @ ''  ('' @ f64_show 2 (f64_minus (Finite 100) rate) @ ''%)''),
       Print ''Retried+recovered: 0      (0.00%)'',
       Print single_rule,
       Print (''Latency (gRPC):    '' @ show_latency (rep_grpc rep)),
       Print (''Latency (RESP):    '' @ show_latency (rep_resp rep)),
       Print single_rule,
       Print ''Node recovery times (avg): N/A (manual test)'',
       Print (double_rule @ nl)])"

definition latency_json :: "u64 \<times> u64 \<times> u64 \<Rightarrow> json" where
  "latency_json = (\<lambda>(p50, p99, mx). JObject [(''p50_us'', JInt (unat p50)), (''p99_us'', JInt (unat p99)), (''max_us'', JInt (unat mx))])"

definition report_json :: "f64 \<Rightarrow> nat \<Rightarrow> nat \<Rightarrow> load_report \<Rightarrow> json" where
  "report_json elapsed rounds workers rep = JObject
     [(''duration_secs'', JFloat elapsed),
      (''nodes_killed'', JInt rounds),
      (''workers'', JInt workers),
      (''total_ops'', JInt (unat (rep_total rep))),
      (''successful'', JInt (unat (rep_success rep))),
      (''failed'', JInt (unat (rep_failed rep))),
      (''success_rate'', JFloat (success_rate (rep_total rep) (rep_success rep))),
      (''latency_grpc'', latency_json (rep_grpc rep)),
      (''latency_resp'', latency_json (rep_resp rep))]"

definition save_report :: "tool_io \<Rightarrow> json \<Rightarrow> effect list" where
  "save_report io report =
     (let filename = ''chaos_report_'' @ dec_nat (io_epoch_secs io) @ ''.json'' in
      case io_pretty io report of
        None \<Rightarrow> []
      | Some json_str \<Rightarrow>
          WriteFile filename json_str #
          (case io_write io filename json_str of
             Some e \<Rightarrow> [Eprint (''Failed to write report: '' @ e)]
           | None \<Rightarrow> [Print (''Report saved to '' @ filename)]))"

text \<open>The warm-up, the rounds during the main test, and its report; \<open>elapsed\<close> is what the clock shows at the end.\<close>
definition run_combined_test :: "'w tool_world \<Rightarrow> tool_io \<Rightarrow> duration \<Rightarrow> addr \<Rightarrow> addr \<Rightarrow> nat \<Rightarrow> u64 \<Rightarrow> nat \<Rightarrow> (effect list \<times> ending) option" where
  "run_combined_test tw io elapsed router_grpc router_resp workers duration_secs rounds =
     (let intro =
        [Print (nl @ double_rule),
         Print (''Self-Healing Cache '' @ em_dash @ '' Combined Chaos Run''),
         Print double_rule,
         Print ''This will run load workers while you perform chaos.'',
         Print ''Follow the prompts to kill/restart nodes during load.'',
         Print (single_rule @ nl),
         Print ''Warm-up: Running 5s load test...''] in
      case run_load_test tw False router_grpc router_resp (workers div 2) 5 1000 of
        None \<Rightarrow> None
      | Some warm \<Rightarrow>
          let started = intro @ warm @
            [Print (nl @ double_rule),
             Print (''Starting main test: '' @ dec_nat rounds @ '' rounds''),
             Print (double_rule @ nl)] in
          if rounds = 0 then Some (started, Panics DivideByZero)
          else case run_workers tw True router_grpc router_resp workers duration_secs 1000 of
            None \<Rightarrow> None
          | Some (grpc_ops, resp_ops) \<Rightarrow>
              let rep = load_summary grpc_ops resp_ops; secs = as_secs_f64 elapsed in
              Some (started @ combined_rounds rounds (unat duration_secs div rounds) @ combined_lines secs rounds workers rep
                      @ save_report io (report_json secs rounds workers rep),
                    if rep_failed rep > 0 then Exits 1 else Returns))"

section \<open>The command line\<close>

datatype commands =
    Load addr addr nat u64 nat
  | Chaos nat u64
  | Run addr addr nat u64 nat

definition demo_main :: "'w tool_world \<Rightarrow> tool_io \<Rightarrow> duration \<Rightarrow> commands \<Rightarrow> (effect list \<times> ending) option" where
  "demo_main tw io elapsed command =
     (case command of
        Load router_grpc router_resp workers duration_secs key_space \<Rightarrow>
          map_option (\<lambda>effs. (effs, Returns)) (run_load_test tw True router_grpc router_resp workers duration_secs key_space)
      | Chaos rounds kill_interval_secs \<Rightarrow> Some (run_chaos_test io rounds kill_interval_secs)
      | Run router_grpc router_resp workers duration_secs rounds \<Rightarrow>
          run_combined_test tw io elapsed router_grpc router_resp workers duration_secs rounds)"

section \<open>Workers end\<close>

lemma those_map_ex:
  assumes "\<forall>x\<in>set xs. \<exists>y. f x = Some (g y)"
  shows "\<exists>ys. those (map f xs) = Some (map g ys)"
proof -
  from bchoice [OF assms] obtain h where "\<forall>x\<in>set xs. f x = Some (g (h x))" by blast
  then have "those (map f xs) = Some (map g (map h xs))" using those_map_Some [of xs f "g \<circ> h"] by simp
  then show ?thesis by blast
qed

lemma joined_loop:
  assumes "\<exists>j. start + dur \<le> clk j" "0 < dur"
  shows "\<exists>outs. joined (load_loop call key_space start dur clk draws lat 0 w []) = Some (worker_ops outs)"
  using worker_stops [OF assms, of call key_space draws lat w] by (auto simp: joined_def Let_def intro: exI [of _ "[]"])

definition running_clocks :: "'w tool_world \<Rightarrow> bool" where
  "running_clocks tw \<longleftrightarrow> (\<forall>main grpc i t. \<exists>j. t \<le> we_clk (tw_env tw main grpc i) j)"

lemma run_workers_ends:
  assumes "running_clocks tw" "0 < duration_secs"
  shows "\<exists>gouts routs. run_workers tw main router_grpc router_resp workers duration_secs key_space
       = Some (tw_mix tw (map worker_ops gouts), tw_mix tw (map worker_ops routs))"
proof -
  have dur: "0 < from_secs duration_secs" using assms(2) by (simp add: from_secs_def nanos_per_sec_def unat_gt_0)
  have clk: "\<exists>j. t \<le> we_clk (tw_env tw m g i) j" for t m g i using assms(1) by (auto simp: running_clocks_def)
  let ?g = "\<lambda>i. let e = tw_env tw main True i in joined (grpc_worker (tw_ext tw) (tw_grpc tw router_grpc) router_grpc key_space
      (we_start e) (from_secs duration_secs) (we_clk e) (we_draws e) (we_lat e) (we_world e))"
  let ?r = "\<lambda>i. let e = tw_env tw main False i in joined (resp_worker (tw_resp tw router_resp) key_space
      (we_start e) (from_secs duration_secs) (we_clk e) (we_draws e) (we_lat e) (we_world e))"
  have none: "\<exists>outs. joined (Some (Inr ([], w))) = Some (worker_ops outs)" for w :: 'a
    by (auto simp: joined_def intro: exI [of _ "[]"])
  have "\<exists>outs. ?g i = Some (worker_ops outs)" "\<exists>outs. ?r i = Some (worker_ops outs)" for i
    using joined_loop [OF clk dur] none by (auto simp: grpc_worker_def resp_worker_def Let_def split: prod.split bool.split)
  then have "\<exists>gouts. those (map ?g is) = Some (map worker_ops gouts)" "\<exists>routs. those (map ?r is) = Some (map worker_ops routs)" for "is"
    by (simp_all add: those_map_ex)
  then show ?thesis by (auto simp: run_workers_def worker_split_def Let_def split: option.split) (metis option.simps(3) option.inject)+
qed

section \<open>What the report says\<close>

lemma report_counts:
  "rep_total (load_summary gs rs) = of_nat (count_list (gs @ rs) AddTotal)"
  "rep_success (load_summary gs rs) = of_nat (count_list (gs @ rs) AddSuccess)"
  "rep_failed (load_summary gs rs) = of_nat (count_list (gs @ rs) AddFailed)"
  by (simp_all add: load_summary_def summary_def Let_def fold_apply_op metrics_new_def)

lemma success_rate_counts:
  assumes "s \<le> t" "0 < t" "t < 2 ^ 53"
  shows "success_rate (of_nat t) (of_nat s) = Finite (f64_percent (of_nat s) (of_nat t))"
    and "f64_percent (of_nat s) (of_nat t) = 100 \<longleftrightarrow> s = t"
proof -
  have u: "unat (of_nat t :: u64) = t" "unat (of_nat s :: u64) = s" using assms by (simp_all add: unat_u64_of_nat)
  then have "(of_nat t :: u64) > 0" using assms(2) by (metis unat_gt_0 word_gt_0)
  then show "success_rate (of_nat t) (of_nat s) = Finite (f64_percent (of_nat s) (of_nat t))"
    using assms by (simp add: success_rate_def u f64_of_def f64_round_int f64_percent_def)
  show "f64_percent (of_nat s) (of_nat t) = 100 \<longleftrightarrow> s = t"
    using f64_percent_below(1) [of s t] f64_percent_all [of "of_nat t"] assms by (cases "s = t") auto
qed

fun slept :: "effect list \<Rightarrow> nat" where
  "slept [] = 0"
| "slept (Sleep n # effs) = n + slept effs"
| "slept (_ # effs) = slept effs"

lemma slept_append [simp]: "slept (xs @ ys) = slept xs + slept ys"
  by (induction xs rule: slept.induct) simp_all

lemma slept_concat: "\<forall>x\<in>set xs. slept (f x) = n \<Longrightarrow> slept (concat (map f xs)) = length xs * n"
  by (induction xs) simp_all

lemma slept_parts:
  "slept (load_lines workers duration_secs rep) = 0" "slept (combined_lines secs rounds workers rep) = 0"
  "slept (save_report io report) = 0" "slept (combined_rounds rounds interval) = rounds * interval"
proof -
  show "slept (combined_rounds rounds interval) = rounds * interval"
    unfolding combined_rounds_def by (subst slept_concat [where n = interval]) simp_all
qed (simp_all add: load_lines_def combined_lines_def save_report_def Let_def split: prod.split option.split)

text \<open>A server that accepts a connection and then drops it: the first write fails.\<close>
definition refusing_world :: "unit tool_world" where
  "refusing_world =
     \<lparr>tw_ext = demo_ext,
      tw_grpc = \<lambda>_. \<lparr>ln_connect = \<lambda>w. (False, w), ln_set = \<lambda>_ w. (Inl (Status Transport []), w), ln_get = \<lambda>_ w. (Inl (Status Transport []), w), ln_delete = \<lambda>_ w. (Inl (Status Transport []), w)\<rparr>,
      tw_resp = \<lambda>_. \<lparr>tcp_connect = \<lambda>w. (True, w), tcp_write = \<lambda>_ w. (False, w), tcp_read = \<lambda>_ w. (None, w)\<rparr>,
      tw_env = \<lambda>_ _ _. \<lparr>we_start = 0, we_clk = \<lambda>i. i * nanos_per_sec, we_draws = \<lambda>_. \<lparr>rd_key = 1, rd_op = 0, rd_value = 2\<rparr>, we_lat = \<lambda>_. 0, we_world = ()\<rparr>,
      tw_mix = concat\<rparr>"

lemma append_in_shuffles: "xs @ ys \<in> shuffles xs ys"
  by (induction xs) (auto simp: Cons_in_shuffles_iff)

lemma concat_in_interleavings: "concat xss \<in> interleavings xss"
  by (induction xss) (auto intro: append_in_shuffles)

lemma refusing_clocks: "running_clocks refusing_world"
proof -
  have "\<exists>j. t \<le> j * nanos_per_sec" for t by (rule exI [of _ t]) (simp add: nanos_per_sec_def)
  then show ?thesis by (simp add: running_clocks_def refusing_world_def)
qed

lemma refusing_workers: "run_workers refusing_world True a b 1 1 1000 = Some ([], [AddTotal, AddFailed])"
  by (simp add: run_workers_def refusing_world_def worker_split_def resp_worker_def joined_def from_secs_def nanos_per_sec_def
      load_loop.simps [of _ _ _ _ _ _ _ 0] load_loop.simps [of _ _ _ _ _ _ _ "Suc 0"] resp_call_def metric_defs)

section \<open>Properties\<close>



end
