(* ===== verification/Store_Tests.thy ===== *)
theory Store_Tests
  imports Rebalance Health_Monitor
begin

text \<open>
  The repository's own unit tests of the cache store, the membership table, the health monitor and the hash
  ring, run on the model. A test is a truth value: whether every assertion holds and nothing panics. What a
  test leaves to the environment is an argument: \<open>c i\<close> is the clock at its \<open>i\<close>-th reading, and freshly drawn
  node identifiers are parameters. So the lemmas say for which clocks and identifiers a test passes, where a
  run of the test shows it for one of them.
\<close>

definition passes :: "bool run \<Rightarrow> bool" where
  "passes r = (case r of Inr ok \<Rightarrow> ok | Inl _ \<Rightarrow> False)"

lemma passes_simps [simp]: "passes (Inr ok) = ok" "passes (Inl e) = False"
  by (simp_all add: passes_def)

abbreviation millis :: "nat \<Rightarrow> duration" where "millis n \<equiv> n * nanos_per_milli"

type_synonym clock = "nat \<Rightarrow> instant"

section \<open>Tests of the store\<close>

definition test_set_get_roundtrip :: "clock \<Rightarrow> bool" where
  "test_set_get_roundtrip c = passes (
     and_then (store_set (c 1) ''hello'' ''world'' None (store_new (c 0))) (\<lambda>store.
     Inr (fst (store_get (c 2) ''hello'' store) = Some ''world'')))"

definition test_get_nonexistent :: "clock \<Rightarrow> bool" where
  "test_get_nonexistent c \<longleftrightarrow> fst (store_get (c 1) ''missing'' (store_new (c 0))) = None"

definition test_delete_removes_key :: "clock \<Rightarrow> bool" where
  "test_delete_removes_key c = passes (
     and_then (store_set (c 1) ''key'' ''val'' None (store_new (c 0))) (\<lambda>store.
     let (deleted, store) = store_delete ''key'' store in
     Inr (deleted \<and> fst (store_get (c 2) ''key'' store) = None)))"

definition test_ttl_expiry :: "clock \<Rightarrow> bool" where
  "test_ttl_expiry c = passes (
     and_then (store_set (c 1) ''ttl_key'' ''ttl_val'' (Some (from_millis 50)) (store_new (c 0))) (\<lambda>store.
     let (v1, store) = store_get (c 2) ''ttl_key'' store;
         (v2, store) = store_get (c 3) ''ttl_key'' store in
     Inr (v1 \<noteq> None \<and> v2 = None)))"

definition test_no_ttl :: "clock \<Rightarrow> bool" where
  "test_no_ttl c = passes (
     and_then (store_set (c 1) ''persist'' ''forever'' None (store_new (c 0))) (\<lambda>store.
     Inr (fst (store_get (c 2) ''persist'' store) \<noteq> None)))"

definition test_overwrite :: "clock \<Rightarrow> bool" where
  "test_overwrite c = passes (
     and_then (store_set (c 1) ''key'' ''v1'' None (store_new (c 0))) (\<lambda>store.
     and_then (store_set (c 2) ''key'' ''v2'' None store) (\<lambda>store.
     Inr (fst (store_get (c 3) ''key'' store) = Some ''v2''))))"

definition test_store_exists :: "clock \<Rightarrow> bool" where
  "test_store_exists c = passes (
     and_then (store_set (c 1) ''e'' ''x'' None (store_new (c 0))) (\<lambda>store.
     let (before, store) = store_exists (c 2) ''e'' store;
         (_, store) = store_delete ''e'' store in
     Inr (before \<and> \<not> fst (store_exists (c 3) ''e'' store))))"

definition test_store_expire :: "clock \<Rightarrow> bool" where
  "test_store_expire c = passes (
     and_then (store_set (c 1) ''exp'' ''val'' None (store_new (c 0))) (\<lambda>store.
     and_then (store_expire (c 2) ''exp'' (from_millis 50) store) (\<lambda>(set_ok, store).
     let (before, store) = store_exists (c 3) ''exp'' store in
     Inr (set_ok \<and> before \<and> \<not> fst (store_exists (c 4) ''exp'' store)))))"

definition test_ttl_remaining :: "clock \<Rightarrow> bool" where
  "test_ttl_remaining c = passes (
     and_then (store_set (c 1) ''ttl_rem'' ''val'' (Some (from_secs 1)) (store_new (c 0))) (\<lambda>store.
     Inr (case store_ttl (c 2) ''ttl_rem'' store of
            None \<Rightarrow> False
          | Some remaining \<Rightarrow> remaining > from_millis 900 \<and> remaining \<le> from_secs 1)))"

definition test_entries_for_transfer :: "clock \<Rightarrow> bool" where
  "test_entries_for_transfer c = passes (
     and_then (store_set (c 1) ''no_ttl'' ''v1'' None (store_new (c 0))) (\<lambda>store.
     and_then (store_set (c 2) ''with_ttl'' ''v2'' (Some (from_secs 60)) store) (\<lambda>store.
     and_then (store_set (c 3) ''expired'' ''v3'' (Some (from_millis 1)) store) (\<lambda>store.
     let entries = entries_for_transfer (c 4) store; keys = map fst entries in
     Inr (length entries = 2 \<and> ''no_ttl'' \<in> set keys \<and> ''with_ttl'' \<in> set keys \<and> ''expired'' \<notin> set keys
          \<and> list_all (\<lambda>(key, _, expires_at_ms).
               if key = ''no_ttl'' then expires_at_ms = None
               else if key = ''with_ttl'' then (case expires_at_ms of None \<Rightarrow> False | Some ms \<Rightarrow> ms > 59000 \<and> ms \<le> 60000)
               else True) entries)))))"

definition test_set_from_transfer_with_ttl :: "clock \<Rightarrow> bool" where
  "test_set_from_transfer_with_ttl c = passes (
     and_then (set_from_transfer (c 1) ''transferred'' ''data'' (Some 5000) (store_new (c 0))) (\<lambda>store.
     let (v, store) = store_get (c 2) ''transferred'' store in
     Inr (v = Some ''data''
          \<and> (case store_ttl (c 3) ''transferred'' store of
               None \<Rightarrow> False
             | Some remaining \<Rightarrow> remaining > from_millis 4000 \<and> remaining \<le> from_millis 5000))))"

definition test_set_from_transfer_no_ttl :: "clock \<Rightarrow> bool" where
  "test_set_from_transfer_no_ttl c = passes (
     and_then (set_from_transfer (c 1) ''permanent'' ''data'' None (store_new (c 0))) (\<lambda>store.
     let (v, store) = store_get (c 2) ''permanent'' store in
     Inr (v \<noteq> None \<and> store_ttl (c 3) ''permanent'' store = None)))"

definition test_set_from_transfer_expired_skipped :: "clock \<Rightarrow> bool" where
  "test_set_from_transfer_expired_skipped c = passes (
     and_then (set_from_transfer (c 1) ''already_dead'' ''data'' (Some 0) (store_new (c 0))) (\<lambda>store.
     Inr (fst (store_get (c 2) ''already_dead'' store) = None)))"

definition test_epoch_conversion :: "clock \<Rightarrow> bool" where
  "test_epoch_conversion c = passes (
     let store = store_new (c 0); now = c 1; ms = instant_to_epoch_ms store now in
     and_then (epoch_ms_to_instant store ms) (\<lambda>back. Inr (back - now < from_millis 10)))"

lemmas store_test_defs =
  store_set_def store_new_def store_get_def store_delete_def store_exists_def store_expire_def store_ttl_def put_entry_def
  set_from_transfer_def instant_add_def instant_limit_def from_millis_def from_secs_def nanos_per_milli_def nanos_per_sec_def
  hm_get_def hm_insert_def hm_remove_def hm_modify_def

text \<open>The tests that do not depend on the time always pass.\<close>
lemma untimed_store_tests:
  "test_set_get_roundtrip c" "test_get_nonexistent c" "test_delete_removes_key c" "test_no_ttl c" "test_overwrite c"
  "test_store_exists c" "test_set_from_transfer_no_ttl c" "test_set_from_transfer_expired_skipped c"
  by (simp_all add: test_set_get_roundtrip_def test_get_nonexistent_def test_delete_removes_key_def test_no_ttl_def test_overwrite_def
    test_store_exists_def test_set_from_transfer_no_ttl_def test_set_from_transfer_expired_skipped_def store_test_defs)

text \<open>The others pass exactly on schedules that keep to what the test means by its sleeps and its slack.\<close>
lemma ttl_expiry_passes:
  "c 1 < 2 ^ 62 * nanos_per_sec \<Longrightarrow> test_ttl_expiry c \<longleftrightarrow> c 2 < c 1 + millis 50 \<and> c 1 + millis 50 \<le> c 3"
  by (simp add: test_ttl_expiry_def store_test_defs)

lemma expire_passes:
  "c 2 < 2 ^ 62 * nanos_per_sec \<Longrightarrow> test_store_expire c \<longleftrightarrow> c 3 < c 2 + millis 50 \<and> c 2 + millis 50 \<le> c 4"
  by (simp add: test_store_expire_def store_test_defs)

lemma ttl_remaining_passes:
  "c 1 < 2 ^ 62 * nanos_per_sec \<Longrightarrow> c 1 \<le> c 2 \<Longrightarrow> test_ttl_remaining c \<longleftrightarrow> c 2 < c 1 + millis 100"
  by (auto simp: test_ttl_remaining_def store_test_defs)

lemma transfer_with_ttl_passes:
  "c 1 < 2 ^ 62 * nanos_per_sec \<Longrightarrow> c 1 \<le> c 2 \<Longrightarrow> c 2 \<le> c 3 \<Longrightarrow> test_set_from_transfer_with_ttl c \<longleftrightarrow> c 3 < c 1 + millis 1000"
  by (auto simp: test_set_from_transfer_with_ttl_def store_test_defs)

lemma entries_for_transfer_passes:
  assumes "c 2 < 2 ^ 62 * nanos_per_sec" "c 3 < 2 ^ 62 * nanos_per_sec" "c 2 \<le> c 3" "c 3 \<le> c 4"
  shows "test_entries_for_transfer c \<longleftrightarrow> c 3 + millis 1 \<le> c 4 \<and> c 4 \<le> c 2 + millis 999"
proof -
  let ?d = "c 2 + 60000000000 - c 4"
  have ms: "unat (as_millis_u64 ?d) = ?d div 1000000"
  proof -
    have "?d div 1000000 < 2 ^ 64" using assms(3,4) by (simp add: nanos_per_milli_def)
    then show ?thesis by (simp add: as_millis_u64_def nanos_per_milli_def unsigned_of_nat take_bit_nat_eq_self)
  qed
  have "as_millis_u64 ?d > 59000 \<and> as_millis_u64 ?d \<le> 60000 \<longleftrightarrow> c 4 \<le> c 2 + millis 999"
  proof -
    have "59000 < ?d div 1000000 \<and> ?d div 1000000 \<le> 60000 \<longleftrightarrow> c 4 \<le> c 2 + 999000000" using assms(3,4) by arith
    then show ?thesis by (simp add: word_less_nat_alt word_le_nat_alt ms) (simp add: nanos_per_milli_def)
  qed
  then show ?thesis using assms
    by (cases "c 4 < c 3 + 1000000"; cases "c 4 < c 2 + 60000000000") (simp_all add: test_entries_for_transfer_def entries_for_transfer_def unexpired_def store_test_defs Let_def del: set_filter list.set_map)
qed

lemma epoch_conversion_passes: "c 1 < 2 ^ 62 * nanos_per_sec \<Longrightarrow> c 0 \<le> c 1 \<Longrightarrow> test_epoch_conversion c"
proof -
  assume c: "c 1 < 2 ^ 62 * nanos_per_sec" "c 0 \<le> c 1"
  have "from_millis (as_millis_u64 (c 1 - c 0)) \<le> c 1 - c 0"
    by (simp add: from_millis_def as_millis_u64_def nanos_per_milli_def unsigned_of_nat take_bit_eq_mod)
  then show ?thesis using c
    by (simp add: test_epoch_conversion_def epoch_ms_to_instant_def instant_to_epoch_ms_def store_new_def instant_add_def instant_limit_def Let_def
      nanos_per_sec_def from_millis_def nanos_per_milli_def)
qed

section \<open>Tests of the membership table\<close>

text \<open>The identifiers are those the tests parse from different literals; \<open>now\<close> is the clock.\<close>
definition two_seeds :: "node_id \<Rightarrow> node_id \<Rightarrow> node_info list" where
  "two_seeds local_id peer_id = [\<lparr>ni_id = local_id, ni_addr = ''127.0.0.1:5001''\<rparr>, \<lparr>ni_id = peer_id, ni_addr = ''127.0.0.1:5002''\<rparr>]"

definition test_membership_initial :: "instant \<Rightarrow> node_id \<Rightarrow> node_id \<Rightarrow> bool" where
  "test_membership_initial now local_id peer_id =
     (let table = table_new now local_id (two_seeds local_id peer_id) in
      is_self_joining table \<and> is_alive table peer_id \<and> length (alive_peers table) = 1 \<and> length (all_members table) = 2)"

definition test_mark_suspect :: "instant \<Rightarrow> node_id \<Rightarrow> node_id \<Rightarrow> bool" where
  "test_mark_suspect now local_id peer_id =
     (let table = table_new now local_id (two_seeds local_id peer_id);
          (first, table) = mark_suspect peer_id table;
          alive = is_alive table peer_id;
          (second, table) = mark_suspect peer_id table in
      first \<and> \<not> alive \<and> \<not> second)"

definition test_mark_dead :: "instant \<Rightarrow> node_id \<Rightarrow> node_id \<Rightarrow> bool" where
  "test_mark_dead now local_id peer_id =
     (let table = table_new now local_id (two_seeds local_id peer_id);
          (first, table) = mark_dead peer_id table;
          alive = is_alive table peer_id; dead = dead_nodes table;
          (second, table) = mark_dead peer_id table in
      first \<and> \<not> alive \<and> length dead = 1 \<and> \<not> second)"

definition test_refutation :: "clock \<Rightarrow> node_id \<Rightarrow> node_id \<Rightarrow> bool" where
  "test_refutation c local_id peer_id =
     (let table = table_new (c 0) local_id (two_seeds local_id peer_id);
          table1 = merge (c 1) [(local_id, ''127.0.0.1:5001'', Suspect, 0)] table;
          table2 = merge (c 2) [(local_id, ''127.0.0.1:5001'', Dead, 1)] table1 in
      is_alive table1 local_id \<and> local_incarnation table1 = 1 \<and> is_alive table2 local_id \<and> local_incarnation table2 = 2)"

definition test_merge_higher_incarnation :: "clock \<Rightarrow> node_id \<Rightarrow> node_id \<Rightarrow> bool" where
  "test_merge_higher_incarnation c local_id peer_id =
     (let table = merge (c 1) [(peer_id, ''127.0.0.1:5002'', Dead, 5)] (table_new (c 0) local_id (two_seeds local_id peer_id)) in
      \<not> is_alive table peer_id \<and> length (dead_nodes table) = 1)"

definition test_merge_dead_wins :: "clock \<Rightarrow> node_id \<Rightarrow> node_id \<Rightarrow> node_id \<Rightarrow> node_id \<Rightarrow> bool" where
  "test_merge_dead_wins c local_id peer_id local_id2 peer_id2 =
     (let table = merge (c 1) [(peer_id, ''127.0.0.1:5002'', Dead, 0)] (table_new (c 0) local_id (two_seeds local_id peer_id));
          seeds2 = [\<lparr>ni_id = local_id2, ni_addr = ''127.0.0.1:5003''\<rparr>, \<lparr>ni_id = peer_id2, ni_addr = ''127.0.0.1:5004''\<rparr>];
          table2 = merge (c 3) [(peer_id2, ''127.0.0.1:5004'', Suspect, 0)] (table_new (c 2) local_id2 seeds2) in
      \<not> is_alive table peer_id \<and> length (dead_nodes table) = 1 \<and> \<not> is_alive table2 peer_id2 \<and> length (dead_nodes table2) = 0)"

definition test_merge_joining_precedence :: "clock \<Rightarrow> node_id \<Rightarrow> node_id \<Rightarrow> node_id \<Rightarrow> node_id \<Rightarrow> bool" where
  "test_merge_joining_precedence c local_id peer_id peer_id2 peer_id3 =
     (let table = table_new (c 0) local_id [\<lparr>ni_id = local_id, ni_addr = ''127.0.0.1:5001''\<rparr>];
          table = merge (c 1) [(peer_id, ''127.0.0.1:5002'', Joining, 0)] table;
          table1 = merge (c 2) [(peer_id, ''127.0.0.1:5002'', Alive, 0)] table;
          table = merge (c 3) [(peer_id2, ''127.0.0.1:5003'', Joining, 0)] table1;
          table2 = merge (c 4) [(peer_id2, ''127.0.0.1:5003'', Dead, 0)] table;
          table = merge (c 5) [(peer_id3, ''127.0.0.1:5004'', Joining, 0)] table2;
          table3 = merge (c 6) [(peer_id3, ''127.0.0.1:5004'', Suspect, 0)] table in
      is_alive table1 peer_id \<and> length (dead_nodes table2) = 1 \<and> \<not> is_alive table3 peer_id3)"

definition test_routable_peers_excludes_joining :: "clock \<Rightarrow> node_id \<Rightarrow> node_id \<Rightarrow> node_id \<Rightarrow> bool" where
  "test_routable_peers_excludes_joining c local_id peer_id1 peer_id2 =
     (let table = table_new (c 0) local_id [\<lparr>ni_id = local_id, ni_addr = ''127.0.0.1:5001''\<rparr>];
          table = merge (c 1) [(peer_id1, ''127.0.0.1:5002'', Alive, 0), (peer_id2, ''127.0.0.1:5003'', Joining, 0)] table;
          routable = routable_peers table in
      length (alive_peers table) = 2 \<and> length routable = 1 \<and> ni_id (me_info (routable ! 0)) = peer_id1)"

definition test_joining_node_startup :: "instant \<Rightarrow> node_id \<Rightarrow> node_id \<Rightarrow> bool" where
  "test_joining_node_startup now local_id peer_id =
     (let table = table_new now local_id [\<lparr>ni_id = peer_id, ni_addr = ''127.0.0.1:5002''\<rparr>];
          table1 = mark_self_alive table in
      is_self_joining table \<and> \<not> is_self_joining table1 \<and> is_alive table1 local_id \<and> local_incarnation table1 = 1)"

definition test_standalone_node_startup :: "instant \<Rightarrow> node_id \<Rightarrow> bool" where
  "test_standalone_node_startup now local_id =
     (let table = table_new now local_id [] in \<not> is_self_joining table \<and> is_alive table local_id)"

lemmas table_test_defs =
  table_new_def two_seeds_def seed_entry_def is_self_joining_def is_alive_def alive_peers_def routable_peers_def all_members_def
  mark_suspect_def mark_dead_def dead_nodes_def merge_def merge_entry_def remote_member_def local_incarnation_def mark_self_alive_def
  hm_get_def hm_insert_def hm_modify_def Let_def

lemma joining_precedence_passes:
  assumes "distinct [n1, n2, n3, n4]"
  shows "test_merge_joining_precedence c n1 n2 n3 n4"
proof -
  let ?e = "\<lambda>n a s i. (n, \<lparr>me_info = \<lparr>ni_id = n, ni_addr = a\<rparr>, me_status = s, me_incarnation = 0, me_last_seen = c i\<rparr>)"
  let ?t = "\<lambda>ms. \<lparr>mt_members = ?e n1 ''127.0.0.1:5001'' Joining 0 # ms, mt_local_id = n1\<rparr>"
  have start: "table_new (c 0) n1 [\<lparr>ni_id = n1, ni_addr = ''127.0.0.1:5001''\<rparr>] = ?t []"
    by (simp add: table_test_defs)
  have fresh: "merge (c i) [(n, a, s, 0)] (?t ms) = ?t (ms @ [?e n a s i])" if "n \<noteq> n1" "n \<notin> fst ` set ms" for i n a s ms
  proof -
    have "map_of ms n = None" "AList.update n x ms = ms @ [(n, x)]" for x
      using that(2) by (simp add: map_of_eq_None_iff) (use that(2) in \<open>induction ms\<close>, auto)
    then show ?thesis using that(1) by (simp add: table_test_defs)
  qed
  have again: "merge (c i) [(n, a, s, 0)] (?t (ms @ [?e n a Joining j])) = ?t (ms @ [?e n a s i])"
    if "n \<noteq> n1" "n \<notin> fst ` set ms" "s \<noteq> Joining" for i j n a s ms
  proof -
    have "map_of (ms @ [(n, x)]) n = Some x" "AList.update n y (ms @ [(n, x)]) = ms @ [(n, y)]" for x y
      using that(2) by (simp add: map_add_Some_iff map_of_eq_None_iff) (use that(2) in \<open>induction ms\<close>, auto)
    then show ?thesis using that(1,3) by (cases s) (simp_all add: table_test_defs)
  qed
  let ?e2 = "?e n2 ''127.0.0.1:5002'' Alive 2" and ?e3 = "?e n3 ''127.0.0.1:5003'' Dead 4"
  have merges: "merge (c 1) [(n2, ''127.0.0.1:5002'', Joining, 0)] (?t []) = ?t [?e n2 ''127.0.0.1:5002'' Joining 1]"
    "merge (c 2) [(n2, ''127.0.0.1:5002'', Alive, 0)] (?t [?e n2 ''127.0.0.1:5002'' Joining 1]) = ?t [?e2]"
    "merge (c 3) [(n3, ''127.0.0.1:5003'', Joining, 0)] (?t [?e2]) = ?t [?e2, ?e n3 ''127.0.0.1:5003'' Joining 3]"
    "merge (c 4) [(n3, ''127.0.0.1:5003'', Dead, 0)] (?t [?e2, ?e n3 ''127.0.0.1:5003'' Joining 3]) = ?t [?e2, ?e3]"
    "merge (c 5) [(n4, ''127.0.0.1:5004'', Joining, 0)] (?t [?e2, ?e3]) = ?t [?e2, ?e3, ?e n4 ''127.0.0.1:5004'' Joining 5]"
    "merge (c 6) [(n4, ''127.0.0.1:5004'', Suspect, 0)] (?t [?e2, ?e3, ?e n4 ''127.0.0.1:5004'' Joining 5])
      = ?t [?e2, ?e3, ?e n4 ''127.0.0.1:5004'' Suspect 6]"
    using assms fresh [of n2 "[]" 1] again [of n2 "[]" Alive] fresh [of n3 "[?e2]" 3] again [of n3 "[?e2]" Dead]
      fresh [of n4 "[?e2, ?e3]" 5] again [of n4 "[?e2, ?e3]" Suspect] by auto
  show ?thesis
    unfolding test_merge_joining_precedence_def Let_def start merges using assms
    by (auto simp: is_alive_def dead_nodes_def hm_get_def)
qed

lemma membership_tests_pass:
  assumes "distinct [n1, n2, n3, n4]"
  shows "test_membership_initial now n1 n2" "test_mark_suspect now n1 n2" "test_mark_dead now n1 n2" "test_refutation c n1 n2"
    "test_merge_higher_incarnation c n1 n2" "test_merge_dead_wins c n1 n2 n3 n4" "test_merge_joining_precedence c n1 n2 n3 n4"
    "test_routable_peers_excludes_joining c n1 n2 n3" "test_joining_node_startup now n1 n2" "test_standalone_node_startup now n1"
proof -
  have ids: "n1 \<noteq> n2" "n2 \<noteq> n1" "n1 \<noteq> n3" "n3 \<noteq> n1" "n1 \<noteq> n4" "n4 \<noteq> n1" "n2 \<noteq> n3" "n3 \<noteq> n2" "n2 \<noteq> n4" "n4 \<noteq> n2" "n3 \<noteq> n4" "n4 \<noteq> n3"
    using assms by auto
  show "test_membership_initial now n1 n2" using ids by (simp add: test_membership_initial_def table_test_defs)
  show "test_mark_suspect now n1 n2" using ids by (simp add: test_mark_suspect_def table_test_defs)
  show "test_mark_dead now n1 n2" using ids by (simp add: test_mark_dead_def table_test_defs)
  show "test_refutation c n1 n2" using ids by (simp add: test_refutation_def table_test_defs)
  show "test_merge_higher_incarnation c n1 n2" using ids by (simp add: test_merge_higher_incarnation_def table_test_defs)
  show "test_merge_dead_wins c n1 n2 n3 n4" using ids by (simp add: test_merge_dead_wins_def table_test_defs)
  show "test_merge_joining_precedence c n1 n2 n3 n4" using joining_precedence_passes [OF assms] .
  show "test_routable_peers_excludes_joining c n1 n2 n3" using ids by (simp add: test_routable_peers_excludes_joining_def table_test_defs)
  show "test_joining_node_startup now n1 n2" using ids by (simp add: test_joining_node_startup_def table_test_defs)
  show "test_standalone_node_startup now n1" by (simp add: test_standalone_node_startup_def table_test_defs)
qed

section \<open>Tests of the health monitor\<close>

definition test_health_mark_alive :: "instant \<Rightarrow> node_id \<Rightarrow> bool" where
  "test_health_mark_alive now node_id =
     (let monitor = health_mark_alive now node_id monitor_new in
      health_is_alive monitor node_id \<and> hm_get (all_health monitor) node_id = Some HAlive)"

definition test_health_mark_joining :: "instant \<Rightarrow> node_id \<Rightarrow> bool" where
  "test_health_mark_joining now node_id =
     (let monitor = health_mark_joining now node_id monitor_new in
      \<not> health_is_alive monitor node_id \<and> hm_get (all_health monitor) node_id = Some HJoining)"

definition test_joining_to_alive_transition :: "clock \<Rightarrow> node_id \<Rightarrow> bool" where
  "test_joining_to_alive_transition c node_id =
     (let monitor1 = health_mark_joining (c 0) node_id monitor_new;
          monitor2 = health_mark_alive (c 1) node_id monitor1 in
      \<not> health_is_alive monitor1 node_id \<and> health_is_alive monitor2 node_id)"

definition test_record_failure_escalation :: "clock \<Rightarrow> node_id \<Rightarrow> bool" where
  "test_record_failure_escalation c node_id =
     (let monitor1 = health_mark_alive (c 0) node_id (with_failure_threshold 3 monitor_new);
          monitor2 = record_failure (c 1) node_id monitor1;
          monitor3 = record_failure (c 3) node_id (record_failure (c 2) node_id monitor2) in
      health_is_alive monitor1 node_id
      \<and> health_is_alive monitor2 node_id \<and> hm_get (all_health monitor2) node_id = Some HSuspect
      \<and> \<not> health_is_alive monitor3 node_id \<and> hm_get (all_health monitor3) node_id = Some HDead)"

definition test_unknown_node_assumed_alive :: "node_id \<Rightarrow> bool" where
  "test_unknown_node_assumed_alive unknown_node = health_is_alive monitor_new unknown_node"

definition test_dead_nodes_list :: "clock \<Rightarrow> node_id \<Rightarrow> node_id \<Rightarrow> bool" where
  "test_dead_nodes_list c node1 node2 =
     (let monitor = health_mark_alive (c 1) node2 (health_mark_alive (c 0) node1 (with_failure_threshold 2 monitor_new));
          monitor = record_failure (c 4) node1 (record_failure (c 3) node1 (record_failure (c 2) node1 monitor));
          dead = health_dead_nodes monitor in
      length dead = 1 \<and> node1 \<in> set dead \<and> node2 \<notin> set dead)"

lemmas health_test_defs =
  monitor_new_def health_mark_alive_def health_mark_joining_def record_failure_def fail_entry_def with_failure_threshold_def
  health_is_alive_def all_health_def health_dead_nodes_def hm_get_def hm_insert_def Let_def

lemma health_tests_pass:
  assumes "n1 \<noteq> n2"
  shows "test_health_mark_alive now n1" "test_health_mark_joining now n1" "test_joining_to_alive_transition c n1"
    "test_record_failure_escalation c n1" "test_unknown_node_assumed_alive n1" "test_dead_nodes_list c n1 n2"
proof -
  show "test_health_mark_alive now n1" by (simp add: test_health_mark_alive_def health_test_defs)
  show "test_health_mark_joining now n1" by (simp add: test_health_mark_joining_def health_test_defs)
  show "test_joining_to_alive_transition c n1" by (simp add: test_joining_to_alive_transition_def health_test_defs)
  let ?m = "\<lambda>h t k. \<lparr>hm_nodes = [(n1, \<lparr>nh_health = h, nh_last_checked = t, nh_consecutive_failures = k\<rparr>)], hm_failure_threshold = 3\<rparr>"
  have "health_mark_alive (c 0) n1 (with_failure_threshold 3 monitor_new) = ?m HAlive (c 0) 0"
    "record_failure (c 1) n1 (?m HAlive (c 0) 0) = ?m HSuspect (c 1) 1" "record_failure (c 2) n1 (?m HSuspect (c 1) 1) = ?m HSuspect (c 2) 2"
    "record_failure (c 3) n1 (?m HSuspect (c 2) 2) = ?m HDead (c 3) 3"
    by (simp_all add: health_test_defs)
  then show "test_record_failure_escalation c n1"
    by (simp add: test_record_failure_escalation_def) (simp add: health_is_alive_def all_health_def hm_get_def)
  show "test_unknown_node_assumed_alive n1" by (simp add: test_unknown_node_assumed_alive_def health_test_defs)
  have "health_dead_nodes (record_failure (c 4) n1 (record_failure (c 3) n1 (record_failure (c 2) n1
      (health_mark_alive (c 1) n2 (health_mark_alive (c 0) n1 (with_failure_threshold 2 monitor_new)))))) = [n1]"
    using assms by (simp add: health_test_defs)
  then show "test_dead_nodes_list c n1 n2" using assms by (simp add: test_dead_nodes_list_def)
qed

section \<open>Tests of the hash ring\<close>

text \<open>\<^verbatim>\<open>make_node\<close>, with the random identifier as an argument.\<close>
definition make_node :: "uuid \<Rightarrow> bytes \<Rightarrow> node_info" where
  "make_node u name = \<lparr>ni_id = NodeId u, ni_addr = ''127.0.0.1:'' @ name\<rparr>"

definition test_preference_list_distinct_nodes :: "externs \<Rightarrow> (nat \<Rightarrow> uuid) \<Rightarrow> bool" where
  "test_preference_list_distinct_nodes ext drawn =
     (let ring = fold (\<lambda>i. add_node ext (make_node (drawn i) (''500'' @ dec_nat i))) [0..<5] ring_new;
          prefs = get_preference_list ext ring ''test-key'' 3 in
      length prefs = 3 \<and> card (set (map ni_id prefs)) = 3)"

definition test_remove_node :: "externs \<Rightarrow> uuid \<Rightarrow> bool" where
  "test_remove_node ext u =
     (let node = make_node u ''5001''; ring = add_node ext node ring_new in
      contains_node ring (ni_id node) \<and> \<not> contains_node (remove_node (ni_id node) ring) (ni_id node))"

definition test_empty_ring :: "externs \<Rightarrow> bool" where
  "test_empty_ring ext \<longleftrightarrow> get_node ext ring_new ''any-key'' = None"

lemma ring_tests_pass: "test_remove_node ext u" "test_empty_ring ext"
proof -
  show "test_remove_node ext u"
    by (simp add: test_remove_node_def Let_def not_contains_remove) (simp add: contains_node_def add_node_def)
qed (simp add: test_empty_ring_def get_node_def ring_new_def)


lemma preference_list_test_passes:
  assumes "inj_on drawn {..<5}" "collision_free ext DEFAULT_VNODE_COUNT (NodeId ` drawn ` {..<5})"
  shows "test_preference_list_distinct_nodes ext drawn"
proof -
  let ?members = "map (\<lambda>i. make_node (drawn i) (''500'' @ dec_nat i)) [0..<5]"
  let ?ring = "fold (add_node ext) ?members ring_new"
  have ids: "map ni_id ?members = map NodeId (map drawn [0..<5])" by (simp add: make_node_def)
  have "distinct (map ni_id ?members)" unfolding ids using assms(1) by (auto simp: distinct_map inj_on_def atLeast0LessThan)
  moreover have "ni_id ` set ?members = NodeId ` drawn ` {..<5}" by (simp add: image_image atLeast0LessThan) (simp add: make_node_def)
  ultimately have "placed ext ?ring" using assms(2) placed_new(2) by (intro placed_adds) (simp_all add: ring_new_def)
  moreover have nodes: "length (hr_nodes (fold (add_node ext) ms r)) = length (hr_nodes r) + length ms"
    "hr_vnode_count (fold (add_node ext) ms r) = hr_vnode_count r" for ms r
    by (induction ms arbitrary: r) (simp_all add: add_node_def)
  ultimately have len: "length (get_preference_list ext ?ring ''test-key'' 3) = 3"
    using placed_preference_length [of ext ?ring "''test-key''" 3]
    by (simp add: nodes del: upt_Suc) (simp add: ring_new_def DEFAULT_VNODE_COUNT_def)
  have "ring_inv ?ring" using \<open>placed ext ?ring\<close> by (rule placed_ring_inv)
  then have "distinct (map ni_id (get_preference_list ext ?ring ''test-key'' 3))"
    by (simp add: preference_list_take take_map [symmetric] clockwise_nodes_ids distinct_first_occs)
  then have "card (set (map ni_id (get_preference_list ext ?ring ''test-key'' 3))) = 3" using len distinct_card by fastforce
  then show ?thesis using len unfolding test_preference_list_distinct_nodes_def Let_def fold_map comp_def by simp
qed

section \<open>Tests of the rebalancer\<close>

text \<open>The state of the server that \<^verbatim>\<open>start_test_server\<close> starts, and what it streams to a caller.\<close>
definition start_test_server :: "instant \<Rightarrow> node_id \<Rightarrow> node_state" where
  "start_test_server now node_id = node_new now node_id []"

definition serving :: "addr \<Rightarrow> instant \<Rightarrow> node_state \<Rightarrow> fetch" where
  "serving addr now s a = (if a = addr then Inr (transfer_keys now s, None) else Inl (Status Transport []))"

text \<open>One round of the loop that verifies the transferred keys.\<close>
definition check_key :: "externs \<Rightarrow> hash_ring \<Rightarrow> node_id \<Rightarrow> instant \<Rightarrow> bytes \<Rightarrow> cache_store \<Rightarrow> bool \<times> cache_store" where
  "check_key ext ring local_id now key store =
     (case get_node ext ring key of
        Some owner \<Rightarrow>
          if ni_id owner = local_id
          then (case store_get now key store of (v, store') \<Rightarrow> (v = Some (''val_'' @ drop 4 key), store'))
          else (True, store)
      | None \<Rightarrow> (True, store))"

definition test_transfer_keys_streaming ::
    "externs \<Rightarrow> clock \<Rightarrow> (addr \<Rightarrow> nat \<Rightarrow> instant) \<Rightarrow> addr \<Rightarrow> node_id \<Rightarrow> node_id \<Rightarrow> node_id \<Rightarrow> bool" where
  "test_transfer_keys_streaming ext c clk addr server_id source_id target_id = passes (
     let source = start_test_server (c 0) server_id in
     and_then (store_set (c 1) ''key_a'' ''val_a'' None (ns_store source)) (\<lambda>st.
     and_then (store_set (c 2) ''key_b'' ''val_b'' (Some (from_secs 300)) st) (\<lambda>st.
     and_then (store_set (c 3) ''key_expired'' ''x'' (Some (from_millis 1)) st) (\<lambda>st.
     let source = source\<lparr>ns_store := st\<rparr>;
         source_info = \<lparr>ni_id = source_id, ni_addr = addr\<rparr>;
         target_info = \<lparr>ni_id = target_id, ni_addr = ''127.0.0.1:0''\<rparr>;
         ring = add_node ext target_info (add_node ext source_info ring_new) in
     and_then (rebalance ext (serving addr (c 5) source) clk target_id [source_info] ring (store_new (c 4))) (\<lambda>(count, target_store).
     let (ok_a, target_store) = check_key ext ring target_id (c 6) ''key_a'' target_store;
         (ok_b, target_store) = check_key ext ring target_id (c 7) ''key_b'' target_store in
     Inr (count \<le> 2 \<and> ok_a \<and> ok_b))))))"

definition test_transfer_preserves_ttl ::
    "externs \<Rightarrow> clock \<Rightarrow> (addr \<Rightarrow> nat \<Rightarrow> instant) \<Rightarrow> addr \<Rightarrow> node_id \<Rightarrow> node_id \<Rightarrow> node_id \<Rightarrow> bool" where
  "test_transfer_preserves_ttl ext c clk addr server_id source_id target_id = passes (
     let source = start_test_server (c 0) server_id in
     and_then (store_set (c 1) ''ttl_key'' ''data'' (Some (from_secs 60)) (ns_store source)) (\<lambda>st.
     let source = source\<lparr>ns_store := st\<rparr>;
         source_info = \<lparr>ni_id = source_id, ni_addr = addr\<rparr>;
         target_info = \<lparr>ni_id = target_id, ni_addr = ''127.0.0.1:0''\<rparr>;
         ring = add_node ext target_info (add_node ext source_info ring_new) in
     case get_node ext ring ''ttl_key'' of
       None \<Rightarrow> Inr False
     | Some owner \<Rightarrow>
         if ni_id owner \<noteq> target_id then Inr True
         else and_then (rebalance ext (serving addr (c 3) source) clk target_id [source_info] ring (store_new (c 2))) (\<lambda>(_, target_store).
              Inr (case store_ttl (c 4) ''ttl_key'' target_store of
                     None \<Rightarrow> False
                   | Some remaining \<Rightarrow> remaining > from_secs 55 \<and> remaining \<le> from_secs 60))))"

lemma rebalance_one:
  assumes "source_id \<noteq> target_id" "chunks = transfer_keys t source"
  shows "rebalance ext (serving addr t source) clk target_id [\<lparr>ni_id = source_id, ni_addr = addr\<rparr>] ring st
    = pull_chunks ext (clk addr) target_id ring 0 chunks (0, st)"
  using assms by (cases "pull_chunks ext (clk addr) target_id ring 0 (transfer_keys t source) (0, st)")
    (auto simp: rebalance_def pull_keys_from_def serving_def)

lemma transfer_streaming_passes:
  assumes "source_id \<noteq> target_id" "\<And>i. c i < 2 ^ 62 * nanos_per_sec" "\<And>i. clk addr i < 2 ^ 62 * nanos_per_sec"
    and "c 2 \<le> c 5" "c 5 < c 2 + millis 100000" "c 3 + millis 1 \<le> c 5" "c 7 < clk addr 1 + millis 100000"
  shows "test_transfer_keys_streaming ext c clk addr server_id source_id target_id"
proof -
  let ?d = "c 2 + 300000000000 - c 5"
  let ?ms = "as_millis_u64 ?d"
  let ?st = "\<lparr>cs_data = [(''key_a'', \<lparr>ce_value = ''val_a'', ce_expires_at = None\<rparr>), (''key_b'', \<lparr>ce_value = ''val_b'', ce_expires_at = Some (c 2 + 300000000000)\<rparr>),
      (''key_expired'', \<lparr>ce_value = ''x'', ce_expires_at = Some (c 3 + 1000000)\<rparr>)], cs_epoch = c 0\<rparr>"
  have bounds: "c 2 < 4611686018427387904000000000" "c 3 < 4611686018427387904000000000"
    using assms(2) [of 2] assms(2) [of 3] by (simp_all add: nanos_per_sec_def)
  have stored: "store_set (c 1) ''key_a'' ''val_a'' None (store_new (c 0)) = Inr \<lparr>cs_data = [(''key_a'', \<lparr>ce_value = ''val_a'', ce_expires_at = None\<rparr>)], cs_epoch = c 0\<rparr>"
    "store_set (c 2) ''key_b'' ''val_b'' (Some (from_secs 300)) \<lparr>cs_data = [(''key_a'', \<lparr>ce_value = ''val_a'', ce_expires_at = None\<rparr>)], cs_epoch = c 0\<rparr>
      = Inr \<lparr>cs_data = butlast (cs_data ?st), cs_epoch = c 0\<rparr>"
    "store_set (c 3) ''key_expired'' ''x'' (Some (from_millis 1)) \<lparr>cs_data = butlast (cs_data ?st), cs_epoch = c 0\<rparr> = Inr ?st"
    using bounds by (simp_all add: store_test_defs)
  have chunks: "transfer_keys (c 5) (s\<lparr>ns_store := ?st\<rparr>)
      = [\<lparr>tc_key = ''key_a'', tc_value = ''val_a'', tc_expires_at_ms = None\<rparr>, \<lparr>tc_key = ''key_b'', tc_value = ''val_b'', tc_expires_at_ms = Some ?ms\<rparr>]" for s
    using assms(4-6) by (simp add: transfer_keys_def entries_for_transfer_def unexpired_def nanos_per_milli_def)
  have ms: "from_millis ?ms = ?d div 1000000 * 1000000"
    using from_as_millis [of ?d] assms(4) by (simp add: nanos_per_milli_def)
  then have alive: "?ms \<noteq> 0" "c 7 < clk addr 1 + from_millis ?ms"
    using assms(4,5,7) by (auto simp: nanos_per_milli_def from_millis_def)
  have new: "ns_store (start_test_server (c 0) server_id) = store_new (c 0)" by (simp add: start_test_server_def node_new_def)
  show ?thesis
    unfolding test_transfer_keys_streaming_def Let_def new and_then.simps stored rebalance_one [OF assms(1) chunks [symmetric]]
    using alive accept_chunk_total [OF assms(3)]
    by (simp add: check_key_def owned_def live_chunk_def put_entry_def store_get_def store_new_def hm_get_def hm_insert_def split: option.split)
qed

lemma transfer_preserves_ttl_passes:
  assumes "source_id \<noteq> target_id" "\<And>i. c i < 2 ^ 62 * nanos_per_sec" "\<And>i. clk addr i < 2 ^ 62 * nanos_per_sec"
    and "c 1 \<le> c 3" "c 3 < c 1 + millis 1000" "clk addr 0 \<le> c 4" "c 4 < clk addr 0 + millis 1000"
  shows "test_transfer_preserves_ttl ext c clk addr server_id source_id target_id"
proof -
  let ?d = "c 1 + 60000000000 - c 3"
  let ?ms = "as_millis_u64 ?d"
  let ?st = "\<lparr>cs_data = [(''ttl_key'', \<lparr>ce_value = ''data'', ce_expires_at = Some (c 1 + 60000000000)\<rparr>)], cs_epoch = c 0\<rparr>"
  let ?ring = "add_node ext \<lparr>ni_id = target_id, ni_addr = ''127.0.0.1:0''\<rparr> (add_node ext \<lparr>ni_id = source_id, ni_addr = addr\<rparr> ring_new)"
  have "c 1 < 4611686018427387904000000000" using assms(2) [of 1] by (simp add: nanos_per_sec_def)
  then have stored: "store_set (c 1) ''ttl_key'' ''data'' (Some (from_secs 60)) (store_new (c 0)) = Inr ?st"
    by (simp add: store_test_defs)
  have chunks: "transfer_keys (c 3) (s\<lparr>ns_store := ?st\<rparr>) = [\<lparr>tc_key = ''ttl_key'', tc_value = ''data'', tc_expires_at_ms = Some ?ms\<rparr>]" for s
    using assms(4,5) by (simp add: transfer_keys_def entries_for_transfer_def unexpired_def nanos_per_milli_def)
  have ms: "from_millis ?ms = ?d div 1000000 * 1000000"
    using from_as_millis [of ?d] assms(4) by (simp add: nanos_per_milli_def)
  then have "58999000000 \<le> from_millis ?ms" "from_millis ?ms \<le> 60000000000" using assms(4,5) by (auto simp: nanos_per_milli_def)
  moreover from this have "?ms \<noteq> 0" by (auto simp: from_millis_def)
  moreover have "get_node ext ?ring ''ttl_key'' \<noteq> None"
  proof -
    have "ring_inv ?ring" by (intro ring_inv_add_node ring_inv_new)
    moreover have "0 < hr_vnode_count (add_node ext \<lparr>ni_id = source_id, ni_addr = addr\<rparr> ring_new)"
      by (simp add: add_node_def ring_new_def DEFAULT_VNODE_COUNT_def)
    ultimately show ?thesis using add_node_nonempty by (simp add: get_node_None)
  qed
  moreover have new: "ns_store (start_test_server (c 0) server_id) = store_new (c 0)" by (simp add: start_test_server_def node_new_def)
  ultimately show ?thesis
    unfolding test_transfer_preserves_ttl_def Let_def new and_then.simps stored rebalance_one [OF assms(1) chunks [symmetric]]
    using assms(6,7) accept_chunk_total [OF assms(3)]
    by (auto simp: owned_def live_chunk_def put_entry_def store_ttl_def store_new_def hm_get_def hm_insert_def
        from_secs_def nanos_per_sec_def nanos_per_milli_def split: option.split)
qed

section \<open>Property\<close>

text \<open>The store's timed unit tests pass exactly on schedules that keep to the slack the tests leave: a read
  that is meant to be immediate comes before the deadline, a read after a sleep not before it. On a loaded
  machine they can fail although the store is right.\<close>
theorem timed_store_tests:
  assumes "\<forall>i. c i \<le> c (Suc i)" "\<forall>i. c i < 2 ^ 62 * nanos_per_sec"
  shows "(test_ttl_expiry c \<longleftrightarrow> c 2 < c 1 + millis 50 \<and> c 1 + millis 50 \<le> c 3)
    \<and> (test_store_expire c \<longleftrightarrow> c 3 < c 2 + millis 50 \<and> c 2 + millis 50 \<le> c 4)
    \<and> (test_ttl_remaining c \<longleftrightarrow> c 2 < c 1 + millis 100)
    \<and> (test_set_from_transfer_with_ttl c \<longleftrightarrow> c 3 < c 1 + millis 1000)
    \<and> (test_entries_for_transfer c \<longleftrightarrow> c 3 + millis 1 \<le> c 4 \<and> c 4 \<le> c 2 + millis 999)
    \<and> test_epoch_conversion c"
proof -
  have step: "c 0 \<le> c 1" "c 1 \<le> c 2" "c 2 \<le> c 3" "c 3 \<le> c 4"
    using assms(1) [THEN spec, of 0] assms(1) [THEN spec, of 1] assms(1) [THEN spec, of 2] assms(1) [THEN spec, of 3]
    by (simp_all add: eval_nat_numeral)
  have bound: "c i < 2 ^ 62 * nanos_per_sec" for i using assms(2) ..
  show ?thesis
    using ttl_expiry_passes [of c, OF bound] expire_passes [of c, OF bound] ttl_remaining_passes [OF bound step(2)]
      transfer_with_ttl_passes [OF bound step(2,3)] entries_for_transfer_passes [OF bound bound step(3,4)] epoch_conversion_passes [OF bound step(1)]
    by blast
qed

theorem timed_store_tests_witness:
  "test_ttl_expiry (\<lambda>i. if i < 3 then 0 else millis 100) \<and> \<not> test_ttl_expiry (\<lambda>i. if i < 2 then 0 else millis 60)"
proof -
  have "test_ttl_expiry (\<lambda>i. if i < 3 then 0 else millis 100)"
    using timed_store_tests [of "\<lambda>i. if i < 3 then 0 else millis 100"] by (simp add: nanos_per_milli_def nanos_per_sec_def)
  moreover have "\<not> test_ttl_expiry (\<lambda>i. if i < 2 then 0 else millis 60)"
    using timed_store_tests [of "\<lambda>i. if i < 2 then 0 else millis 60"] by (simp add: nanos_per_milli_def nanos_per_sec_def)
  ultimately show ?thesis ..
qed

end
