(* ===== verification/Ring_Tests.thy ===== *)
theory Ring_Tests
  imports Store_Tests Std_Float
begin

text \<open>
  The two statistical tests of the hash ring in \<^verbatim>\<open>crates/common/src/hashring.rs\<close>, which place 100000 keys on five
  nodes, as functions of the hash and of the drawn identifiers. Whether they pass depends on the values of
  the hash; the lemmas say what of them the tests measure. The lines they print are left out.
\<close>

section \<open>The tests\<close>

text \<open>The five nodes both tests start from, and their keys.\<close>
definition test_nodes :: "(nat \<Rightarrow> uuid) \<Rightarrow> node_info list" where
  "test_nodes drawn = map (\<lambda>i. make_node (drawn i) (''500'' @ dec_nat i)) [0..<5]"

definition test_key :: "nat \<Rightarrow> bytes" where
  "test_key i = ''key-'' @ dec_nat i"

text \<open>\<^verbatim>\<open>*counts.entry(k).or_insert(0) += 1\<close>\<close>
definition count_up :: "'k \<Rightarrow> ('k, nat) hmap \<Rightarrow> ('k, nat) hmap" where
  "count_up k counts = hm_insert k (case hm_get counts k of None \<Rightarrow> 1 | Some n \<Rightarrow> n + 1) counts"

text \<open>\<^verbatim>\<open>(n as f64) / (t as f64) * 100.0\<close>\<close>
definition percent_of :: "nat \<Rightarrow> nat \<Rightarrow> f64" where
  "percent_of n t = f64_mult (f64_div (f64_of n) (f64_of t)) (Finite 100)"

text \<open>A failed \<^verbatim>\<open>unwrap\<close> fails the test.\<close>
definition test_distribution_is_even :: "externs \<Rightarrow> (nat \<Rightarrow> uuid) \<Rightarrow> bool" where
  "test_distribution_is_even ext drawn =
     (let ring = fold (add_node ext) (test_nodes drawn) ring_new; total_keys = 100000 in
      case those (map (\<lambda>i. get_node ext ring (test_key i)) [0..<total_keys]) of
        None \<Rightarrow> False
      | Some owners \<Rightarrow>
          let counts = fold (\<lambda>node. count_up (ni_addr node)) owners [] in
          list_all (\<lambda>(_, n). let pct = percent_of n total_keys in f64_less (Finite 15) pct \<and> f64_less pct (Finite 25)) counts)"

definition test_add_node_minimal_reshuffle :: "externs \<Rightarrow> (nat \<Rightarrow> uuid) \<Rightarrow> bool" where
  "test_add_node_minimal_reshuffle ext drawn =
     (let ring = fold (add_node ext) (test_nodes drawn) ring_new in
      case those (map (\<lambda>i. map_option (\<lambda>n. (test_key i, ni_id n)) (get_node ext ring (test_key i))) [0..<100000]) of
        None \<Rightarrow> False
      | Some before \<Rightarrow>
          let ring = add_node ext (make_node (drawn 5) ''5005'') ring in
          (case those (map (\<lambda>(key, old_node_id). map_option (\<lambda>n. old_node_id \<noteq> ni_id n) (get_node ext ring key)) before) of
             None \<Rightarrow> False
           | Some changes \<Rightarrow> f64_less (percent_of (length (filter id changes)) 100000) (Finite 25)))"

section \<open>What they measure\<close>

text \<open>The bounds on the rounded percentages are bounds on the counts, without slack.\<close>
lemma percent_of_percent:
  assumes "n < 2 ^ 53" "t < 2 ^ 53" "0 < t"
  shows "percent_of n t = Finite (f64_percent (of_nat n) (of_nat t))"
  using assms by (simp add: percent_of_def f64_of_def f64_round_int f64_percent_def)

lemma percent_bounds:
  assumes "n \<le> 100000"
  shows "f64_less (percent_of n 100000) (Finite 25) \<longleftrightarrow> n < 25000"
    and "f64_less (Finite 15) (percent_of n 100000) \<longleftrightarrow> 15000 < n"
proof -
  have p: "percent_of n 100000 = Finite (f64_percent (of_nat n) 100000)" using assms percent_of_percent [of n 100000] by simp
  have at: "f64_percent 25000 100000 = 25" "f64_percent 24999 100000 < 25" "f64_percent 15000 100000 = 15" "15 < f64_percent 15001 100000"
    by code_simp+
  note m = f64_percent_mono [of _ _ 100000]
  have "f64_percent (of_nat n) 100000 < 25" if "n < 25000" using m [of "of_nat n" 24999] at(2) that by (simp add: of_nat_le_iff [where 'a = rat, of n 24999, simplified])
  moreover have "25 \<le> f64_percent (of_nat n) 100000" if "\<not> n < 25000" using m [of 25000 "of_nat n"] at(1) that by (simp add: of_nat_le_iff [where 'a = rat, of 25000 n, simplified])
  moreover have "15 < f64_percent (of_nat n) 100000" if "15000 < n" using m [of 15001 "of_nat n"] at(4) that by (simp add: of_nat_le_iff [where 'a = rat, of 15001 n, simplified])
  moreover have "f64_percent (of_nat n) 100000 \<le> 15" if "\<not> 15000 < n" using m [of "of_nat n" 15000] at(3) that by (simp add: of_nat_le_iff [where 'a = rat, of n 15000, simplified])
  ultimately show "f64_less (percent_of n 100000) (Finite 25) \<longleftrightarrow> n < 25000" "f64_less (Finite 15) (percent_of n 100000) \<longleftrightarrow> 15000 < n"
    unfolding p f64_less.simps by (meson leD)+
qed

text \<open>The counters of a run are the multiplicities of what was counted.\<close>
lemma counters:
  "hm_invar m \<Longrightarrow> hm_get (fold count_up xs m) k =
     (if k \<in> set xs then Some (count_list xs k + (case hm_get m k of None \<Rightarrow> 0 | Some n \<Rightarrow> n)) else hm_get m k)"
  "hm_invar m \<Longrightarrow> hm_invar (fold count_up xs m)"
proof (induction xs arbitrary: m)
  case (Cons x xs)
  { case 1
    then show ?case using Cons(1) [of "count_up x m"] by (auto simp: count_up_def count_list_0_iff split: option.split) }
  { case 2
    then show ?case using Cons(2) [of "count_up x m"] by (simp add: count_up_def) }
qed simp_all

lemma counters_entries:
  "set (fold count_up xs []) = (\<lambda>k. (k, count_list xs k)) ` set xs"
proof -
  have "p \<in> set (fold count_up xs []) \<longleftrightarrow> hm_get (fold count_up xs []) (fst p) = Some (snd p)" for p
    using hm.get_entries [OF counters(2) [OF hm_invar_Nil], of xs "fst p" "snd p"] by simp
  then show ?thesis by (auto simp: counters image_iff split: if_splits)
qed

text \<open>The ring the tests build owns every key.\<close>
lemma ring_of_inv: "ring_inv r \<Longrightarrow> ring_inv (fold (add_node ext) ms r)"
  by (induction ms arbitrary: r) (simp_all add: ring_inv_add_node)

lemma ring_of_nodes:
  "hr_nodes (fold (add_node ext) ms r) = hr_nodes r @ ms" "hr_vnode_count (fold (add_node ext) ms r) = hr_vnode_count r"
  by (induction ms arbitrary: r) (simp_all add: add_node_def)

lemma ring_of_nonempty:
  assumes "ms \<noteq> []" "0 < hr_vnode_count r"
  shows "hr_ring (fold (add_node ext) ms r) \<noteq> []"
  using assms by (cases ms rule: rev_cases) (simp_all add: add_node_nonempty ring_of_nodes)

abbreviation test_ring :: "externs \<Rightarrow> (nat \<Rightarrow> uuid) \<Rightarrow> hash_ring" where
  "test_ring ext drawn \<equiv> fold (add_node ext) (test_nodes drawn) ring_new"

lemma test_ring: "ring_inv (test_ring ext drawn)" "hr_nodes (test_ring ext drawn) = test_nodes drawn" "hr_ring (test_ring ext drawn) \<noteq> []"
  using ring_of_inv [OF ring_inv_new(1)] ring_of_nodes(1) [of ext "test_nodes drawn" ring_new]
    ring_of_nonempty [of "test_nodes drawn" ring_new ext]
  by (simp_all add: ring_new_def test_nodes_def DEFAULT_VNODE_COUNT_def)

text \<open>The owner of the \<open>i\<close>-th key.\<close>
definition key_owner :: "externs \<Rightarrow> hash_ring \<Rightarrow> nat \<Rightarrow> node_info" where
  "key_owner ext ring i = the (get_node ext ring (test_key i))"

lemma key_owner:
  assumes "ring_inv ring" "hr_ring ring \<noteq> []"
  shows "get_node ext ring (test_key i) = Some (key_owner ext ring i)" "key_owner ext ring i \<in> set (hr_nodes ring)"
  using assms get_node_None [of ring ext "test_key i"] get_node_owner(2) [of ring ext "test_key i"] by (auto simp: key_owner_def)

lemma those_total: "(\<And>i. f i = Some (g i)) \<Longrightarrow> those (map f is) = Some (map g is)"
  by (induction "is") simp_all

text \<open>How many of the keys the \<open>j\<close>-th node gets.\<close>
definition node_share :: "externs \<Rightarrow> (nat \<Rightarrow> uuid) \<Rightarrow> nat \<Rightarrow> nat" where
  "node_share ext drawn j = length (filter (\<lambda>i. ni_addr (key_owner ext (test_ring ext drawn) i) = ni_addr (test_nodes drawn ! j)) [0..<100000])"

lemma count_list_map: "count_list (map f xs) y = length (filter (\<lambda>x. f x = y) xs)"
  by (induction xs) auto

lemma test_addrs: "distinct (map ni_addr (test_nodes drawn))"
proof -
  have "map ni_addr (test_nodes drawn) = map (\<lambda>i. ''127.0.0.1:'' @ ''500'' @ dec_nat i) [0..<5]" by (simp add: test_nodes_def make_node_def)
  moreover have "distinct (map (\<lambda>i. ''127.0.0.1:'' @ ''500'' @ dec_nat i) [0..<5])" by code_simp
  ultimately show ?thesis by metis
qed

text \<open>
  The test looks only at the nodes that were counted, and still bounds the share of all five: were one of
  them without keys, another would have a quarter of them.
\<close>
lemma distribution_test_passes:
  "test_distribution_is_even ext drawn \<longleftrightarrow> (\<forall>j<5. 15000 < node_share ext drawn j \<and> node_share ext drawn j < 25000)"
proof -
  define addrs where "addrs = map (\<lambda>i. ni_addr (key_owner ext (test_ring ext drawn) i)) [0..<100000]"
  define n where "n = count_list addrs"
  let ?A = "set (map ni_addr (test_nodes drawn))"
  have len: "length (test_nodes drawn) = 5" by (simp add: test_nodes_def)
  have owners: "those (map (\<lambda>i. get_node ext (test_ring ext drawn) (test_key i)) is) = Some (map (key_owner ext (test_ring ext drawn)) is)" for "is"
    by (intro those_total key_owner(1) test_ring)
  have sub: "set addrs \<subseteq> ?A" using key_owner(2) [OF test_ring(1,3), of ext] by (auto simp: addrs_def test_ring(2))
  have total_n: "(\<Sum>a\<in>?A. n a) = 100000" using sum_count_set [OF sub] by (simp add: n_def addrs_def)
  have le: "n a \<le> 100000" for a using count_le_length [of addrs a] by (simp add: n_def addrs_def)
  have counted: "fold (\<lambda>node. count_up (ni_addr node)) (map (key_owner ext (test_ring ext drawn)) [0..<100000]) m = fold count_up addrs m" for m
    unfolding addrs_def fold_map comp_def by (rule refl)
  have "test_distribution_is_even ext drawn \<longleftrightarrow> (\<forall>a\<in>set addrs. 15000 < n a \<and> n a < 25000)"
    unfolding test_distribution_is_even_def Let_def owners option.case counted list_all_iff counters_entries
    using le by (simp add: percent_bounds n_def)
  also have "\<dots> \<longleftrightarrow> (\<forall>a\<in>?A. 15000 < n a \<and> n a < 25000)"
  proof
    assume ok: "\<forall>a\<in>set addrs. 15000 < n a \<and> n a < 25000"
    have small: "n a \<le> 24999" for a using ok by (cases "a \<in> set addrs") (auto simp: n_def count_list_0_iff Suc_le_eq[symmetric])
    have "a \<in> set addrs" if "a \<in> ?A" for a
    proof (rule ccontr)
      assume "a \<notin> set addrs"
      then have "(\<Sum>a\<in>?A. n a) = (\<Sum>a\<in>?A - {a}. n a)" using that sum.remove [of ?A a n] by (simp add: n_def count_list_0_iff)
      also have "\<dots> \<le> card (?A - {a}) * 24999" using sum_bounded_above [of "?A - {a}" n 24999] small by simp
      also have "card (?A - {a}) = 4" using that distinct_card [OF test_addrs, of drawn] len by simp
      finally show False using total_n by simp
    qed
    then show "\<forall>a\<in>?A. 15000 < n a \<and> n a < 25000" using ok by blast
  qed (use sub in blast)
  also have "\<dots> \<longleftrightarrow> (\<forall>j<5. 15000 < node_share ext drawn j \<and> node_share ext drawn j < 25000)"
    using len by (simp add: node_share_def all_set_conv_all_nth n_def addrs_def count_list_map)
  finally show ?thesis .
qed

text \<open>The keys that change hands are exactly those the new node owns afterwards, so the second test bounds its share.\<close>
lemma owner_after_add:
  assumes "ring_inv r" "hr_ring r \<noteq> []" "\<not> contains_node r (ni_id info)" "0 < hr_vnode_count r"
  shows "ni_id (key_owner ext r i) \<noteq> ni_id (key_owner ext (add_node ext info r) i) \<longleftrightarrow> key_owner ext (add_node ext info r) i = info"
proof -
  let ?r = "add_node ext info r"
  have r': "ring_inv ?r" "hr_ring ?r \<noteq> []" using assms by (simp_all add: ring_inv_add_node add_node_nonempty)
  note o = get_node_owner(1) [OF assms(1) key_owner(1) [OF assms(1,2)], of ext i]
    and o' = get_node_owner(1) [OF r'(1) key_owner(1) [OF r'], of ext i]
  have "owner_at (hr_ring ?r) h = Some (ni_id info) \<or> owner_at (hr_ring ?r) h = owner_at (hr_ring r) h" for h
    using owner_at_fold_insert [of "hash_vnode ext (ni_id info)" "ni_id info" "[0..<hr_vnode_count r]" "hr_ring r" h] by (simp add: add_node_def)
  then have "ni_id (key_owner ext ?r i) = ni_id info \<or> ni_id (key_owner ext ?r i) = ni_id (key_owner ext r i)"
    using o o' by (metis option.inject)
  moreover have "ni_id (key_owner ext r i) \<noteq> ni_id info" using key_owner(2) [OF assms(1,2), of ext i] assms(3) by (metis contains_node_conv imageI)
  moreover have "key_owner ext ?r i = info" if "ni_id (key_owner ext ?r i) = ni_id info"
  proof -
    have "find_node ?r (ni_id info) = Some info" using assms(3) by (simp add: find_node_add find_node_None [THEN iffD2])
    then show ?thesis using that o' key_owner(1) [OF r', of ext i] by (simp add: get_node_owner_at)
  qed
  ultimately show ?thesis by auto
qed

definition joiner_share :: "externs \<Rightarrow> (nat \<Rightarrow> uuid) \<Rightarrow> nat" where
  "joiner_share ext drawn =
     (let joiner = make_node (drawn 5) ''5005'' in
      length (filter (\<lambda>i. key_owner ext (add_node ext joiner (test_ring ext drawn)) i = joiner) [0..<100000]))"

lemma reshuffle_test_passes:
  assumes "drawn 5 \<notin> drawn ` {..<5}"
  shows "test_add_node_minimal_reshuffle ext drawn \<longleftrightarrow> joiner_share ext drawn < 25000"
proof -
  let ?r = "test_ring ext drawn" and ?joiner = "make_node (drawn 5) ''5005''"
  let ?r' = "add_node ext ?joiner ?r"
  have pos: "0 < hr_vnode_count ?r" by (simp add: ring_of_nodes ring_new_def DEFAULT_VNODE_COUNT_def)
  have r': "ring_inv ?r'" "hr_ring ?r' \<noteq> []" using test_ring pos by (simp_all add: ring_inv_add_node add_node_nonempty)
  have fresh: "\<not> contains_node ?r (ni_id ?joiner)"
    unfolding contains_node_conv test_ring(2) using assms by (auto simp: test_nodes_def make_node_def)
  have before: "those (map (\<lambda>i. map_option (\<lambda>n. (test_key i, ni_id n)) (get_node ext ?r (test_key i))) is)
    = Some (map (\<lambda>i. (test_key i, ni_id (key_owner ext ?r i))) is)" for "is"
    by (intro those_total) (simp add: key_owner(1) [OF test_ring(1,3)])
  have after: "those (map (\<lambda>(key, old_node_id). map_option (\<lambda>n. old_node_id \<noteq> ni_id n) (get_node ext ?r' key))
      (map (\<lambda>i. (test_key i, ni_id (key_owner ext ?r i))) is))
    = Some (map (\<lambda>i. key_owner ext ?r' i = ?joiner) is)" for "is"
    unfolding map_map comp_def
    by (intro those_total) (simp only: prod.case key_owner(1) [OF r'] option.map owner_after_add [OF test_ring(1,3) fresh pos])
  have "length (filter id (map (\<lambda>i. key_owner ext ?r' i = ?joiner) [0..<100000])) = joiner_share ext drawn"
    by (simp only: joiner_share_def Let_def filter_map length_map comp_def id_apply)
  moreover have "joiner_share ext drawn \<le> 100000" using length_filter_le [of _ "[0..<100000]"] by (simp add: joiner_share_def Let_def)
  ultimately show ?thesis
    unfolding test_add_node_minimal_reshuffle_def Let_def before option.case after by (simp only: percent_bounds)
qed
end
