(* ===== verification/Resp_Tests.thy ===== *)
theory Resp_Tests
  imports Resp_Server "HOL-Library.Sublist"
begin

text \<open>
  The repository's own unit tests of the RESP parser, the encoder and the command dispatch, run on the
  model. A test is a truth value: whether every assertion holds and nothing panics. The parser and the
  encoder tests are closed; a dispatch test takes the clock readings of its commands, so its lemma says for
  which clocks it passes.
\<close>

text \<open>What the allocator gives without complaint; the tests need room for five elements.\<close>
definition test_capacity :: nat where "test_capacity = 1024"

section \<open>Tests of the parser\<close>

definition test_parse_simple_string :: bool where
  "test_parse_simple_string =
     (case parse_resp test_capacity (''+OK'' @ CRLF) of
        Inr (Complete (SimpleString s) consumed) \<Rightarrow> s = ''OK'' \<and> consumed = 5
      | _ \<Rightarrow> False)"

definition test_parse_error :: bool where
  "test_parse_error =
     (case parse_resp test_capacity (''-ERR test'' @ CRLF) of
        Inr (Complete (RespError s) consumed) \<Rightarrow> s = ''ERR test'' \<and> consumed = 11
      | _ \<Rightarrow> False)"

definition test_parse_integer :: bool where
  "test_parse_integer =
     (case parse_resp test_capacity ('':42'' @ CRLF) of
        Inr (Complete (RespInteger n) consumed) \<Rightarrow> n = 42 \<and> consumed = 5
      | _ \<Rightarrow> False)"

definition test_parse_negative_integer :: bool where
  "test_parse_negative_integer =
     (case parse_resp test_capacity ('':-1'' @ CRLF) of
        Inr (Complete (RespInteger n) _) \<Rightarrow> n = - 1
      | _ \<Rightarrow> False)"

definition test_parse_bulk_string :: bool where
  "test_parse_bulk_string =
     (case parse_resp test_capacity (''$5'' @ CRLF @ ''hello'' @ CRLF) of
        Inr (Complete (BulkString data) consumed) \<Rightarrow> data = ''hello'' \<and> consumed = 11
      | _ \<Rightarrow> False)"

definition test_parse_empty_bulk_string :: bool where
  "test_parse_empty_bulk_string =
     (case parse_resp test_capacity (''$0'' @ CRLF @ CRLF) of
        Inr (Complete (BulkString data) consumed) \<Rightarrow> data = [] \<and> consumed = 6
      | _ \<Rightarrow> False)"

definition test_parse_null_bulk :: bool where
  "test_parse_null_bulk =
     (case parse_resp test_capacity (''$-1'' @ CRLF) of
        Inr (Complete RespNull consumed) \<Rightarrow> consumed = 5
      | _ \<Rightarrow> False)"

definition test_parse_null_array :: bool where
  "test_parse_null_array =
     (case parse_resp test_capacity (''*-1'' @ CRLF) of
        Inr (Complete RespNull consumed) \<Rightarrow> consumed = 5
      | _ \<Rightarrow> False)"

definition test_parse_empty_array :: bool where
  "test_parse_empty_array =
     (case parse_resp test_capacity (''*0'' @ CRLF) of
        Inr (Complete (RespArray items) consumed) \<Rightarrow> items = [] \<and> consumed = 4
      | _ \<Rightarrow> False)"

definition test_parse_get_command :: bool where
  "test_parse_get_command =
     (case parse_resp test_capacity (''*2'' @ CRLF @ ''$3'' @ CRLF @ ''GET'' @ CRLF @ ''$3'' @ CRLF @ ''foo'' @ CRLF) of
        Inr (Complete (RespArray items) _) \<Rightarrow>
          length items = 2 \<and> items ! 0 = BulkString ''GET'' \<and> items ! 1 = BulkString ''foo''
      | _ \<Rightarrow> False)"

text \<open>The texts are ASCII, which \<^verbatim>\<open>from_utf8_lossy\<close> keeps.\<close>
definition test_parse_set_command_with_ex :: bool where
  "test_parse_set_command_with_ex =
     (case parse_resp test_capacity (''*5'' @ CRLF @ ''$3'' @ CRLF @ ''SET'' @ CRLF @ ''$3'' @ CRLF @ ''foo'' @ CRLF @
             ''$3'' @ CRLF @ ''bar'' @ CRLF @ ''$2'' @ CRLF @ ''EX'' @ CRLF @ ''$2'' @ CRLF @ ''60'' @ CRLF) of
        Inr (Complete (RespArray items) _) \<Rightarrow>
          length items = 5
          \<and> those (map (\<lambda>v. case v of BulkString d \<Rightarrow> Some d | _ \<Rightarrow> None) items) = Some [''SET'', ''foo'', ''bar'', ''EX'', ''60'']
      | _ \<Rightarrow> False)"

definition test_parse_incomplete_simple_string :: bool where
  "test_parse_incomplete_simple_string \<longleftrightarrow> parse_resp test_capacity ''+OK'' = Inr Incomplete"

definition test_parse_incomplete_bulk_string :: bool where
  "test_parse_incomplete_bulk_string \<longleftrightarrow> parse_resp test_capacity (''$5'' @ CRLF @ ''hel'') = Inr Incomplete"

definition test_parse_incomplete_array :: bool where
  "test_parse_incomplete_array \<longleftrightarrow> parse_resp test_capacity (''*2'' @ CRLF @ ''$3'' @ CRLF @ ''GET'' @ CRLF) = Inr Incomplete"

definition test_parse_empty_buffer :: bool where
  "test_parse_empty_buffer \<longleftrightarrow> parse_resp test_capacity [] = Inr Incomplete"

definition test_parse_mixed_types_array :: bool where
  "test_parse_mixed_types_array =
     (case parse_resp test_capacity (''*2'' @ CRLF @ ''$3'' @ CRLF @ ''foo'' @ CRLF @ '':100'' @ CRLF) of
        Inr (Complete (RespArray items) _) \<Rightarrow>
          length items = 2 \<and> items ! 0 = BulkString ''foo'' \<and> items ! 1 = RespInteger 100
      | _ \<Rightarrow> False)"

definition test_bytes_consumed_exact :: bool where
  "test_bytes_consumed_exact =
     (let input = ''+OK'' @ CRLF @ ''+NO'' @ CRLF in
      case parse_resp test_capacity input of
        Inr (Complete (SimpleString s) consumed) \<Rightarrow>
          s = ''OK'' \<and> consumed = 5
          \<and> (case parse_resp test_capacity (drop consumed input) of
               Inr (Complete (SimpleString s2) _) \<Rightarrow> s2 = ''NO''
             | _ \<Rightarrow> False)
      | _ \<Rightarrow> False)"

lemma parser_tests_pass:
  "test_parse_simple_string" "test_parse_error" "test_parse_integer" "test_parse_negative_integer" "test_parse_bulk_string"
  "test_parse_empty_bulk_string" "test_parse_null_bulk" "test_parse_null_array" "test_parse_empty_array" "test_parse_get_command"
  "test_parse_set_command_with_ex" "test_parse_incomplete_simple_string" "test_parse_incomplete_bulk_string"
  "test_parse_incomplete_array" "test_parse_empty_buffer" "test_parse_mixed_types_array" "test_bytes_consumed_exact"
  by code_simp+

section \<open>Tests of the encoder\<close>

definition test_encode_simple_string :: bool where
  "test_encode_simple_string \<longleftrightarrow> encode_simple_string ''OK'' = ''+OK'' @ CRLF"

definition test_encode_error :: bool where
  "test_encode_error \<longleftrightarrow> encode_error ''ERR something'' = ''-ERR something'' @ CRLF"

definition test_encode_integer :: bool where
  "test_encode_integer \<longleftrightarrow>
     encode_integer 42 = '':42'' @ CRLF \<and> encode_integer (- 1) = '':-1'' @ CRLF \<and> encode_integer 0 = '':0'' @ CRLF"

definition test_encode_bulk_string :: bool where
  "test_encode_bulk_string \<longleftrightarrow>
     encode_bulk_string ''hello'' = ''$5'' @ CRLF @ ''hello'' @ CRLF \<and> encode_bulk_string [] = ''$0'' @ CRLF @ CRLF"

definition test_encode_null :: bool where
  "test_encode_null \<longleftrightarrow> encode_null = ''$-1'' @ CRLF"

definition test_encode_array :: bool where
  "test_encode_array \<longleftrightarrow>
     encode_array [BulkString ''GET'', BulkString ''foo''] = ''*2'' @ CRLF @ ''$3'' @ CRLF @ ''GET'' @ CRLF @ ''$3'' @ CRLF @ ''foo'' @ CRLF"

definition test_encode_empty_array :: bool where
  "test_encode_empty_array \<longleftrightarrow> encode_array [] = ''*0'' @ CRLF"

lemma encoder_tests_pass:
  "test_encode_simple_string" "test_encode_error" "test_encode_integer" "test_encode_bulk_string" "test_encode_null"
  "test_encode_array" "test_encode_empty_array"
  by code_simp+

section \<open>Tests of the command dispatch\<close>

text \<open>The tests' helpers: the store they start from (its epoch plays no role), a command, and commands in a
  row. A command reads the clock at most twice: command \<open>i\<close> at \<open>c (2 * i)\<close> and \<open>c (2 * i + 1)\<close>.\<close>
definition make_store :: cache_store where
  "make_store = store_new 0"

definition array :: "bytes list \<Rightarrow> resp_value" where
  "array parts = RespArray (map BulkString parts)"

fun replies :: "(nat \<Rightarrow> instant) \<Rightarrow> nat \<Rightarrow> bytes list list \<Rightarrow> cache_store \<Rightarrow> bytes list run" where
  "replies c i [] st = Inr []"
| "replies c i (cmd # cmds) st =
     and_then (handle_command (c (2 * i), c (2 * i + 1)) (array cmd) st) (\<lambda>(resp, st').
     and_then (replies c (i + 1) cmds st') (\<lambda>resps. Inr (resp # resps)))"

definition dispatch_test_ping :: "(nat \<Rightarrow> instant) \<Rightarrow> bool" where
  "dispatch_test_ping c =
     (case replies c 0 [[''PING'']] make_store of
        Inr [resp] \<Rightarrow> resp = ''+PONG'' @ CRLF
      | _ \<Rightarrow> False)"

definition dispatch_test_ping_with_message :: "(nat \<Rightarrow> instant) \<Rightarrow> bool" where
  "dispatch_test_ping_with_message c =
     (case replies c 0 [[''PING'', ''hello'']] make_store of
        Inr [resp] \<Rightarrow> resp = ''$5'' @ CRLF @ ''hello'' @ CRLF
      | _ \<Rightarrow> False)"

definition dispatch_test_set_and_get :: "(nat \<Rightarrow> instant) \<Rightarrow> bool" where
  "dispatch_test_set_and_get c =
     (case replies c 0 [[''SET'', ''mykey'', ''myvalue''], [''GET'', ''mykey'']] make_store of
        Inr [resp1, resp2] \<Rightarrow> resp1 = ''+OK'' @ CRLF \<and> resp2 = ''$7'' @ CRLF @ ''myvalue'' @ CRLF
      | _ \<Rightarrow> False)"

definition dispatch_test_set_with_ex :: "(nat \<Rightarrow> instant) \<Rightarrow> bool" where
  "dispatch_test_set_with_ex c =
     (case replies c 0 [[''SET'', ''k'', ''v'', ''EX'', ''10''], [''TTL'', ''k'']] make_store of
        Inr [resp1, resp2] \<Rightarrow> resp1 = ''+OK'' @ CRLF \<and> prefix '':'' resp2
      | _ \<Rightarrow> False)"

definition dispatch_test_set_with_px :: "(nat \<Rightarrow> instant) \<Rightarrow> bool" where
  "dispatch_test_set_with_px c =
     (case replies c 0 [[''SET'', ''k'', ''v'', ''PX'', ''5000'']] make_store of
        Inr [resp] \<Rightarrow> resp = ''+OK'' @ CRLF
      | _ \<Rightarrow> False)"

definition dispatch_test_get_missing :: "(nat \<Rightarrow> instant) \<Rightarrow> bool" where
  "dispatch_test_get_missing c =
     (case replies c 0 [[''GET'', ''nokey'']] make_store of
        Inr [resp] \<Rightarrow> resp = ''$-1'' @ CRLF
      | _ \<Rightarrow> False)"

definition dispatch_test_del_existing :: "(nat \<Rightarrow> instant) \<Rightarrow> bool" where
  "dispatch_test_del_existing c =
     (case replies c 0 [[''SET'', ''k'', ''v''], [''DEL'', ''k''], [''GET'', ''k'']] make_store of
        Inr [_, resp1, resp2] \<Rightarrow> resp1 = '':1'' @ CRLF \<and> resp2 = ''$-1'' @ CRLF
      | _ \<Rightarrow> False)"

definition dispatch_test_del_missing :: "(nat \<Rightarrow> instant) \<Rightarrow> bool" where
  "dispatch_test_del_missing c =
     (case replies c 0 [[''DEL'', ''nokey'']] make_store of
        Inr [resp] \<Rightarrow> resp = '':0'' @ CRLF
      | _ \<Rightarrow> False)"

definition dispatch_test_exists :: "(nat \<Rightarrow> instant) \<Rightarrow> bool" where
  "dispatch_test_exists c =
     (case replies c 0 [[''SET'', ''k'', ''v''], [''EXISTS'', ''k''], [''EXISTS'', ''nokey'']] make_store of
        Inr [_, resp1, resp2] \<Rightarrow> resp1 = '':1'' @ CRLF \<and> resp2 = '':0'' @ CRLF
      | _ \<Rightarrow> False)"

definition dispatch_test_ttl_no_key :: "(nat \<Rightarrow> instant) \<Rightarrow> bool" where
  "dispatch_test_ttl_no_key c =
     (case replies c 0 [[''TTL'', ''nokey'']] make_store of
        Inr [resp] \<Rightarrow> resp = '':-2'' @ CRLF
      | _ \<Rightarrow> False)"

definition dispatch_test_ttl_no_expiry :: "(nat \<Rightarrow> instant) \<Rightarrow> bool" where
  "dispatch_test_ttl_no_expiry c =
     (case replies c 0 [[''SET'', ''k'', ''v''], [''TTL'', ''k'']] make_store of
        Inr [_, resp] \<Rightarrow> resp = '':-1'' @ CRLF
      | _ \<Rightarrow> False)"

definition dispatch_test_expire :: "(nat \<Rightarrow> instant) \<Rightarrow> bool" where
  "dispatch_test_expire c =
     (case replies c 0 [[''SET'', ''k'', ''v''], [''EXPIRE'', ''k'', ''60''], [''TTL'', ''k'']] make_store of
        Inr [_, resp1, resp2] \<Rightarrow> resp1 = '':1'' @ CRLF \<and> prefix '':'' resp2
      | _ \<Rightarrow> False)"

definition dispatch_test_expire_missing_key :: "(nat \<Rightarrow> instant) \<Rightarrow> bool" where
  "dispatch_test_expire_missing_key c =
     (case replies c 0 [[''EXPIRE'', ''nokey'', ''60'']] make_store of
        Inr [resp] \<Rightarrow> resp = '':0'' @ CRLF
      | _ \<Rightarrow> False)"

definition dispatch_test_unknown_command :: "(nat \<Rightarrow> instant) \<Rightarrow> bool" where
  "dispatch_test_unknown_command c =
     (case replies c 0 [[''FOOBAR'']] make_store of
        Inr [resp] \<Rightarrow> resp = ''-ERR unknown command'' @ CRLF
      | _ \<Rightarrow> False)"

definition dispatch_test_case_insensitive :: "(nat \<Rightarrow> instant) \<Rightarrow> bool" where
  "dispatch_test_case_insensitive c =
     (case replies c 0 [[''set'', ''k'', ''v''], [''get'', ''k'']] make_store of
        Inr [_, resp] \<Rightarrow> resp = ''$1'' @ CRLF @ ''v'' @ CRLF
      | _ \<Rightarrow> False)"

definition dispatch_test_wrong_arg_count :: "(nat \<Rightarrow> instant) \<Rightarrow> bool" where
  "dispatch_test_wrong_arg_count c =
     (case replies c 0 [[''SET'', ''only_key'']] make_store of
        Inr [resp] \<Rightarrow> sublist ''wrong number of arguments'' resp
      | _ \<Rightarrow> False)"

definition dispatch_test_echo :: "(nat \<Rightarrow> instant) \<Rightarrow> bool" where
  "dispatch_test_echo c =
     (case replies c 0 [[''ECHO'', ''hello'']] make_store of
        Inr [resp] \<Rightarrow> resp = ''$5'' @ CRLF @ ''hello'' @ CRLF
      | _ \<Rightarrow> False)"

lemma test_names [simp]:
  "to_uppercase_ascii ''PING'' = Some ''PING''"
  "to_uppercase_ascii ''ECHO'' = Some ''ECHO''"
  "to_uppercase_ascii ''SET'' = Some ''SET''"
  "to_uppercase_ascii ''GET'' = Some ''GET''"
  "to_uppercase_ascii ''DEL'' = Some ''DEL''"
  "to_uppercase_ascii ''EXISTS'' = Some ''EXISTS''"
  "to_uppercase_ascii ''TTL'' = Some ''TTL''"
  "to_uppercase_ascii ''EXPIRE'' = Some ''EXPIRE''"
  "to_uppercase_ascii ''FOOBAR'' = Some ''FOOBAR''"
  "to_uppercase_ascii ''set'' = Some ''SET''"
  "to_uppercase_ascii ''get'' = Some ''GET''"
  "to_uppercase_ascii ''EX'' = Some ''EX''"
  "to_uppercase_ascii ''PX'' = Some ''PX''"
  by code_simp+

lemma test_words [simp]:
  "utf8_valid ''PING''"
  "utf8_valid ''ECHO''"
  "utf8_valid ''SET''"
  "utf8_valid ''GET''"
  "utf8_valid ''DEL''"
  "utf8_valid ''EXISTS''"
  "utf8_valid ''TTL''"
  "utf8_valid ''EXPIRE''"
  "utf8_valid ''FOOBAR''"
  "utf8_valid ''set''"
  "utf8_valid ''get''"
  "utf8_valid ''EX''"
  "utf8_valid ''PX''"
  "utf8_valid ''k''"
  "utf8_valid ''mykey''"
  "utf8_valid ''nokey''"
  "utf8_valid ''only_key''"
  by code_simp+

lemma test_numbers [simp]:
  "extract_u64 (BulkString ''10'') = Some 10" "extract_u64 (BulkString ''60'') = Some 60" "extract_u64 (BulkString ''5000'') = Some 5000"
  "dec_nat (Suc (Suc (Suc (Suc (Suc 0))))) = ''5''" "dec_nat (Suc (Suc (Suc (Suc (Suc (Suc (Suc 0))))))) = ''7''" "dec_nat (Suc 0) = ''1''"
  "dec_int 0 = ''0''" "dec_int 1 = ''1''" "dec_int (- 1) = ''-1''" "dec_int (- 2) = ''-2''"
  by code_simp+

lemmas dispatch_test_defs =
  make_store_def array_def store_new_def cmd_ping_def cmd_echo_def cmd_set_def cmd_get_def cmd_del_def cmd_exists_def cmd_ttl_def cmd_expire_def
  store_set_def store_get_def store_delete_def store_exists_def store_expire_def store_ttl_def put_entry_def hm_get_def hm_insert_def
  hm_remove_def hm_modify_def encode_simple_string_def encode_error_def encode_integer_def encode_bulk_string_def encode_null_def

text \<open>Without a deadline the clock plays no role.\<close>
lemma untimed_dispatch_tests:
  "dispatch_test_ping c"
  "dispatch_test_ping_with_message c"
  "dispatch_test_set_and_get c"
  "dispatch_test_get_missing c"
  "dispatch_test_del_existing c"
  "dispatch_test_del_missing c"
  "dispatch_test_exists c"
  "dispatch_test_ttl_no_key c"
  "dispatch_test_ttl_no_expiry c"
  "dispatch_test_expire_missing_key c"
  "dispatch_test_unknown_command c"
  "dispatch_test_case_insensitive c"
  "dispatch_test_wrong_arg_count c"
  "dispatch_test_echo c"
proof -
  show "dispatch_test_ping c" by (simp add: dispatch_test_ping_def dispatch_test_defs)
  show "dispatch_test_ping_with_message c" by (simp add: dispatch_test_ping_with_message_def dispatch_test_defs)
  show "dispatch_test_set_and_get c" by (simp add: dispatch_test_set_and_get_def dispatch_test_defs)
  show "dispatch_test_get_missing c" by (simp add: dispatch_test_get_missing_def dispatch_test_defs)
  show "dispatch_test_del_existing c" by (simp add: dispatch_test_del_existing_def dispatch_test_defs)
  show "dispatch_test_del_missing c" by (simp add: dispatch_test_del_missing_def dispatch_test_defs)
  show "dispatch_test_exists c" by (simp add: dispatch_test_exists_def dispatch_test_defs)
  show "dispatch_test_ttl_no_key c" by (simp add: dispatch_test_ttl_no_key_def dispatch_test_defs)
  show "dispatch_test_ttl_no_expiry c" by (simp add: dispatch_test_ttl_no_expiry_def dispatch_test_defs)
  show "dispatch_test_expire_missing_key c" by (simp add: dispatch_test_expire_missing_key_def dispatch_test_defs)
  show "dispatch_test_unknown_command c" by (simp add: dispatch_test_unknown_command_def dispatch_test_defs)
  show "dispatch_test_case_insensitive c" by (simp add: dispatch_test_case_insensitive_def dispatch_test_defs)
  have "sublist ''wrong number of arguments'' (encode_error ''ERR wrong number of arguments for 'set' command'')" by code_simp
  then show "dispatch_test_wrong_arg_count c" by (simp add: dispatch_test_wrong_arg_count_def make_store_def array_def cmd_set_def)
  show "dispatch_test_echo c" by (simp add: dispatch_test_echo_def dispatch_test_defs)
qed

text \<open>With a deadline the test passes unless the clock is about to overflow; it does not see what time is left.\<close>
lemma timed_dispatch_tests:
  assumes "c 0 < 2 ^ 62 * nanos_per_sec"
  shows "dispatch_test_set_with_ex c" "dispatch_test_set_with_px c" "c 2 < 2 ^ 62 * nanos_per_sec \<Longrightarrow> dispatch_test_expire c"
proof -
  show "dispatch_test_set_with_px c" "dispatch_test_set_with_ex c"
    using assms by (simp_all add: dispatch_test_set_with_px_def dispatch_test_set_with_ex_def dispatch_test_defs instant_add_def instant_limit_def
      from_secs_def from_millis_def nanos_per_sec_def nanos_per_milli_def)
  show "dispatch_test_expire c" if "c 2 < 2 ^ 62 * nanos_per_sec"
    using that by (simp add: dispatch_test_expire_def dispatch_test_defs instant_add_def instant_limit_def from_secs_def nanos_per_sec_def)
qed

end
