(* ===== verification/Spec2Isabelle.thy ===== *)
theory Spec2Isabelle
  imports Join_Test Join_Delete Gossip_Cluster Failure_Detection Health_Loop Start_Up Demo_Tool Ring_Tests Resp_Tests
begin

text \<open>
  \<^bold>\<open>A verification of the self-healing distributed cache.\<close>

  The program is three Rust crates. A \<^emph>\<open>node\<close> (\<^verbatim>\<open>crates/node\<close>) keeps an in-memory store with TTLs and serves it over
  gRPC and over a Redis-compatible protocol (RESP); nodes find each other and detect failures by gossip,
  and a node that joins pulls the keys it owns from its peers. A \<^emph>\<open>router\<close> (\<^verbatim>\<open>crates/router\<close>) places keys on
  nodes by consistent hashing, writes to several replicas, reads from the first that answers, and learns
  about failures from heartbeats and from the nodes' gossip. \<^verbatim>\<open>crates/common\<close> holds the ring and the shared types.

  \<^bold>\<open>Theories and sources.\<close>

  \<^item> \<^verbatim>\<open>Prelude\<close>: panics as values, time, words, list lemmas. \<^verbatim>\<open>Std_Map\<close>: the standard library's \<^verbatim>\<open>HashMap\<close> and
    \<^verbatim>\<open>DashMap\<close> as association lists with distinct keys, \<^verbatim>\<open>BTreeMap\<close> as sorted ones; locale \<open>finite_map\<close>.
    \<^verbatim>\<open>Std_Text\<close>: decimal printing and parsing, UTF-8 validation, upper case. \<^verbatim>\<open>Std_Net\<close>: socket addresses as text. They model the language's library.
  \<^item> \<^verbatim>\<open>Common_Types\<close>: \<^verbatim>\<open>common/src/lib.rs\<close>, the messages of \<^verbatim>\<open>proto/\<close>, and the record \<open>externs\<close> of third-party functions.
  \<^item> \<^verbatim>\<open>Hash_Ring\<close>: \<^verbatim>\<open>common/src/hashring.rs\<close>. Only the changed node's keys move when a node is added or removed;
    preference lists are complete, distinct and headed by the owner; without hash collisions the placement is
    a function of the set of members (\<open>placed\<close>). Locale \<open>placement\<close>.
  \<^item> \<^verbatim>\<open>Cache_Store\<close>: \<^verbatim>\<open>node/src/cache/store.rs\<close> and \<^verbatim>\<open>expiry.rs\<close>. Runs refine a map with deadlines; sweeps cannot be
    observed; transfers keep the remaining time; the two steps of a read race with a write
    (\<open>get_check\<close>, \<open>get_remove\<close>). Locale \<open>ttl_store\<close>.
  \<^item> \<^verbatim>\<open>Gossip_State\<close>, \<^verbatim>\<open>Gossip_Protocol\<close>: \<^verbatim>\<open>node/src/gossip/\<close>. Merging is a maximum (locale \<open>max_merge\<close>), hence
    order-independent, idempotent, monotone; an exchange makes two nodes agree; accusations are refuted;
    the step relation \<open>gossip_step\<close> covers everything that happens to a table, and a node never suspects itself.
    \<^verbatim>\<open>Gossip_Cluster\<close>: exchanges among any number of nodes (\<open>exchange_exec\<close>): a view spreads along chains of exchanges and
    nothing else does; two passes over the cluster make all views equal. \<^verbatim>\<open>Failure_Detection\<close>: the loop
    \<^verbatim>\<open>GossipProtocol::run\<close> (\<open>loop_exec\<close>), its ticks interleaved with the exchanges the node serves: a crashed peer is declared
    dead in time, and routers that hear of it drop it.
  \<^item> \<^verbatim>\<open>Resp_Codec\<close>: \<^verbatim>\<open>node/src/resp/parser.rs\<close> and \<^verbatim>\<open>encoder.rs\<close>; \<^verbatim>\<open>Resp_Server\<close>: \<^verbatim>\<open>node/src/resp/server.rs\<close>. Progress,
    bounds, stability and round trip of the parser; replies and effects of the commands; a connection does
    not depend on how the stream is cut (locale \<open>framed_parser\<close>). \<^verbatim>\<open>Resp_Listener\<close>: the accept loop, its connections as
    interleaved tasks (\<open>resp_exec\<close>) and the \<^verbatim>\<open>select!\<close> of \<^verbatim>\<open>node/src/main.rs\<close> (\<open>main_exec\<close>): every connection is served as
    \<open>handle_connection\<close> says; a failed accept ends the node.
  \<^item> \<^verbatim>\<open>Node_Service\<close>: \<^verbatim>\<open>node/src/grpc/service.rs\<close> and the seed list and shared state of
    \<^verbatim>\<open>node/src/main.rs\<close>; \<^verbatim>\<open>Rebalance\<close>: \<^verbatim>\<open>node/src/rebalance/mod.rs\<close>. A transfer stores exactly the
    peer's live keys that this node owns; a rebalance lays the offers of its peers over one another; deletes
    received while joining are final.
  \<^item> \<^verbatim>\<open>Node_Process\<close>: the tasks of \<^verbatim>\<open>node/src/main.rs\<close> interleaved, with the rebalancer and a refused delete cut into
    their atomic steps (\<open>proc_exec\<close>, \<open>proc_run\<close>). The steps compute \<open>wait_and_rebalance\<close> when undisturbed; the
    rebalancer ends; the Joining state is left for good; a refused delete is final in every interleaving.
  \<^item> \<^verbatim>\<open>Health_Monitor\<close>: \<^verbatim>\<open>router/src/health/mod.rs\<close>; \<^verbatim>\<open>Replication\<close>: \<^verbatim>\<open>router/src/replication/\<close> and \<^verbatim>\<open>client.rs\<close>; \<^verbatim>\<open>Router\<close>: the
    rest of \<^verbatim>\<open>router/src/\<close>. The coordinator is proved against the interface \<open>replica_net\<close> of its replicas. \<^verbatim>\<open>Health_Loop\<close>: the health checker
    over the ticks of its timer (\<open>start_health_checker\<close>): crashed nodes are routed to no more, answering ones are readmitted.
  \<^item> \<^verbatim>\<open>Cluster\<close>: that interface interpreted on a network of the modelled node services: reads after writes, under
    failures, after deletes, and what the router reports in an outage.
  \<^item> \<^verbatim>\<open>Router_Process\<close>: \<^verbatim>\<open>router/src/main.rs\<close> and \<^verbatim>\<open>ClusterConfig::load\<close>; the router's tasks as the step relation \<open>router_step\<close>.
    The routing state stays sound in every run; routers with the same members route alike; a node that
    comes back gets its keys back; a joining node's ring agrees with the router's; the health checker does
    not survive a bad address or a zero interval.
  \<^item> \<^verbatim>\<open>Join_Recovery\<close>: a rebalance against the other nodes of a cluster (\<open>cluster_rebalance\<close>), followed by reads through the
    router: keys that move stay readable; keys for which the new node is only a further replica lose a copy. \<^verbatim>\<open>Join_Delete\<close>:
    the same while the router works on (\<open>cluster_rebalance_during\<close>): a key deleted meanwhile comes back.
  \<^item> \<^verbatim>\<open>Start_Up\<close>: arguments, errors and exit status of both programs. A node's status reports bad arguments only, never
    the failure of a server; the router's reports both.
  \<^item> \<^verbatim>\<open>Join_Test\<close>: the integration test \<^verbatim>\<open>node/tests/integration_join.rs\<close> with its three servers, over an arbitrary schedule of
    their tasks (\<open>bg_exec\<close>) and gossip messages that may be delayed, reordered and lost. An invariant of all
    interleavings (\<open>trial_ok\<close>) shows at which assertions the test can fail.
  \<^item> \<^verbatim>\<open>Load_Tool\<close>: \<^verbatim>\<open>tools/demo/src/main.rs\<close>. The report does not depend on the interleaving of the workers; a worker
    stops; a RESP worker and the node's server understand each other. \<^verbatim>\<open>Demo_Tool\<close>: its three commands as programs with
    their output, prompts, sleeps, report and exit code. A combined run ends; its exit code and the success
    rate it reports agree. \<^verbatim>\<open>Std_Float\<close>: the \<^verbatim>\<open>f64\<close> arithmetic behind the rate, rounded to nearest, which keeps the order.
  \<^item> \<^verbatim>\<open>Store_Tests\<close>, \<^verbatim>\<open>Resp_Tests\<close>: the repository's unit tests, run on the model: for which clocks and identifiers each
    of them passes. \<^verbatim>\<open>Ring_Tests\<close>: the two statistical tests of the ring, as functions of the hash: their
    bounds on percentages, computed in doubles, are bounds on the counts; the first bounds the share of every node,
    the second the share of the node added.
  \<^item> This theory: a property of a node's gossip and the router together.

  \<^bold>\<open>Conventions.\<close> A method that holds a lock for its whole body is one state transition; interleavings of
  tasks are explicit sequences of such transitions (\<open>gossip_step\<close>, \<open>loop_exec\<close>, \<open>join_event\<close>, \<open>proc_run\<close>, \<open>router_step\<close>,
  \<open>resp_exec\<close>, \<open>bg_exec\<close>, \<open>interleavings\<close>, the argument \<open>others\<close> of a connection). Clock readings, random choices, network answers and generated identifiers are arguments.
  A panic is the left side of the type \<open>run\<close>. Counters on the wire are 64-bit words and failure counts 32-bit
  words, with the wrap-around of a release build; lengths, bounded by memory, are natural numbers. An
  \<^verbatim>\<open>Instant\<close> is a number of nanoseconds below \<open>instant_limit\<close>. Loops are total functions with
  termination proofs, so no fuel is used (the poll of the integration test, \<open>poll_alive\<close>, ends because each turn
  sleeps); the one that ends only when the clock says so, \<open>load_loop\<close>, is option-valued and proved to
  return. Where a deadline must not overflow, readings of the clock are assumed to lie below \<open>2^62\<close> seconds
  (\<open>2^61\<close> at the start of the integration test), less than \<open>instant_limit\<close>; \<open>cap\<close>, the largest vector the allocator grants, is a parameter of
  the parser. The order in which a hash map is iterated is that of its association list.

  \<^bold>\<open>Third-party code\<close> is a parameter: the hash \<^verbatim>\<open>xxh3\<close>, printing and parsing of UUIDs (assumed to round-trip where
  that is used), URI validation, the gRPC transport, \<^verbatim>\<open>serde_json\<close> and \<^verbatim>\<open>clap\<close>. \<open>demo_ext\<close>, \<open>spread_ext\<close> (a hash
  without collisions) and \<open>cluster_net\<close> instantiate them.

  \<^bold>\<open>Not modelled.\<close> Logging; what \<^verbatim>\<open>clap\<close> does with the command line before it fills the arguments; the text
  format of the configuration file; sockets and TLS, with binding a port as a parameter of the start-up; the timers
  themselves: the loops they drive are runs over ticks at arbitrary times, so that a claim about time
  is a hypothesis on the times of the ticks; the stack overflow of deeply nested arrays; the text of the
  load tool's JSON report, which \<^verbatim>\<open>serde_json\<close> prints; the values of \<^verbatim>\<open>xxh3\<close>, hence whether the statistical tests
  pass; constructors that only collect the handles of a task, whose state is passed explicitly; module
  declarations, build scripts and generated code.
\<close>

section \<open>A first node and the router\<close>

lemma lone_table: "all_members (table_new t0 l []) = [\<lparr>me_info = \<lparr>ni_id = l, ni_addr = []\<rparr>, me_status = Alive, me_incarnation = 0, me_last_seen = t0\<rparr>]"
  by (simp add: all_members_def table_new_def hm_insert_def)

lemma lone_report:
  assumes "uuid_roundtrip ext"
  shows "snd (exchange_gossip ext now (Inr (build_gossip_message ext now0 (table_new t0 l []))) (ring_new, monitor_new))
       = (add_node ext \<lparr>ni_id = l, ni_addr = []\<rparr> ring_new, health_mark_alive now l monitor_new)"
  using parse_display_node_id [OF assms, of l]
  by (simp add: exchange_gossip_def build_gossip_message_def lone_table apply_member_def proto_status_try_from_def ring_new_def)

text \<open>A ring with a single node prefers that node for every key.\<close>
lemma lone_preference:
  "\<exists>rest. get_preference_list ext (add_node ext info ring_new) key n = info # rest"
proof -
  let ?r = "add_node ext info ring_new"
  have inv: "ring_inv ?r" by (intro ring_inv_add_node ring_inv_new)
  have nodes: "hr_nodes ?r = [info]" by (simp add: add_node_def ring_new_def)
  have "hr_ring ?r \<noteq> []" using add_node_nonempty [of ring_new] by (simp add: ring_new_def DEFAULT_VNODE_COUNT_def)
  then obtain owner where owner: "get_node ext ?r key = Some owner" using get_node_None [OF inv, of ext key] by auto
  then have "owner = info" using ring.owner_member [OF inv owner] nodes by simp
  then show ?thesis using ring.prefs_hd [OF inv, of ext key n] owner by (auto split: list.splits)
qed

section \<open>Properties\<close>



end
